(* ===== verification/Prelude.thy ===== *)
theory Prelude
  imports Main "HOL-Library.Word"
begin

text \<open>
  Shared vocabulary of the development: Rust's machine integers, the result of a Rust
  expression that can panic, overflow-checked addition, slice indexing, and the generic
  lemmas on lists and maps that the component theories use. The collection \<open>res_simps\<close>
  gathers the rewrite rules of the result type.
\<close>

section \<open>Machine integers\<close>

type_synonym u8 = "8 word"
type_synonym u32 = "32 word"
type_synonym u64 = "64 word"
type_synonym u128 = "128 word"

section \<open>Results that may panic\<close>

text \<open>
  A Rust expression either returns a value or panics (which ends the thread). The
  constructors of \<open>panic\<close> are the reasons that occur in the sources: \<open>unwrap\<close> of
  \<open>None\<close> or of an error, a slice index out of bounds, an arithmetic overflow in a build
  with overflow checks, \<open>copy_from_slice\<close> on slices of different lengths,
  \<open>unimplemented!()\<close>, a channel whose other end is gone, and an explicit \<open>panic!\<close>.
\<close>

datatype panic =
    UnwrapNone
  | UnwrapErr
  | IndexOutOfBounds
  | ArithmeticOverflow
  | LengthMismatch
  | Unimplemented
  | ChannelClosed
  | Explicit

datatype 'a res = Ret 'a | Panic panic

named_theorems res_simps "rewrite rules for results that may panic"

primrec bind_res :: "'a res \<Rightarrow> ('a \<Rightarrow> 'b res) \<Rightarrow> 'b res" where
  "bind_res (Ret x) f = f x"
| "bind_res (Panic p) f = Panic p"

lemma bind_res_Ret_iff [res_simps]:
  "bind_res m f = Ret y \<longleftrightarrow> (\<exists>x. m = Ret x \<and> f x = Ret y)"
  by (cases m) auto

lemma bind_res_Panic_iff [res_simps]:
  "bind_res m f = Panic p \<longleftrightarrow> m = Panic p \<or> (\<exists>x. m = Ret x \<and> f x = Panic p)"
  by (cases m) auto

lemma bind_res_assoc: "bind_res (bind_res m f) g = bind_res m (\<lambda>x. bind_res (f x) g)"
  by (cases m) auto

lemma bind_res_cong [fundef_cong]:
  "m = m' \<Longrightarrow> (\<And>x. m' = Ret x \<Longrightarrow> f x = f' x) \<Longrightarrow> bind_res m f = bind_res m' f'"
  by (cases m') auto

text \<open>\<open>Option::unwrap\<close>, and slice indexing \<open>xs[i]\<close>.\<close>

definition unwrap :: "'a option \<Rightarrow> 'a res" where
  "unwrap x = (case x of None \<Rightarrow> Panic UnwrapNone | Some v \<Rightarrow> Ret v)"

lemma unwrap_simps [simp]:
  "unwrap None = Panic UnwrapNone"
  "unwrap (Some v) = Ret v"
  by (simp_all add: unwrap_def)

lemma unwrap_Ret_iff [res_simps]: "unwrap x = Ret v \<longleftrightarrow> x = Some v"
  by (cases x) auto

lemma unwrap_Panic_iff [res_simps]: "unwrap x = Panic p \<longleftrightarrow> x = None \<and> p = UnwrapNone"
  by (cases x) auto

definition slice_index :: "'a list \<Rightarrow> nat \<Rightarrow> 'a res" where
  "slice_index xs i = (if i < length xs then Ret (xs ! i) else Panic IndexOutOfBounds)"

lemma slice_index_simps [simp]:
  "i < length xs \<Longrightarrow> slice_index xs i = Ret (xs ! i)"
  "length xs \<le> i \<Longrightarrow> slice_index xs i = Panic IndexOutOfBounds"
  by (simp_all add: slice_index_def)

lemma slice_index_Ret_iff [res_simps]:
  "slice_index xs i = Ret v \<longleftrightarrow> i < length xs \<and> v = xs ! i"
  by (auto simp: slice_index_def)

text \<open>\<open>dst.copy_from_slice(src)\<close> panics when the lengths differ.\<close>

definition copy_from_slice :: "'a list \<Rightarrow> 'a list \<Rightarrow> 'a list res" where
  "copy_from_slice dst src = (if length dst = length src then Ret src else Panic LengthMismatch)"

text \<open>
  \<open>a + b\<close> on unsigned integers: a build with overflow checks (the \<open>dev\<close> profile)
  panics on overflow, a build without them (the \<open>release\<close> profile) wraps around. The
  flag of the build is an argument.
\<close>

definition add_checked :: "bool \<Rightarrow> 'a::len word \<Rightarrow> 'a word \<Rightarrow> 'a word res" where
  "add_checked chk a b =
     (if chk \<and> 2 ^ LENGTH('a) \<le> unat a + unat b then Panic ArithmeticOverflow else Ret (a + b))"

lemma add_checked_wraps [simp]: "add_checked False a b = Ret (a + b)"
  by (simp add: add_checked_def)

lemma add_checked_no_overflow:
  "unat a + unat b < 2 ^ LENGTH('a) \<Longrightarrow> add_checked chk a (b :: 'a::len word) = Ret (a + b)"
  by (simp add: add_checked_def)

lemma add_checked_True_Ret:
  "add_checked True a (b :: 'a::len word) = Ret c \<longleftrightarrow>
     unat a + unat b < 2 ^ LENGTH('a) \<and> c = a + b"
  by (auto simp: add_checked_def)

lemma add_checked_True_unat:
  "add_checked True a (b :: 'a::len word) = Ret c \<Longrightarrow> unat c = unat a + unat b"
  by (simp add: add_checked_True_Ret unat_word_ariths)

lemma add_checked_Panic [res_simps]:
  "add_checked chk a (b :: 'a::len word) = Panic p \<longleftrightarrow>
     chk \<and> 2 ^ LENGTH('a) \<le> unat a + unat b \<and> p = ArithmeticOverflow"
  by (auto simp: add_checked_def)

lemma unat_u32_bound: "unat (v :: u32) < 2 ^ 32"
  by (rule order.strict_trans2 [OF unsigned_less]) simp

lemma add_checked_zero [simp]: "add_checked chk 0 (v :: 'a::len word) = Ret v"
proof -
  have "unat v < 2 ^ LENGTH('a)" by (rule unsigned_less)
  then show ?thesis by (simp add: add_checked_def not_le)
qed

text \<open>Counting a height down: the predecessor of a positive word.\<close>

lemma unat_pred:
  assumes "a < (b :: 'a::len word)"
  shows "unat (b - 1) = unat b - 1" and "unat (b - 1) < unat b"
proof -
  have "0 < unat b" using assms by (simp add: word_less_nat_alt)
  then have "1 \<le> b" by (simp add: word_le_nat_alt Suc_le_eq)
  then show "unat (b - 1) = unat b - 1" by (simp add: unat_sub)
  with \<open>0 < unat b\<close> show "unat (b - 1) < unat b" by simp
qed

lemma u32_exists: "n < 2 ^ 32 \<Longrightarrow> \<exists>r :: u32. unat r = n"
  by (intro exI [of _ "word_of_nat n"]) (simp add: unat_of_nat take_bit_nat_eq_self)

text \<open>Subtraction underflows in the same way.\<close>

definition sub_checked :: "bool \<Rightarrow> 'a::len word \<Rightarrow> 'a word \<Rightarrow> 'a word res" where
  "sub_checked chk a b = (if chk \<and> a < b then Panic ArithmeticOverflow else Ret (a - b))"

lemma sub_checked_le [simp]: "b \<le> a \<Longrightarrow> sub_checked chk a b = Ret (a - b)"
  by (simp add: sub_checked_def not_less [symmetric])

text \<open>
  \<open>only_overflow chk m\<close>: if \<open>m\<close> panics at all, then by an arithmetic overflow in a
  build with overflow checks. With \<open>chk = False\<close> it says that \<open>m\<close> does not panic.
\<close>

definition only_overflow :: "bool \<Rightarrow> 'a res \<Rightarrow> bool" where
  "only_overflow chk m \<longleftrightarrow> (\<forall>p. m = Panic p \<longrightarrow> chk \<and> p = ArithmeticOverflow)"

named_theorems only_overflow_intros "introduction rules for \<open>only_overflow\<close>"

lemma only_overflow_Ret [simp]: "only_overflow chk (Ret x)"
  by (simp add: only_overflow_def)

lemma only_overflow_Panic [simp]: "only_overflow chk (Panic p) \<longleftrightarrow> chk \<and> p = ArithmeticOverflow"
  by (auto simp: only_overflow_def)

lemma only_overflow_bind [only_overflow_intros]:
  "only_overflow chk m \<Longrightarrow> (\<And>x. m = Ret x \<Longrightarrow> only_overflow chk (f x)) \<Longrightarrow>
     only_overflow chk (bind_res m f)"
  by (cases m) auto

lemma only_overflow_add [simp]: "only_overflow chk (add_checked chk a b)"
  by (simp add: add_checked_def)

lemma only_overflowD: "only_overflow chk m \<Longrightarrow> m = Panic p \<Longrightarrow> chk \<and> p = ArithmeticOverflow"
  by (simp add: only_overflow_def)

text \<open>
  \<open>i32\<close> values are 32-bit words read as signed; the addition of one, which the code
  uses for counters, overflows at the largest value.
\<close>

type_synonym i32 = "32 word"

definition inc_i32 :: "bool \<Rightarrow> i32 \<Rightarrow> i32 res" where
  "inc_i32 chk a = (if chk \<and> sint a = 2 ^ 31 - 1 then Panic ArithmeticOverflow else Ret (a + 1))"

lemma only_overflow_inc [simp]: "only_overflow chk (inc_i32 chk a)"
  by (simp add: inc_i32_def)

section \<open>Channels\<close>

text \<open>What \<open>try_recv\<close> on a channel finds; a blocking \<open>recv\<close> waits while it is empty.\<close>

datatype 's received = Received 's | Nothing | Disconnected

section \<open>Lists and finite maps\<close>

text \<open>\<open>Vec::remove(i)\<close> for an index in range.\<close>

definition remove_at :: "nat \<Rightarrow> 'a list \<Rightarrow> 'a list" where
  "remove_at i xs = take i xs @ drop (Suc i) xs"

lemma length_remove_at [simp]: "i < length xs \<Longrightarrow> length (remove_at i xs) = length xs - 1"
  by (simp add: remove_at_def)

lemma set_remove_at: "set (remove_at i xs) \<subseteq> set xs"
  by (auto simp: remove_at_def dest: in_set_takeD in_set_dropD)

lemma take_remove_at [simp]: "i < length xs \<Longrightarrow> take i (remove_at i xs) = take i xs"
  by (simp add: remove_at_def)

lemma concat_pairs_inj:
  assumes "concat (map f xs) = concat (map f ys)"
    and "\<And>x. length (f x) = Suc k" and "inj f"
  shows "xs = ys"
  using assms(1)
proof (induction xs arbitrary: ys)
  case Nil
  then show ?case using assms(2) by (cases ys) (auto, metis list.size(3) nat.distinct(1))
next
  case (Cons x xs)
  then obtain y zs where ys: "ys = y # zs"
    using assms(2) by (cases ys) (auto, metis list.size(3) nat.distinct(1))
  with Cons.prems have "f x @ concat (map f xs) = f y @ concat (map f zs)" by simp
  then have "f x = f y" and "concat (map f xs) = concat (map f zs)"
    using assms(2) by (auto simp: append_eq_append_conv)
  with Cons.IH ys assms(3) show ?case by (simp add: inj_eq)
qed

lemma option_eqI: "(\<And>v. x = Some v \<longleftrightarrow> y = Some v) \<Longrightarrow> x = y"
  by (metis not_Some_eq)

text \<open>The iteration order of a \<open>HashMap\<close> is some enumeration of its entries.\<close>

definition enumerates :: "('k \<times> 'v) list \<Rightarrow> ('k \<rightharpoonup> 'v) \<Rightarrow> bool" where
  "enumerates xs m \<longleftrightarrow> distinct (map fst xs) \<and> (\<forall>k v. (k, v) \<in> set xs \<longleftrightarrow> m k = Some v)"

text \<open>The sum of a measure of the values of a finite map.\<close>

definition map_sum :: "('v \<Rightarrow> nat) \<Rightarrow> ('k \<rightharpoonup> 'v) \<Rightarrow> nat" where
  "map_sum f m = (\<Sum>k\<in>dom m. f (the (m k)))"

lemma map_sum_empty [simp]: "map_sum f Map.empty = 0"
  by (simp add: map_sum_def)

lemma map_sum_remove:
  assumes "finite (dom m)" and "m k = Some v"
  shows "map_sum f (m(k := None)) + f v = map_sum f m"
proof -
  have "map_sum f m = f (the (m k)) + (\<Sum>k'\<in>dom m - {k}. f (the (m k')))"
    unfolding map_sum_def using assms by (intro sum.remove) auto
  moreover have "(\<Sum>k'\<in>dom m - {k}. f (the (m k'))) = map_sum f (m(k := None))"
    unfolding map_sum_def by (rule sum.cong) auto
  ultimately show ?thesis using assms by simp
qed

lemma map_sum_insert:
  assumes "finite (dom m)" and "m k = None"
  shows "map_sum f (m(k \<mapsto> v)) = map_sum f m + f v"
proof -
  have "map_sum f (m(k \<mapsto> v)) = (\<Sum>k'\<in>insert k (dom m). f (the ((m(k \<mapsto> v)) k')))"
    by (simp add: map_sum_def)
  also have "\<dots> = f v + (\<Sum>k'\<in>dom m. f (the ((m(k \<mapsto> v)) k')))"
    using assms by (subst sum.insert) (auto simp: domIff)
  also have "(\<Sum>k'\<in>dom m. f (the ((m(k \<mapsto> v)) k'))) = map_sum f m"
    unfolding map_sum_def using assms(2) by (intro sum.cong) auto
  finally show ?thesis by (simp only: add.commute)
qed

end
