(* ===== verification/Hash.thy ===== *)
theory Hash
  imports Prelude
begin

text \<open>
  \<open>src/src/types/hash.rs\<close>: the 32-byte hash \<open>H256\<close>, its conversions, its two formatters
  and its order. An \<open>H256\<close> is a list of exactly 32 bytes, as \<open>[u8; 32]\<close> is. The order
  compares two 128-bit halves as the code does; the lemmas show that it is the order of
  the 256-bit big-endian number, and \<open>H256\<close> is made a \<open>linorder\<close> by it.
\<close>

section \<open>Big-endian numbers\<close>

definition be_nat :: "u8 list \<Rightarrow> nat" where
  "be_nat bs = foldl (\<lambda>n b. 256 * n + unat b) 0 bs"

definition from_be_bytes :: "u8 list \<Rightarrow> 'a::len word" where
  "from_be_bytes bs = word_of_nat (be_nat bs)"

lemma be_nat_Nil [simp]: "be_nat [] = 0"
  by (simp add: be_nat_def)

lemma be_nat_snoc [simp]: "be_nat (bs @ [b]) = 256 * be_nat bs + unat b"
  by (simp add: be_nat_def)

lemma unat_u8_less: "unat (b :: u8) < 256"
  by (rule order.strict_trans2 [OF unsigned_less]) simp

lemma be_nat_bound: "be_nat bs < 256 ^ length bs"
proof (induction bs rule: rev_induct)
  case (snoc b bs)
  have "256 * be_nat bs + unat b < 256 * (be_nat bs + 1)"
    using unat_u8_less [of b] by simp
  also have "\<dots> \<le> 256 * 256 ^ length bs"
    using snoc by (intro mult_le_mono2) simp
  finally show ?case by simp
qed simp

lemma be_nat_append: "be_nat (xs @ ys) = be_nat xs * 256 ^ length ys + be_nat ys"
proof (induction ys rule: rev_induct)
  case (snoc y ys)
  have "be_nat (xs @ ys @ [y]) = 256 * be_nat (xs @ ys) + unat y"
    using be_nat_snoc [of "xs @ ys" y] by simp
  with snoc.IH show ?case by (simp add: algebra_simps)
qed simp

lemma digit_unique:
  "256 * p + u = 256 * q + v \<Longrightarrow> u < 256 \<Longrightarrow> v < 256 \<Longrightarrow> p = q \<and> u = v" for p q u v :: nat
proof -
  assume a: "256 * p + u = 256 * q + v" "u < 256" "v < 256"
  have "p = (256 * p + u) div 256" using a(2) by simp
  also have "\<dots> = q" using a(1,3) by simp
  finally show ?thesis using a(1) by simp
qed

lemma be_nat_inj: "length xs = length ys \<Longrightarrow> be_nat xs = be_nat ys \<Longrightarrow> xs = ys"
proof (induction xs arbitrary: ys rule: rev_induct)
  case (snoc x xs)
  then obtain y zs where ys: "ys = zs @ [y]" by (cases ys rule: rev_cases) auto
  from snoc.prems ys have eq: "256 * be_nat xs + unat x = 256 * be_nat zs + unat y" by simp
  then have "be_nat xs = be_nat zs \<and> unat x = unat y"
    by (rule digit_unique) (rule unat_u8_less)+
  with snoc.IH [of zs] snoc.prems(1) ys show ?case by (simp add: unsigned_word_eqI)
qed simp

lemma unat_from_be_bytes_gen:
  "256 ^ length bs \<le> (2 :: nat) ^ LENGTH('a) \<Longrightarrow> unat (from_be_bytes bs :: 'a::len word) = be_nat bs"
  using be_nat_bound [of bs] by (simp add: from_be_bytes_def unat_of_nat take_bit_nat_eq_self)

lemma unat_u128_from_be_bytes:
  "length bs = 16 \<Longrightarrow> unat (from_be_bytes bs :: u128) = be_nat bs"
  by (rule unat_from_be_bytes_gen) simp

section \<open>Hexadecimal output\<close>

definition hex_digit :: "nat \<Rightarrow> char" where
  "hex_digit n = ''0123456789abcdef'' ! n"

text \<open>The format \<open>{:>02x}\<close> of a byte: two lower-case digits.\<close>

definition hex_byte :: "u8 \<Rightarrow> string" where
  "hex_byte b = [hex_digit (unat b div 16), hex_digit (unat b mod 16)]"

text \<open>\<open>for byte_idx in start..end\<close> writing each byte of an array.\<close>

definition hex_range :: "u8 list \<Rightarrow> nat \<Rightarrow> nat \<Rightarrow> string" where
  "hex_range bs start stop = concat (map (\<lambda>i. hex_byte (bs ! i)) [start..<stop])"

lemma hex_digit_inj: "m < 16 \<Longrightarrow> n < 16 \<Longrightarrow> hex_digit m = hex_digit n \<Longrightarrow> m = n"
proof -
  assume "m < 16" "n < 16" "hex_digit m = hex_digit n"
  moreover have "distinct ''0123456789abcdef''" by simp
  ultimately show "m = n"
    using nth_eq_iff_index_eq [of "''0123456789abcdef''" m n] by (simp add: hex_digit_def)
qed

lemma length_hex_byte [simp]: "length (hex_byte b) = 2"
  by (simp add: hex_byte_def)

lemma hex_byte_inj: "inj hex_byte"
proof (rule injI)
  fix a b assume "hex_byte a = hex_byte b"
  then have "hex_digit (unat a div 16) = hex_digit (unat b div 16)"
    and "hex_digit (unat a mod 16) = hex_digit (unat b mod 16)"
    by (simp_all add: hex_byte_def)
  moreover have "unat a div 16 < 16" "unat b div 16 < 16"
    using unat_u8_less [of a] unat_u8_less [of b] by linarith+
  ultimately have "unat a div 16 = unat b div 16" "unat a mod 16 = unat b mod 16"
    using hex_digit_inj by (metis, metis mod_less_divisor zero_less_numeral)
  then have "unat a = unat b" by (metis div_mult_mod_eq)
  then show "a = b" by (simp add: unsigned_word_eqI)
qed

lemma hex_range_drop:
  "stop = length bs \<Longrightarrow> hex_range bs start stop = concat (map hex_byte (drop start bs))"
proof -
  assume stop: "stop = length bs"
  have "map (\<lambda>i. hex_byte (bs ! i)) [start..<stop] = map hex_byte (map ((!) bs) [start..<stop])"
    by simp
  also have "map ((!) bs) [start..<stop] = drop start bs"
    using stop by (simp add: map_nth drop_upt [symmetric] drop_map [symmetric] del: drop_upt)
      (metis add_0 drop_map drop_upt map_nth)
  finally show ?thesis by (simp add: hex_range_def)
qed

lemma length_concat_hex: "length (concat (map hex_byte bs)) = 2 * length bs"
  by (induction bs) auto

lemma concat_hex_inj: "concat (map hex_byte xs) = concat (map hex_byte ys) \<Longrightarrow> xs = ys"
  by (rule concat_pairs_inj [where f = hex_byte and k = 1]) (auto simp: hex_byte_inj)

lemma drop_concat_hex: "drop (2 * n) (concat (map hex_byte bs)) = concat (map hex_byte (drop n bs))"
proof (induction n arbitrary: bs)
  case (Suc n)
  then show ?case by (cases bs) (auto simp: hex_byte_def)
qed simp

section \<open>The type H256\<close>

typedef H256 = "{bs :: u8 list. length bs = 32}"
  morphisms h256_bytes H256
  by (intro exI [of _ "replicate 32 0"]) simp

lemma length_h256_bytes [simp]: "length (h256_bytes h) = 32"
  using h256_bytes [of h] by simp

lemma h256_bytes_H256 [simp]: "length bs = 32 \<Longrightarrow> h256_bytes (H256 bs) = bs"
  by (simp add: H256_inverse)

lemma h256_eqI: "h256_bytes a = h256_bytes b \<Longrightarrow> a = b"
  by (simp add: h256_bytes_inject)

instantiation H256 :: equal
begin

definition equal_H256 :: "H256 \<Rightarrow> H256 \<Rightarrow> bool" where
  "equal_H256 a b \<longleftrightarrow> h256_bytes a = h256_bytes b"

instance
  by standard (simp add: equal_H256_def h256_bytes_inject)

end

text \<open>An array literal \<open>[b; 32]\<close> converted by \<open>into()\<close>.\<close>

definition h256_fill :: "u8 \<Rightarrow> H256" where
  "h256_fill b = H256 (replicate 32 b)"

lemma h256_bytes_fill [simp]: "h256_bytes (h256_fill b) = replicate 32 b"
  by (simp add: h256_fill_def)

lemma h256_fill_eq [simp]: "h256_fill a = h256_fill b \<longleftrightarrow> a = b"
  by (auto simp: replicate_eq_replicate dest: arg_cong [where f = h256_bytes])

text \<open>
  The conversions: from a reference to an array through a zeroed buffer, back through a
  buffer, by moving the array, and from the bytes of a digest.
\<close>

definition H256_as_ref :: "H256 \<Rightarrow> u8 list" where
  "H256_as_ref h = h256_bytes h"

definition H256_from_ref :: "u8 list \<Rightarrow> H256 res" where
  "H256_from_ref input =
     (let buffer = replicate 32 0
      in bind_res (copy_from_slice buffer input) (\<lambda>buffer. Ret (H256 buffer)))"

definition array_from_H256_ref :: "H256 \<Rightarrow> u8 list res" where
  "array_from_H256_ref input =
     (let buffer = replicate 32 0 in copy_from_slice buffer (h256_bytes input))"

definition H256_from_array :: "u8 list \<Rightarrow> H256" where
  "H256_from_array input = H256 input"

definition array_from_H256 :: "H256 \<Rightarrow> u8 list" where
  "array_from_H256 input = h256_bytes input"

definition H256_from_digest :: "u8 list \<Rightarrow> H256 res" where
  "H256_from_digest input =
     (let raw_hash = replicate 32 0
      in bind_res (copy_from_slice raw_hash input) (\<lambda>raw_hash. Ret (H256 raw_hash)))"

text \<open>
  \<open>impl Hashable for H256\<close>. The digest function of the crate \<open>ring\<close> is an argument:
  \<open>sha\<close> is \<open>digest(&SHA256, _).into()\<close>. Its result type records the documented
  length of a SHA-256 digest, for which the conversion above returns.
\<close>

definition H256_hash :: "(u8 list \<Rightarrow> H256) \<Rightarrow> H256 \<Rightarrow> H256" where
  "H256_hash sha h = sha (h256_bytes h)"

text \<open>\<open>impl Display for H256\<close>, with the formatter's optional precision.\<close>

definition H256_display :: "nat option \<Rightarrow> H256 \<Rightarrow> string" where
  "H256_display precision h =
     (let start = (case precision of
                     Some p \<Rightarrow> (if 64 \<le> p then 0 else 32 - p div 2)
                   | None \<Rightarrow> 0)
      in hex_range (h256_bytes h) start 32)"

definition H256_debug :: "H256 \<Rightarrow> string" where
  "H256_debug h =
     hex_byte (h256_bytes h ! 0) @ hex_byte (h256_bytes h ! 1) @ ''..'' @
     hex_byte (h256_bytes h ! 30) @ hex_byte (h256_bytes h ! 31)"

section \<open>The order of hashes\<close>

datatype Ordering = Less | Equal | Greater

definition word_cmp :: "'a::len word \<Rightarrow> 'a word \<Rightarrow> Ordering" where
  "word_cmp a b = (if a < b then Less else if a = b then Equal else Greater)"

definition H256_cmp :: "H256 \<Rightarrow> H256 \<Rightarrow> Ordering" where
  "H256_cmp self other =
     (let self_higher = from_be_bytes (take 16 (h256_bytes self)) :: u128;
          self_lower = from_be_bytes (take 16 (drop 16 (h256_bytes self))) :: u128;
          other_higher = from_be_bytes (take 16 (h256_bytes other)) :: u128;
          other_lower = from_be_bytes (take 16 (drop 16 (h256_bytes other))) :: u128;
          higher = word_cmp self_higher other_higher
      in case higher of
           Equal \<Rightarrow> word_cmp self_lower other_lower
         | _ \<Rightarrow> higher)"

definition H256_partial_cmp :: "H256 \<Rightarrow> H256 \<Rightarrow> Ordering option" where
  "H256_partial_cmp self other = Some (H256_cmp self other)"

text \<open>The number an \<open>H256\<close> stands for, and the order of the code in terms of it.\<close>

definition h256_val :: "H256 \<Rightarrow> nat" where
  "h256_val h = be_nat (h256_bytes h)"

lemma h256_val_inject [simp]: "h256_val a = h256_val b \<longleftrightarrow> a = b"
  unfolding h256_val_def by (metis be_nat_inj h256_eqI length_h256_bytes)

lemma h256_val_split:
  "h256_val h = unat (from_be_bytes (take 16 (h256_bytes h)) :: u128) * 2 ^ 128
     + unat (from_be_bytes (take 16 (drop 16 (h256_bytes h))) :: u128)"
proof -
  have "h256_val h = be_nat (take 16 (h256_bytes h) @ take 16 (drop 16 (h256_bytes h)))"
    by (simp add: h256_val_def)
  also have "\<dots> = be_nat (take 16 (h256_bytes h)) * 256 ^ 16
      + be_nat (take 16 (drop 16 (h256_bytes h)))"
    by (subst be_nat_append) simp
  finally show ?thesis
    by (simp add: unat_u128_from_be_bytes)
qed

lemma lex_number_cmp:
  "l < B \<Longrightarrow> l' < B \<Longrightarrow> h * B + l < h' * B + l' \<longleftrightarrow> h < h' \<or> h = h' \<and> l < l'"
  for h h' l l' B :: nat
proof -
  assume b: "l < B" "l' < B"
  have lt: "h * B + l < h' * B + l'" if "h < h'" "l < B" for h h' l l'
  proof -
    from that have "h * B + l < Suc h * B" by simp
    also have "\<dots> \<le> h' * B" using that(1) by (intro mult_le_mono1) simp
    finally show ?thesis by simp
  qed
  show ?thesis using lt [of h h' l l'] lt [of h' h l' l] b
    by (cases h h' rule: linorder_cases) auto
qed

lemma H256_cmp_val:
  "H256_cmp a b =
     (if h256_val a < h256_val b then Less else if a = b then Equal else Greater)"
proof -
  let ?h = "\<lambda>h. from_be_bytes (take 16 (h256_bytes h)) :: u128"
  let ?l = "\<lambda>h. from_be_bytes (take 16 (drop 16 (h256_bytes h))) :: u128"
  have bound: "unat (w :: u128) < 2 ^ 128" for w
    by (rule order.strict_trans2 [OF unsigned_less]) simp
  have lt: "h256_val a < h256_val b \<longleftrightarrow> ?h a < ?h b \<or> ?h a = ?h b \<and> ?l a < ?l b"
    unfolding h256_val_split lex_number_cmp [OF bound bound]
    by (simp add: word_less_nat_alt word_unat_eq_iff)
  have eq: "a = b \<longleftrightarrow> ?h a = ?h b \<and> ?l a = ?l b"
    by (metis h256_val_inject h256_val_split)
  show ?thesis unfolding lt eq
    by (auto simp: H256_cmp_def word_cmp_def Let_def)
qed

instantiation H256 :: linorder
begin

definition less_eq_H256 :: "H256 \<Rightarrow> H256 \<Rightarrow> bool" where
  "less_eq_H256 a b \<longleftrightarrow> H256_partial_cmp a b \<noteq> Some Greater"

definition less_H256 :: "H256 \<Rightarrow> H256 \<Rightarrow> bool" where
  "less_H256 a b \<longleftrightarrow> H256_partial_cmp a b = Some Less"

lemma less_eq_H256_val: "a \<le> b \<longleftrightarrow> h256_val a \<le> h256_val b" for a b :: H256
  by (auto simp: less_eq_H256_def H256_partial_cmp_def H256_cmp_val order_le_less)

lemma less_H256_val: "a < b \<longleftrightarrow> h256_val a < h256_val b" for a b :: H256
  by (auto simp: less_H256_def H256_partial_cmp_def H256_cmp_val)

instance
  by standard (auto simp: less_eq_H256_val less_H256_val)

end

section \<open>Properties\<close>

text \<open>
  The order of hashes, which compares two 128-bit halves, is the order of the 256-bit
  numbers the bytes stand for; the proof-of-work test \<open>hash <= difficulty\<close> is therefore a
  numeric comparison.
\<close>

theorem hash_order_numeric:
  "H256_cmp a b = (if h256_val a < h256_val b then Less
                   else if h256_val a = h256_val b then Equal else Greater)"
  by (simp add: H256_cmp_val)

text \<open>
  The display of a hash has 64 characters and determines the hash; with a precision
  \<open>p\<close> below 64 it is the suffix of \<open>2 * (p div 2)\<close> characters of it.
\<close>

lemma H256_display_eq: "H256_display None h = concat (map hex_byte (h256_bytes h))"
  by (simp add: H256_display_def hex_range_drop)

theorem hash_display:
  "length (H256_display None h) = 64 \<and>
   (H256_display None h = H256_display None h' \<longleftrightarrow> h = h') \<and>
   H256_display (Some p) h = drop (if p < 64 then 64 - 2 * (p div 2) else 0) (H256_display None h)"
proof -
  have len: "length (H256_display None h) = 64"
    by (simp add: H256_display_eq length_concat_hex)
  have inj: "H256_display None h = H256_display None h' \<longleftrightarrow> h = h'"
    by (auto simp: H256_display_eq dest!: concat_hex_inj h256_eqI)
  have "H256_display (Some p) h = concat (map hex_byte (drop (32 - p div 2) (h256_bytes h)))" if "p < 64"
    using that by (simp add: H256_display_def hex_range_drop)
  also have "\<dots> = drop (2 * (32 - p div 2)) (H256_display None h)"
    by (simp add: H256_display_eq drop_concat_hex)
  finally have "p < 64 \<Longrightarrow> H256_display (Some p) h = drop (64 - 2 * (p div 2)) (H256_display None h)"
    by (simp add: right_diff_distrib')
  moreover have "\<not> p < 64 \<Longrightarrow> H256_display (Some p) h = H256_display None h"
    by (simp add: H256_display_def)
  ultimately show ?thesis using len inj by simp
qed

end
