(* ===== verification/Types.thy ===== *)
theory Types
  imports Hash
begin

text \<open>
  The data of the program: \<open>src/src/types/address.rs\<close>, the structs of
  \<open>src/src/types/transaction.rs\<close> and \<open>src/src/types/block.rs\<close>, the messages of
  \<open>src/src/network/message.rs\<close>, and the record \<open>Crates\<close> of everything the code calls
  in third-party crates (SHA-256 and Ed25519 of \<open>ring\<close>, the encoders of \<open>bincode\<close>),
  which every definition that uses it takes as its first argument. The object hashes and
  the digital signatures of the program are defined here from it.
\<close>

section \<open>Addresses\<close>

typedef Address = "{bs :: u8 list. length bs = 20}"
  morphisms address_bytes Address
  by (intro exI [of _ "replicate 20 0"]) simp

lemma length_address_bytes [simp]: "length (address_bytes a) = 20"
  using address_bytes [of a] by simp

lemma address_bytes_Address [simp]: "length bs = 20 \<Longrightarrow> address_bytes (Address bs) = bs"
  by (simp add: Address_inverse)

instantiation Address :: equal
begin

definition equal_Address :: "Address \<Rightarrow> Address \<Rightarrow> bool" where
  "equal_Address a b \<longleftrightarrow> address_bytes a = address_bytes b"

instance
  by standard (simp add: equal_Address_def address_bytes_inject)

end

definition address_fill :: "u8 \<Rightarrow> Address" where
  "address_fill b = Address (replicate 20 b)"

lemma address_bytes_fill [simp]: "address_bytes (address_fill b) = replicate 20 b"
  by (simp add: address_fill_def)

lemma address_fill_eq [simp]: "address_fill a = address_fill b \<longleftrightarrow> a = b"
  by (auto simp: replicate_eq_replicate dest: arg_cong [where f = address_bytes])

definition Address_from_ref :: "u8 list \<Rightarrow> Address res" where
  "Address_from_ref input =
     (let buffer = replicate 20 0
      in bind_res (copy_from_slice buffer input) (\<lambda>buffer. Ret (Address buffer)))"

definition Address_from_array :: "u8 list \<Rightarrow> Address" where
  "Address_from_array input = Address input"

definition Address_display :: "nat option \<Rightarrow> Address \<Rightarrow> string" where
  "Address_display precision a =
     (let start = (case precision of
                     Some p \<Rightarrow> (if 40 \<le> p then 0 else 20 - p div 2)
                   | None \<Rightarrow> 0)
      in hex_range (address_bytes a) start 20)"

definition Address_debug :: "Address \<Rightarrow> string" where
  "Address_debug a =
     hex_byte (address_bytes a ! 0) @ hex_byte (address_bytes a ! 1) @ ''..'' @
     hex_byte (address_bytes a ! 18) @ hex_byte (address_bytes a ! 19)"

text \<open>
  The address of a public key is the last 20 bytes of its hash; the digest has 32 bytes,
  so the slice of the code is always in range.
\<close>

definition slice_array :: "u8 list \<Rightarrow> u8 list" where
  "slice_array b = drop (length b - 20) b"

definition from_public_key_bytes :: "(u8 list \<Rightarrow> H256) \<Rightarrow> u8 list \<Rightarrow> Address" where
  "from_public_key_bytes sha bytes =
     (let c = sha bytes in Address (slice_array (h256_bytes c)))"

lemma address_bytes_from_public_key:
  "address_bytes (from_public_key_bytes sha pk) = drop 12 (h256_bytes (sha pk))"
  by (simp add: from_public_key_bytes_def slice_array_def)

section \<open>Transactions and the ledger state\<close>

record Input =
  prev_trans :: H256
  index :: u8

record Output =
  recipient_addr :: Address
  amount :: u32

record Transaction =
  input :: "Input list"
  "output" :: "Output list"

record SignedTransaction =
  transaction :: Transaction
  signature_vector :: "u8 list"
  public_key_vector :: "u8 list"

type_synonym outpoint = "H256 \<times> u8"

record State =
  states :: "outpoint \<rightharpoonup> u32 \<times> Address"

record Mempool =
  trans :: "H256 \<rightharpoonup> SignedTransaction"

section \<open>Blocks\<close>

record Header =
  parent :: H256
  nonce :: u32
  difficulty :: H256
  timestamp :: u128
  merkle_root :: H256

record Content =
  st :: "SignedTransaction list"

record Block =
  head :: Header
  cont :: Content

definition get_parent :: "Block \<Rightarrow> H256" where
  "get_parent b = parent (head b)"

definition get_difficulty :: "Block \<Rightarrow> H256" where
  "get_difficulty b = difficulty (head b)"

section \<open>Messages\<close>

datatype Message =
    Ping string
  | Pong string
  | NewBlockHashes "H256 list"
  | GetBlocks "H256 list"
  | Blocks "Block list"
  | NewTransactionHashes "H256 list"
  | GetTransactions "H256 list"
  | Transactions "SignedTransaction list"

section \<open>The third-party crates and the build\<close>

text \<open>
  A key pair of \<open>ring\<close> is built by the code from a seed and a public key.
  \<open>overflow_checks\<close> is the build profile: \<open>True\<close> is \<open>dev\<close>, \<open>False\<close> is \<open>release\<close>.
\<close>

record KeyPair =
  seed :: "u8 list"
  public_key :: "u8 list"

record Crates =
  sha256 :: "u8 list \<Rightarrow> H256"
  ed25519_sign :: "KeyPair \<Rightarrow> u8 list \<Rightarrow> u8 list"
  ed25519_verify :: "u8 list \<Rightarrow> u8 list \<Rightarrow> u8 list \<Rightarrow> bool"
  serialize_tx :: "Transaction \<Rightarrow> u8 list"
  serialize_stx :: "SignedTransaction \<Rightarrow> u8 list"
  serialize_header :: "Header \<Rightarrow> u8 list"
  serialize_msg :: "Message \<Rightarrow> u8 list"
  deserialize_msg :: "u8 list \<Rightarrow> Message option"
  overflow_checks :: bool

text \<open>\<open>impl Hashable\<close> for signed transactions, headers and blocks.\<close>

definition hash_stx :: "Crates \<Rightarrow> SignedTransaction \<Rightarrow> H256" where
  "hash_stx X stx = sha256 X (serialize_stx X stx)"

definition hash_header :: "Crates \<Rightarrow> Header \<Rightarrow> H256" where
  "hash_header X h = sha256 X (serialize_header X h)"

definition hash_block :: "Crates \<Rightarrow> Block \<Rightarrow> H256" where
  "hash_block X b = hash_header X (head b)"

lemma hash_block_cong: "head a = head b \<Longrightarrow> hash_block X a = hash_block X b"
  by (simp add: hash_block_def)

text \<open>Signing and verifying a transaction: \<open>sign\<close> and \<open>verify\<close>.\<close>

definition sign :: "Crates \<Rightarrow> Transaction \<Rightarrow> KeyPair \<Rightarrow> u8 list" where
  "sign X t key = (let t_byte = serialize_tx X t in ed25519_sign X key t_byte)"

definition verify_tx :: "Crates \<Rightarrow> Transaction \<Rightarrow> u8 list \<Rightarrow> u8 list \<Rightarrow> bool" where
  "verify_tx X t pk signature =
     (let t_byte = serialize_tx X t in ed25519_verify X pk t_byte signature)"

text \<open>\<open>u32\<close> additions of the program, in the build's overflow mode.\<close>

abbreviation add_u32 :: "Crates \<Rightarrow> u32 \<Rightarrow> u32 \<Rightarrow> u32 res" where
  "add_u32 X \<equiv> add_checked (overflow_checks X)"

section \<open>Concrete crates for examples\<close>

text \<open>
  A small instance of the parameters, used by the examples that show that the hypotheses
  of the theorems can hold: the digest pads or cuts its input to 32 bytes, a signature
  is accepted when it is the public key followed by the message, the encoders keep enough
  of their argument to tell the examples apart.
\<close>

definition pad32 :: "u8 list \<Rightarrow> H256" where
  "pad32 bs = H256 (take 32 (bs @ replicate 32 0))"

lemma h256_bytes_pad32 [simp]: "h256_bytes (pad32 bs) = take 32 (bs @ replicate 32 0)"
  by (simp add: pad32_def)

definition demo_sign :: "KeyPair \<Rightarrow> u8 list \<Rightarrow> u8 list" where
  "demo_sign key m = public_key key @ m"

definition demo_verify :: "u8 list \<Rightarrow> u8 list \<Rightarrow> u8 list \<Rightarrow> bool" where
  "demo_verify pk m s \<longleftrightarrow> s = pk @ m"

definition demo_ser_tx :: "Transaction \<Rightarrow> u8 list" where
  "demo_ser_tx t =
     [word_of_nat (length (input t)), word_of_nat (length (output t))] @
     map index (input t)"

definition demo_ser_stx :: "SignedTransaction \<Rightarrow> u8 list" where
  "demo_ser_stx s = 7 # demo_ser_tx (transaction s)"

definition demo_ser_header :: "Header \<Rightarrow> u8 list" where
  "demo_ser_header h = [0, ucast (nonce h) + 1, h256_bytes (parent h) ! 1]"

definition demo_crates :: "bool \<Rightarrow> Crates" where
  "demo_crates chk =
     \<lparr>sha256 = pad32, ed25519_sign = demo_sign, ed25519_verify = demo_verify,
      serialize_tx = demo_ser_tx, serialize_stx = demo_ser_stx,
      serialize_header = demo_ser_header,
      serialize_msg = (\<lambda>_. []), deserialize_msg = (\<lambda>bs. if bs = [] then Some (Ping []) else None),
      overflow_checks = chk\<rparr>"

lemma demo_crates_simps [simp]:
  "sha256 (demo_crates chk) = pad32"
  "ed25519_sign (demo_crates chk) = demo_sign"
  "ed25519_verify (demo_crates chk) = demo_verify"
  "serialize_tx (demo_crates chk) = demo_ser_tx"
  "serialize_stx (demo_crates chk) = demo_ser_stx"
  "serialize_header (demo_crates chk) = demo_ser_header"
  "overflow_checks (demo_crates chk) = chk"
  by (simp_all add: demo_crates_def)

end
