(* ===== verification/Transactions.thy ===== *)
theory Transactions
  imports Types
begin

text \<open>
  \<open>src/src/types/transaction.rs\<close>: how the generator builds a transaction
  (\<open>Input::pass_check\<close>, \<open>Output::pass_check\<close>, \<open>Transaction::pass_check\<close> and the
  \<open>random\<close> constructors), the initial ledger state and \<open>State::update\<close>, the empty
  mempool.
\<close>

section \<open>Building transactions\<close>

definition Input_random :: "u8 \<Rightarrow> u8 \<Rightarrow> Input" where
  "Input_random r i = \<lparr>prev_trans = h256_fill r, index = i\<rparr>"

definition Input_pass_check :: "H256 \<Rightarrow> u8 \<Rightarrow> Input" where
  "Input_pass_check hash ind = \<lparr>prev_trans = hash, index = ind\<rparr>"

definition Output_random :: "u8 \<Rightarrow> u32 \<Rightarrow> Output" where
  "Output_random r v = \<lparr>recipient_addr = address_fill r, amount = v\<rparr>"

text \<open>The balance is split into three parts, or paid as one when a part would be zero.\<close>

definition Output_pass_check :: "Crates \<Rightarrow> u32 \<Rightarrow> Address \<times> Address \<Rightarrow> Output list res" where
  "Output_pass_check X balance peer_addrs =
     (let v1 = balance div 3
      in bind_res (sub_checked (overflow_checks X) balance v1) (\<lambda>d.
         let v2 = d div 2
         in bind_res (sub_checked (overflow_checks X) balance v1) (\<lambda>e.
            bind_res (sub_checked (overflow_checks X) e v2) (\<lambda>v3.
            Ret (if v1 = 0 \<or> v2 = 0 \<or> v3 = 0
                 then [\<lparr>recipient_addr = fst peer_addrs, amount = balance\<rparr>]
                 else [\<lparr>recipient_addr = fst peer_addrs, amount = v1\<rparr>,
                       \<lparr>recipient_addr = snd peer_addrs, amount = v2\<rparr>,
                       \<lparr>recipient_addr = snd peer_addrs, amount = v3\<rparr>])))))"

definition Transaction_random :: "Input \<Rightarrow> Output \<Rightarrow> Transaction" where
  "Transaction_random i out = \<lparr>input = [i], output = [out]\<rparr>"

definition Transaction_pass_check ::
  "Crates \<Rightarrow> Input list \<Rightarrow> u32 \<Rightarrow> Address \<times> Address \<Rightarrow> Transaction res" where
  "Transaction_pass_check X inputs balance peer_addrs =
     bind_res (Output_pass_check X balance peer_addrs) (\<lambda>outs.
       Ret \<lparr>input = inputs, output = outs\<rparr>)"

section \<open>The ledger state\<close>

definition ico_amount :: u32 where
  "ico_amount = 100"

definition State_new :: "Crates \<Rightarrow> KeyPair \<Rightarrow> State" where
  "State_new X key =
     (let tx_hash = h256_fill 0
      in \<lparr>states = [(tx_hash, 0) \<mapsto> (ico_amount, from_public_key_bytes (sha256 X) (public_key key))]\<rparr>)"

definition outpoint_of :: "Input \<Rightarrow> outpoint" where
  "outpoint_of i = (prev_trans i, index i)"

definition entry_of :: "Output \<Rightarrow> u32 \<times> Address" where
  "entry_of out = (amount out, recipient_addr out)"

text \<open>
  \<open>State::update\<close>: the inputs leave the state, the outputs enter it under the
  transaction's hash and their position cast to \<open>u8\<close>.
\<close>

definition State_update :: "Crates \<Rightarrow> State \<Rightarrow> SignedTransaction \<Rightarrow> State" where
  "State_update X self stx =
     (let ins = input (transaction stx);
          outs = output (transaction stx);
          tx_hash = sha256 X (serialize_stx X stx);
          removed = fold (\<lambda>i m. let to_find = outpoint_of i
                                in if m to_find \<noteq> None then m(to_find := None) else m)
                      ins (states self)
      in \<lparr>states = fold (\<lambda>k m. m((tx_hash, word_of_nat k) \<mapsto> entry_of (outs ! k)))
                     [0..<length outs] removed\<rparr>)"

definition Mempool_new :: Mempool where
  "Mempool_new = \<lparr>trans = Map.empty\<rparr>"

section \<open>Updating a finite map by inputs and outputs\<close>

text \<open>The two updates in the form the proofs use, on the bare map.\<close>

definition spend :: "Input list \<Rightarrow> (outpoint \<rightharpoonup> 'v) \<Rightarrow> (outpoint \<rightharpoonup> 'v)" where
  "spend ins m = (\<lambda>k. if k \<in> outpoint_of ` set ins then None else m k)"

primrec create :: "H256 \<Rightarrow> nat \<Rightarrow> Output list \<Rightarrow>
    (outpoint \<rightharpoonup> u32 \<times> Address) \<Rightarrow> (outpoint \<rightharpoonup> u32 \<times> Address)" where
  "create h k [] m = m"
| "create h k (out # outs) m = create h (Suc k) outs (m((h, word_of_nat k) \<mapsto> entry_of out))"

lemma spend_Nil [simp]: "spend [] m = m"
  by (simp add: spend_def)

lemma spend_Cons: "spend (i # ins) m = spend ins (m(outpoint_of i := None))"
  by (auto simp: spend_def)

lemma fold_spend: "fold (\<lambda>i m. m(outpoint_of i := None)) ins m = spend ins m"
  by (induction ins arbitrary: m) (simp_all add: spend_Cons)

lemma fold_spend_checked:
  "fold (\<lambda>i m. let k = outpoint_of i in if m k \<noteq> None then m(k := None) else m) ins m = spend ins m"
proof -
  have "(\<lambda>i m. let k = outpoint_of i in if m k \<noteq> None then m(k := None) else m) =
        (\<lambda>i m. (m :: outpoint \<rightharpoonup> 'a)(outpoint_of i := None))"
    by (intro ext) (auto simp: Let_def)
  then show ?thesis by (simp only: fold_spend)
qed

lemma fold_create_enumerate:
  "fold (\<lambda>(ix, out) m. m((h, word_of_nat ix) \<mapsto> entry_of out)) (List.enumerate k outs) m =
     create h k outs m"
  by (induction outs arbitrary: k m) simp_all

lemma fold_create_upt:
  "fold (\<lambda>k m. m((h, word_of_nat k) \<mapsto> entry_of (outs ! k))) [0..<length outs] m = create h 0 outs m"
proof -
  have ixs: "[0..<length outs] = map fst (List.enumerate 0 outs)" by simp
  have "fold (\<lambda>k m. m((h, word_of_nat k) \<mapsto> entry_of (outs ! k))) [0..<length outs] m =
      fold (\<lambda>(ix, out) m. m((h, word_of_nat ix) \<mapsto> entry_of out)) (List.enumerate 0 outs) m"
    unfolding ixs fold_map by (rule fold_cong) (auto simp: in_set_enumerate_eq)
  then show ?thesis by (simp only: fold_create_enumerate)
qed

lemma State_update_eq:
  "State_update X s stx =
     \<lparr>states = create (hash_stx X stx) 0 (output (transaction stx))
                 (spend (input (transaction stx)) (states s))\<rparr>"
  unfolding State_update_def Let_def
  by (simp only: fold_spend_checked [unfolded Let_def] fold_create_upt hash_stx_def)

lemma create_other: "fst k \<noteq> h \<Longrightarrow> create h n outs m k = m k"
  by (induction outs arbitrary: n m) auto

lemma create_snoc:
  "create h n (xs @ [out]) m = (create h n xs m)((h, word_of_nat (n + length xs)) \<mapsto> entry_of out)"
  by (induction xs arbitrary: n m) (simp_all add: ac_simps)

lemma create_nth:
  "length outs \<le> 256 \<Longrightarrow> k < length outs \<Longrightarrow> create h 0 outs m (h, word_of_nat k) = Some (entry_of (outs ! k))"
proof (induction outs rule: rev_induct)
  case (snoc out outs)
  show ?case
  proof (cases "k = length outs")
    case False
    with snoc.prems have k: "k < length outs" by simp
    moreover have "(word_of_nat k :: u8) \<noteq> word_of_nat (length outs)"
      using k snoc.prems by (simp add: word_of_nat_eq_iff take_bit_eq_mod)
    ultimately show ?thesis using snoc by (simp add: create_snoc nth_append)
  qed (simp add: create_snoc)
qed simp

lemma State_update_outputs:
  assumes "length (output (transaction stx)) \<le> 256" and "k < length (output (transaction stx))"
  shows "states (State_update X s stx) (hash_stx X stx, word_of_nat k) = Some (entry_of (output (transaction stx) ! k))"
  using create_nth [OF assms] by (simp add: State_update_eq)

lemma dom_create_finite: "finite (dom m) \<Longrightarrow> finite (dom (create h n outs m))"
  by (induction outs arbitrary: n m) auto

lemma dom_spend: "dom (spend ins m) = dom m - outpoint_of ` set ins"
  by (auto simp: spend_def split: if_splits)

section \<open>Values\<close>

text \<open>The total value of a set of unspent outputs, of inputs, and of outputs.\<close>

definition utxo_total :: "State \<Rightarrow> nat" where
  "utxo_total s = map_sum (\<lambda>e. unat (fst e)) (states s)"

definition input_value :: "State \<Rightarrow> Input \<Rightarrow> nat" where
  "input_value s i = (case states s (outpoint_of i) of None \<Rightarrow> 0 | Some e \<Rightarrow> unat (fst e))"

definition inputs_value :: "State \<Rightarrow> Input list \<Rightarrow> nat" where
  "inputs_value s ins = (\<Sum>i\<leftarrow>ins. input_value s i)"

definition outputs_value :: "Output list \<Rightarrow> nat" where
  "outputs_value outs = (\<Sum>out\<leftarrow>outs. unat (amount out))"

lemma inputs_value_simps [simp]:
  "inputs_value s [] = 0"
  "inputs_value s (i # ins) = input_value s i + inputs_value s ins"
  by (simp_all add: inputs_value_def)

lemma outputs_value_simps [simp]:
  "outputs_value [] = 0"
  "outputs_value (out # outs) = unat (amount out) + outputs_value outs"
  by (simp_all add: outputs_value_def)

lemma map_sum_spend:
  assumes "finite (dom (states s))" and "distinct (map outpoint_of ins)"
    and "\<forall>i\<in>set ins. states s (outpoint_of i) \<noteq> None"
  shows "map_sum (\<lambda>e. unat (fst e)) (spend ins (states s)) + inputs_value s ins = utxo_total s"
  using assms
proof (induction ins arbitrary: s)
  case Nil
  then show ?case by (simp add: utxo_total_def)
next
  case (Cons i ins)
  then obtain e where e: "states s (outpoint_of i) = Some e" by auto
  let ?s = "s\<lparr>states := (states s)(outpoint_of i := None)\<rparr>"
  have ne: "\<forall>j\<in>set ins. outpoint_of j \<noteq> outpoint_of i"
    using Cons.prems(2) by (auto simp: image_iff)
  have same: "input_value ?s j = input_value s j" if "j \<in> set ins" for j
    using that ne by (simp add: input_value_def)
  have "finite (dom (states ?s))" "distinct (map outpoint_of ins)"
    "\<forall>j\<in>set ins. states ?s (outpoint_of j) \<noteq> None"
    using Cons.prems ne by (simp_all del: fun_upd_apply) (simp add: fun_upd_apply)
  then have "map_sum (\<lambda>e. unat (fst e)) (spend ins (states ?s)) + inputs_value ?s ins = utxo_total ?s"
    by (rule Cons.IH)
  moreover have "inputs_value ?s ins = inputs_value s ins"
    unfolding inputs_value_def using same by (simp cong: map_cong)
  moreover have "utxo_total ?s + unat (fst e) = utxo_total s"
    unfolding utxo_total_def using map_sum_remove [OF Cons.prems(1) e, of "\<lambda>e. unat (fst e)"] by simp
  ultimately show ?case using e by (simp add: spend_Cons input_value_def)
qed

lemma word_of_nat_u8_eq:
  "i < 256 \<Longrightarrow> j < 256 \<Longrightarrow> (word_of_nat i :: u8) = word_of_nat j \<longleftrightarrow> i = j"
  by (simp add: word_unat_eq_iff unat_of_nat take_bit_eq_mod)

lemma map_sum_create:
  assumes "finite (dom m)" and "n + length outs \<le> 256"
    and "\<And>k. n \<le> k \<Longrightarrow> k < n + length outs \<Longrightarrow> m (h, word_of_nat k) = None"
  shows "map_sum (\<lambda>e. unat (fst e)) (create h n outs m) =
    map_sum (\<lambda>e. unat (fst e)) m + outputs_value outs"
  using assms
proof (induction outs arbitrary: n m)
  case (Cons out outs)
  let ?m = "m((h, word_of_nat n) \<mapsto> entry_of out)"
  have "finite (dom ?m)" "Suc n + length outs \<le> 256" using Cons.prems(1,2) by simp_all
  moreover have "?m (h, word_of_nat k) = None" if "Suc n \<le> k" "k < Suc n + length outs" for k
    using that Cons.prems(2) Cons.prems(3) [of k] by (simp add: word_of_nat_u8_eq)
  ultimately have "map_sum (\<lambda>e. unat (fst e)) (create h (Suc n) outs ?m) =
      map_sum (\<lambda>e. unat (fst e)) ?m + outputs_value outs"
    by (rule Cons.IH)
  moreover have "map_sum (\<lambda>e. unat (fst e)) ?m = map_sum (\<lambda>e. unat (fst e)) m + unat (amount out)"
    using Cons.prems by (subst map_sum_insert) (auto simp: entry_of_def)
  ultimately show ?case by simp
qed simp

text \<open>A transaction conserves value up to what it leaves unassigned.\<close>

lemma utxo_total_update:
  assumes "finite (dom (states s))" and "distinct (map outpoint_of (input (transaction stx)))"
    and "\<forall>i\<in>set (input (transaction stx)). states s (outpoint_of i) \<noteq> None"
    and "length (output (transaction stx)) \<le> 256"
    and "\<And>k. states s (hash_stx X stx, k) = None"
  shows "utxo_total (State_update X s stx) + inputs_value s (input (transaction stx)) =
    utxo_total s + outputs_value (output (transaction stx))"
proof -
  let ?m = "spend (input (transaction stx)) (states s)"
  have "map_sum (\<lambda>e. unat (fst e)) (create (hash_stx X stx) 0 (output (transaction stx)) ?m) =
      map_sum (\<lambda>e. unat (fst e)) ?m + outputs_value (output (transaction stx))"
    using assms(1,4,5) by (intro map_sum_create) (simp_all add: dom_spend, simp add: spend_def)
  with map_sum_spend [OF assms(1,2,3)] show ?thesis
    by (simp add: State_update_eq utxo_total_def)
qed

lemma finite_State_update:
  "finite (dom (states s)) \<Longrightarrow> finite (dom (states (State_update X s stx)))"
  by (simp add: State_update_eq dom_create_finite dom_spend)

section \<open>Building a payment\<close>

lemma Output_pass_check_Ret:
  "\<exists>outs. Output_pass_check X balance p = Ret outs \<and> outputs_value outs = unat balance \<and>
     (balance = 0 \<or> list_all (\<lambda>out. 0 < amount out) outs) \<and> length outs \<le> 3 \<and>
     list_all (\<lambda>out. recipient_addr out = fst p \<or> recipient_addr out = snd p) outs"
proof -
  let ?v1 = "balance div 3" and ?v2 = "(balance - balance div 3) div 2"
  let ?v3 = "balance - ?v1 - ?v2"
  have u1: "unat ?v1 = unat balance div 3" by (simp add: unat_div)
  have le1: "?v1 \<le> balance" by (simp add: word_le_nat_alt u1)
  have d: "unat (balance - ?v1) = unat balance - unat balance div 3"
    using le1 u1 by (simp add: unat_sub)
  have u2: "unat ?v2 = (unat balance - unat balance div 3) div 2" by (simp add: unat_div d)
  have le2: "?v2 \<le> balance - ?v1" unfolding word_le_nat_alt u2 d by simp
  have u3: "unat ?v3 = unat balance - unat balance div 3 - (unat balance - unat balance div 3) div 2"
    using le2 d u2 by (simp add: unat_sub)
  have sum: "unat ?v1 + (unat ?v2 + unat ?v3) = unat balance"
    unfolding u1 u2 u3 by simp
  have "Output_pass_check X balance p =
      Ret (if ?v1 = 0 \<or> ?v2 = 0 \<or> ?v3 = 0 then [\<lparr>recipient_addr = fst p, amount = balance\<rparr>]
           else [\<lparr>recipient_addr = fst p, amount = ?v1\<rparr>, \<lparr>recipient_addr = snd p, amount = ?v2\<rparr>,
                 \<lparr>recipient_addr = snd p, amount = ?v3\<rparr>])"
    using le1 le2 by (simp add: Output_pass_check_def Let_def)
  with sum obtain v1 v2 v3 where v: "Output_pass_check X balance p =
      Ret (if v1 = 0 \<or> v2 = 0 \<or> v3 = 0 then [\<lparr>recipient_addr = fst p, amount = balance\<rparr>]
           else [\<lparr>recipient_addr = fst p, amount = v1\<rparr>, \<lparr>recipient_addr = snd p, amount = v2\<rparr>,
                 \<lparr>recipient_addr = snd p, amount = v3\<rparr>])"
    and "unat v1 + (unat v2 + unat v3) = unat balance" by blast
  moreover have "0 < w \<longleftrightarrow> w \<noteq> 0" for w :: u32 by (simp add: word_neq_0_conv)
  ultimately show ?thesis by (cases "v1 = 0 \<or> v2 = 0 \<or> v3 = 0") simp_all
qed

section \<open>Properties\<close>

text \<open>
  The generator pays out its whole balance. \<open>Output::pass_check\<close> never panics; the
  amounts add up to the balance, each is positive when the balance is, and all recipients
  are the two peers.
\<close>

theorem payment_conserves_balance:
  "\<exists>outs. Output_pass_check X balance p = Ret outs \<and> outputs_value outs = unat balance \<and>
     (balance = 0 \<or> list_all (\<lambda>out. 0 < amount out) outs) \<and>
     list_all (\<lambda>out. recipient_addr out = fst p \<or> recipient_addr out = snd p) outs"
  using Output_pass_check_Ret by blast

end
