(* ===== verification/Ledger.thy ===== *)
theory Ledger
  imports Transactions
begin

text \<open>
  The validation of a block's transactions against the ledger state of its parent:
  \<open>check_tx_state\<close> of \<open>src/src/network/worker.rs\<close>. The copy of it in
  \<open>src/src/miner/worker.rs\<close> is in theory \<open>MinerWorker\<close>. \<open>valid_tx\<close> is the declarative
  rule the loops implement.
\<close>

section \<open>The program\<close>

type_synonym block_states = "H256 \<rightharpoonup> State"

text \<open>
  The loop over the inputs: an input that is not in the state, or whose recipient is not
  the address of the signer, makes the function return \<open>false\<close> (here \<open>None\<close>).
\<close>

fun sum_inputs ::
  "Crates \<Rightarrow> State \<Rightarrow> u8 list \<Rightarrow> Input list \<Rightarrow> u32 \<Rightarrow> u32 option res" where
  "sum_inputs X state owner_public_key [] sum_input = Ret (Some sum_input)"
| "sum_inputs X state owner_public_key (i # ins) sum_input =
     (case states state (prev_trans i, index i) of
        Some (v, recipient) \<Rightarrow>
          (if recipient \<noteq> from_public_key_bytes (sha256 X) owner_public_key then Ret None
           else bind_res (add_u32 X sum_input v) (\<lambda>sum_input.
                sum_inputs X state owner_public_key ins sum_input))
      | None \<Rightarrow> Ret None)"

fun sum_outputs :: "Crates \<Rightarrow> Output list \<Rightarrow> u32 \<Rightarrow> u32 res" where
  "sum_outputs X [] acc = Ret acc"
| "sum_outputs X (out # outs) acc =
     bind_res (add_u32 X acc (amount out)) (\<lambda>acc. sum_outputs X outs acc)"

text \<open>One turn of the loop over the signed transactions.\<close>

definition check_tx :: "Crates \<Rightarrow> State \<Rightarrow> SignedTransaction \<Rightarrow> State option res" where
  "check_tx X state stx =
     (let tx = transaction stx;
          owner_public_key = public_key_vector stx
      in if \<not> verify_tx X tx owner_public_key (signature_vector stx) then Ret None
         else bind_res (sum_inputs X state owner_public_key (input tx) 0) (\<lambda>r.
           case r of
             None \<Rightarrow> Ret None
           | Some sum_input \<Rightarrow>
               bind_res (sum_outputs X (output tx) 0) (\<lambda>sum_output.
                 if sum_input < sum_output then Ret None
                 else let removed = fold (\<lambda>i m. m((prev_trans i, index i) := None))
                                      (input tx) (states state);
                          inserted = fold (\<lambda>(ix, out) m.
                                         m((hash_stx X stx, word_of_nat ix) \<mapsto>
                                             (amount out, recipient_addr out)))
                                       (List.enumerate 0 (output tx)) removed
                      in Ret (Some \<lparr>states = inserted\<rparr>))))"

fun check_txs :: "Crates \<Rightarrow> State \<Rightarrow> SignedTransaction list \<Rightarrow> State option res" where
  "check_txs X state [] = Ret (Some state)"
| "check_txs X state (stx # signed_txs) =
     bind_res (check_tx X state stx) (\<lambda>r.
       case r of None \<Rightarrow> Ret None | Some state \<Rightarrow> check_txs X state signed_txs)"

definition check_tx_state ::
  "Crates \<Rightarrow> block_states \<Rightarrow> H256 \<Rightarrow> SignedTransaction list \<Rightarrow> H256 \<Rightarrow> (bool \<times> block_states) res"
  where
  "check_tx_state X block_state parent_hash signed_txs block_hash =
     bind_res (unwrap (block_state parent_hash)) (\<lambda>state.
     bind_res (check_txs X state signed_txs) (\<lambda>r.
       case r of
         None \<Rightarrow> Ret (False, block_state)
       | Some state \<Rightarrow> Ret (True, block_state(block_hash \<mapsto> state))))"

section \<open>The rule\<close>

definition signer :: "Crates \<Rightarrow> SignedTransaction \<Rightarrow> Address" where
  "signer X stx = from_public_key_bytes (sha256 X) (public_key_vector stx)"

definition signature_ok :: "Crates \<Rightarrow> SignedTransaction \<Rightarrow> bool" where
  "signature_ok X stx \<longleftrightarrow>
     verify_tx X (transaction stx) (public_key_vector stx) (signature_vector stx)"

definition owns :: "State \<Rightarrow> Address \<Rightarrow> Input \<Rightarrow> bool" where
  "owns s a i \<longleftrightarrow> (\<exists>v. states s (outpoint_of i) = Some (v, a))"

definition valid_tx :: "Crates \<Rightarrow> State \<Rightarrow> SignedTransaction \<Rightarrow> bool" where
  "valid_tx X s stx \<longleftrightarrow>
     signature_ok X stx \<and> (\<forall>i\<in>set (input (transaction stx)). owns s (signer X stx) i) \<and>
     outputs_value (output (transaction stx)) \<le> inputs_value s (input (transaction stx))"

text \<open>No sum of the transaction leaves the range of \<open>u32\<close>.\<close>

definition sums_fit :: "State \<Rightarrow> SignedTransaction \<Rightarrow> bool" where
  "sums_fit s stx \<longleftrightarrow> inputs_value s (input (transaction stx)) < 2 ^ 32 \<and>
     outputs_value (output (transaction stx)) < 2 ^ 32"

section \<open>The loops\<close>

lemma input_value_owns:
  "states s (outpoint_of i) = Some (v, a) \<Longrightarrow> input_value s i = unat v"
  by (simp add: input_value_def)

lemma sum_inputs_fit:
  "unat acc + inputs_value s ins < 2 ^ 32 \<Longrightarrow>
     \<exists>r. sum_inputs X s pk ins acc =
           Ret (if \<forall>i\<in>set ins. owns s (from_public_key_bytes (sha256 X) pk) i then Some r else None)
         \<and> unat r = unat acc + inputs_value s ins"
proof (induction ins arbitrary: acc)
  case Nil
  then show ?case by auto
next
  case (Cons i ins)
  let ?a = "from_public_key_bytes (sha256 X) pk"
  show ?case
  proof (cases "\<exists>v. states s (outpoint_of i) = Some (v, ?a)")
    case False
    have "\<exists>r :: u32. unat r = unat acc + inputs_value s (i # ins)"
      using Cons.prems by (rule u32_exists)
    moreover have "sum_inputs X s pk (i # ins) acc = Ret None"
      using False by (auto simp: outpoint_of_def split: option.splits)
    ultimately show ?thesis using False by (auto simp: owns_def)
  next
    case True
    then obtain v where v: "states s (outpoint_of i) = Some (v, ?a)" by auto
    then have iv: "input_value s i = unat v" by (rule input_value_owns)
    have acc: "unat (acc + v) = unat acc + unat v"
      using Cons.prems iv by (simp add: unat_word_ariths)
    have "sum_inputs X s pk (i # ins) acc = sum_inputs X s pk ins (acc + v)"
      using v Cons.prems iv by (simp add: outpoint_of_def add_checked_no_overflow)
    moreover have "owns s ?a i" using v by (auto simp: owns_def)
    moreover have "unat (acc + v) + inputs_value s ins < 2 ^ 32" using Cons.prems acc iv by simp
    from Cons.IH [OF this] obtain r where
      "sum_inputs X s pk ins (acc + v) = Ret (if \<forall>i\<in>set ins. owns s ?a i then Some r else None)"
      "unat r = unat (acc + v) + inputs_value s ins" by blast
    ultimately show ?thesis using acc iv by (intro exI [of _ r]) auto
  qed
qed

lemma sum_outputs_fit:
  "unat acc + outputs_value outs < 2 ^ 32 \<Longrightarrow>
     \<exists>r. sum_outputs X outs acc = Ret r \<and> unat r = unat acc + outputs_value outs"
proof (induction outs arbitrary: acc)
  case (Cons out outs)
  have "unat (acc + amount out) = unat acc + unat (amount out)"
    using Cons.prems by (simp add: unat_word_ariths)
  with Cons.IH [of "acc + amount out"] Cons.prems show ?case
    by (auto simp: add_checked_no_overflow)
qed auto

lemma sum_inputs_owned:
  "sum_inputs X s pk ins acc = Ret (Some r) \<Longrightarrow>
     \<forall>i\<in>set ins. owns s (from_public_key_bytes (sha256 X) pk) i"
proof (induction ins arbitrary: acc)
  case (Cons i ins)
  then show ?case
    by (auto simp: owns_def outpoint_of_def res_simps split: option.splits if_splits)
qed simp

lemma sum_inputs_checked:
  "overflow_checks X \<Longrightarrow> sum_inputs X s pk ins acc = Ret (Some r) \<Longrightarrow>
     unat r = unat acc + inputs_value s ins"
proof (induction ins arbitrary: acc)
  case (Cons i ins)
  then show ?case
    by (auto simp: input_value_def outpoint_of_def res_simps add_checked_True_unat
        split: option.splits if_splits)
qed simp

lemma sum_outputs_checked:
  "overflow_checks X \<Longrightarrow> sum_outputs X outs acc = Ret r \<Longrightarrow>
     unat r = unat acc + outputs_value outs"
proof (induction outs arbitrary: acc)
  case (Cons out outs)
  then show ?case by (auto simp: res_simps add_checked_True_unat)
qed simp

lemma only_overflow_sum_inputs [simp]: "only_overflow (overflow_checks X) (sum_inputs X s pk ins acc)"
  by (induction ins arbitrary: acc)
    (auto intro!: only_overflow_intros split: option.splits)

lemma only_overflow_sum_outputs [simp]: "only_overflow (overflow_checks X) (sum_outputs X outs acc)"
  by (induction outs arbitrary: acc) (auto intro!: only_overflow_intros)

section \<open>One transaction\<close>

text \<open>An accepted transaction changes the state as \<open>State::update\<close> does.\<close>

lemma check_tx_updates:
  "fold (\<lambda>(ix, out) m. m((hash_stx X stx, word_of_nat ix) \<mapsto> (amount out, recipient_addr out)))
     (List.enumerate 0 (output (transaction stx)))
     (fold (\<lambda>i m. m((prev_trans i, index i) := None)) (input (transaction stx)) (states s)) =
   states (State_update X s stx)"
  using fold_create_enumerate [of "hash_stx X stx" 0 "output (transaction stx)"]
    fold_spend [of "input (transaction stx)" "states s"]
  by (simp add: State_update_eq entry_of_def outpoint_of_def)

lemma State_eta [simp]: "\<lparr>states = states s\<rparr> = s"
  by (cases s) simp

lemma check_tx_cases:
  "check_tx X s stx =
     (if \<not> signature_ok X stx then Ret None
      else bind_res (sum_inputs X s (public_key_vector stx) (input (transaction stx)) 0) (\<lambda>r.
        case r of None \<Rightarrow> Ret None
        | Some si \<Rightarrow> bind_res (sum_outputs X (output (transaction stx)) 0) (\<lambda>so.
            if si < so then Ret None else Ret (Some (State_update X s stx)))))"
  unfolding check_tx_def Let_def check_tx_updates signature_ok_def
  by (simp cong: if_cong option.case_cong)

lemma check_tx_accepted:
  assumes "check_tx X s stx = Ret (Some s')"
  shows "signature_ok X stx" and "\<forall>i\<in>set (input (transaction stx)). owns s (signer X stx) i"
    and "s' = State_update X s stx"
    and "overflow_checks X \<Longrightarrow>
      outputs_value (output (transaction stx)) \<le> inputs_value s (input (transaction stx))"
proof -
  from assms obtain si so where
    sig: "signature_ok X stx" and
    si: "sum_inputs X s (public_key_vector stx) (input (transaction stx)) 0 = Ret (Some si)" and
    so: "sum_outputs X (output (transaction stx)) 0 = Ret so" and
    le: "\<not> si < so" and s': "s' = State_update X s stx"
    by (auto simp: check_tx_cases res_simps split: if_splits option.splits)
  show "signature_ok X stx" "s' = State_update X s stx" by (fact sig, fact s')
  show "\<forall>i\<in>set (input (transaction stx)). owns s (signer X stx) i"
    using sum_inputs_owned [OF si] by (simp add: signer_def)
  show "outputs_value (output (transaction stx)) \<le> inputs_value s (input (transaction stx))"
    if "overflow_checks X"
    using sum_inputs_checked [OF that si] sum_outputs_checked [OF that so] le
    by (simp add: word_less_nat_alt)
qed

lemma check_tx_fit:
  assumes "sums_fit s stx"
  shows "check_tx X s stx = Ret (if valid_tx X s stx then Some (State_update X s stx) else None)"
proof -
  obtain si where si: "sum_inputs X s (public_key_vector stx) (input (transaction stx)) 0 =
      Ret (if \<forall>i\<in>set (input (transaction stx)). owns s (signer X stx) i then Some si else None)"
    "unat si = inputs_value s (input (transaction stx))"
    using sum_inputs_fit [of 0 s "input (transaction stx)" X "public_key_vector stx"] assms
    by (auto simp: sums_fit_def signer_def)
  obtain so where so: "sum_outputs X (output (transaction stx)) 0 = Ret so"
    "unat so = outputs_value (output (transaction stx))"
    using sum_outputs_fit [of 0 "output (transaction stx)" X] assms by (auto simp: sums_fit_def)
  have "si < so \<longleftrightarrow> inputs_value s (input (transaction stx)) < outputs_value (output (transaction stx))"
    by (simp add: word_less_nat_alt si(2) so(2))
  then show ?thesis
    by (simp add: check_tx_cases valid_tx_def si(1) so(1) not_less)
qed

lemma only_overflow_check_tx [simp]: "only_overflow (overflow_checks X) (check_tx X s stx)"
  by (auto simp: check_tx_cases intro!: only_overflow_intros split: option.splits)

lemma only_overflow_check_txs [simp]: "only_overflow (overflow_checks X) (check_txs X s txs)"
  by (induction txs arbitrary: s) (auto intro!: only_overflow_intros split: option.splits)

section \<open>A whole block\<close>

fun valid_block :: "Crates \<Rightarrow> State \<Rightarrow> SignedTransaction list \<Rightarrow> bool" where
  "valid_block X s [] \<longleftrightarrow> True"
| "valid_block X s (stx # txs) \<longleftrightarrow> valid_tx X s stx \<and> valid_block X (State_update X s stx) txs"

text \<open>No sum overflows as far as the validation of the block gets.\<close>

fun block_fits :: "Crates \<Rightarrow> State \<Rightarrow> SignedTransaction list \<Rightarrow> bool" where
  "block_fits X s [] \<longleftrightarrow> True"
| "block_fits X s (stx # txs) \<longleftrightarrow>
     sums_fit s stx \<and> (valid_tx X s stx \<longrightarrow> block_fits X (State_update X s stx) txs)"

definition apply_block :: "Crates \<Rightarrow> State \<Rightarrow> SignedTransaction list \<Rightarrow> State" where
  "apply_block X s txs = foldl (State_update X) s txs"

lemma apply_block_simps [simp]:
  "apply_block X s [] = s"
  "apply_block X s (stx # txs) = apply_block X (State_update X s stx) txs"
  by (simp_all add: apply_block_def)

lemma check_txs_fit:
  "block_fits X s txs \<Longrightarrow>
     check_txs X s txs = Ret (if valid_block X s txs then Some (apply_block X s txs) else None)"
  by (induction txs arbitrary: s) (auto simp: check_tx_fit)

lemma check_txs_snoc:
  "check_txs X s txs = Ret (Some s') \<Longrightarrow> check_txs X s (txs @ [stx]) = check_tx X s' stx"
proof (induction txs arbitrary: s)
  case Nil
  then show ?case
    by (cases "check_tx X s' stx") (auto split: option.splits)
next
  case (Cons t txs)
  then show ?case by (auto simp: res_simps split: option.splits)
qed

lemma check_txs_accepted: "check_txs X s txs = Ret (Some s') \<Longrightarrow> s' = apply_block X s txs"
  by (induction txs arbitrary: s)
    (auto simp: res_simps split: option.splits dest: check_tx_accepted(3))

text \<open>An entry of the state disappears only by a signed spending of its owner.\<close>

lemma State_update_keeps:
  assumes "hash_stx X stx \<noteq> fst k" and "k \<notin> outpoint_of ` set (input (transaction stx))"
  shows "states (State_update X s stx) k = states s k"
  using assms by (simp add: State_update_eq create_other spend_def)

lemma check_txs_entry:
  "check_txs X s txs = Ret (Some s') \<Longrightarrow> states s k = Some (v, a) \<Longrightarrow>
     \<forall>stx\<in>set txs. hash_stx X stx \<noteq> fst k \<Longrightarrow>
     states s' k = Some (v, a) \<or>
     (\<exists>stx\<in>set txs. signature_ok X stx \<and> signer X stx = a \<and>
        k \<in> outpoint_of ` set (input (transaction stx)))"
proof (induction txs arbitrary: s)
  case (Cons stx txs)
  from Cons.prems(1) obtain s1 where
    s1: "check_tx X s stx = Ret (Some s1)" "check_txs X s1 txs = Ret (Some s')"
    by (auto simp: res_simps split: option.splits)
  note acc = check_tx_accepted [OF s1(1)]
  show ?case
  proof (cases "k \<in> outpoint_of ` set (input (transaction stx))")
    case True
    then obtain i where i: "i \<in> set (input (transaction stx))" "k = outpoint_of i" by auto
    with acc(2) Cons.prems(2) have "signer X stx = a" by (auto simp: owns_def)
    with True acc(1) show ?thesis by auto
  next
    case False
    with acc(3) Cons.prems(2,3) have "states s1 k = Some (v, a)"
      by (simp add: State_update_keeps)
    with Cons.IH [OF s1(2)] Cons.prems(3) show ?thesis by auto
  qed
qed simp

text \<open>Blocks whose transactions have new hashes, distinct inputs and at most 256 outputs.\<close>

definition proper_block :: "Crates \<Rightarrow> State \<Rightarrow> SignedTransaction list \<Rightarrow> bool" where
  "proper_block X s txs \<longleftrightarrow>
     distinct (map (hash_stx X) txs) \<and>
     (\<forall>stx\<in>set txs. (\<forall>k. states s (hash_stx X stx, k) = None) \<and>
        distinct (map outpoint_of (input (transaction stx))) \<and>
        length (output (transaction stx)) \<le> 256)"

text \<open>
  Value is conserved when the build checks overflows, and otherwise as long as neither the
  inputs nor the outputs of a transaction can overflow.
\<close>

lemma check_txs_conserves:
  "overflow_checks X \<or>
     utxo_total s < 2 ^ 32 \<and> (\<forall>stx\<in>set txs. outputs_value (output (transaction stx)) < 2 ^ 32) \<Longrightarrow>
     check_txs X s txs = Ret (Some s') \<Longrightarrow> finite (dom (states s)) \<Longrightarrow>
     proper_block X s txs \<Longrightarrow> utxo_total s' \<le> utxo_total s"
proof (induction txs arbitrary: s)
  case (Cons stx txs)
  from Cons.prems(2) obtain s1 where
    s1: "check_tx X s stx = Ret (Some s1)" "check_txs X s1 txs = Ret (Some s')"
    by (auto simp: res_simps split: option.splits)
  note acc = check_tx_accepted [OF s1(1)]
  let ?ins = "input (transaction stx)" and ?outs = "output (transaction stx)"
  have owned: "\<forall>i\<in>set ?ins. states s (outpoint_of i) \<noteq> None" using acc(2) by (auto simp: owns_def)
  have "inputs_value s ?ins \<le> utxo_total s"
    using map_sum_spend [OF Cons.prems(3), of ?ins] owned Cons.prems(4) by (simp add: proper_block_def)
  then have "outputs_value ?outs \<le> inputs_value s ?ins"
    using acc(4) check_tx_fit [of s stx X] s1(1) Cons.prems(1)
    by (auto simp: sums_fit_def valid_tx_def split: if_splits)
  moreover have "utxo_total s1 + inputs_value s ?ins = utxo_total s + outputs_value ?outs"
    unfolding acc(3) using Cons.prems(3,4) owned by (intro utxo_total_update) (auto simp: proper_block_def)
  ultimately have le: "utxo_total s1 \<le> utxo_total s" by simp
  have "utxo_total s' \<le> utxo_total s1"
  proof (rule Cons.IH [OF _ s1(2)])
    show "finite (dom (states s1))" unfolding acc(3) using Cons.prems(3) by (rule finite_State_update)
    show "proper_block X s1 txs"
      using Cons.prems(4)
      by (auto simp: acc(3) proper_block_def State_update_eq create_other spend_def image_iff)
  qed (use le Cons.prems(1) in auto)
  with le show ?case by simp
qed simp

section \<open>Example data\<close>

definition demo_key :: KeyPair where
  "demo_key = \<lparr>seed = [], public_key = [1, 2, 3]\<rparr>"

definition demo_addr :: Address where
  "demo_addr = from_public_key_bytes pad32 [1, 2, 3]"

definition demo_tx :: "Input list \<Rightarrow> Output list \<Rightarrow> SignedTransaction" where
  "demo_tx ins outs =
     \<lparr>transaction = \<lparr>input = ins, output = outs\<rparr>,
      signature_vector = demo_sign demo_key (demo_ser_tx \<lparr>input = ins, output = outs\<rparr>),
      public_key_vector = [1, 2, 3]\<rparr>"

definition demo_ico_input :: Input where
  "demo_ico_input = \<lparr>prev_trans = h256_fill 0, index = 0\<rparr>"

definition demo_state :: State where
  "demo_state = \<lparr>states = [(h256_fill 0, 0) \<mapsto> (100, demo_addr)]\<rparr>"

lemma demo_state_new: "State_new (demo_crates chk) demo_key = demo_state"
  by (simp add: State_new_def demo_state_def demo_addr_def demo_key_def ico_amount_def)

lemma demo_tx_simps [simp]:
  "transaction (demo_tx ins outs) = \<lparr>input = ins, output = outs\<rparr>"
  "public_key_vector (demo_tx ins outs) = [1, 2, 3]"
  "signature_ok (demo_crates chk) (demo_tx ins outs)"
  "signer (demo_crates chk) (demo_tx ins outs) = demo_addr"
  by (simp_all add: demo_tx_def signature_ok_def verify_tx_def demo_verify_def demo_sign_def
      demo_key_def signer_def demo_addr_def)

lemma pad32_nth0: "h256_bytes (pad32 (b # bs)) ! 0 = b"
  by (simp add: take_Cons')

lemma demo_tx_hash [simp]: "hash_stx (demo_crates chk) (demo_tx ins outs) \<noteq> h256_fill 0"
proof
  assume "hash_stx (demo_crates chk) (demo_tx ins outs) = h256_fill 0"
  then have "pad32 (7 # demo_ser_tx (transaction (demo_tx ins outs))) = h256_fill 0"
    by (simp add: hash_stx_def demo_ser_stx_def)
  then have "h256_bytes (pad32 (7 # demo_ser_tx (transaction (demo_tx ins outs)))) ! 0 =
      h256_bytes (h256_fill 0) ! 0" by simp
  then show False unfolding pad32_nth0 by simp
qed

lemma demo_state_simps [simp]:
  "states demo_state (h256_fill 0, 0) = Some (100, demo_addr)"
  "h \<noteq> h256_fill 0 \<Longrightarrow> states demo_state (h, k) = None"
  "finite (dom (states demo_state))"
  "states demo_state (outpoint_of demo_ico_input) = Some (100, demo_addr)"
  "utxo_total demo_state = 100"
  by (simp_all add: demo_state_def outpoint_of_def demo_ico_input_def utxo_total_def map_sum_def)

lemma demo_tx_valid:
  "outputs_value outs \<le> 100 \<Longrightarrow>
     check_txs (demo_crates chk) demo_state [demo_tx [demo_ico_input] outs] =
       Ret (Some (State_update (demo_crates chk) demo_state (demo_tx [demo_ico_input] outs)))"
  by (subst check_txs_fit)
    (simp_all add: sums_fit_def valid_tx_def owns_def input_value_def)

lemma demo_check_tx_state:
  "outputs_value outs \<le> 100 \<Longrightarrow>
     check_tx_state (demo_crates chk) [h256_fill 5 \<mapsto> demo_state] (h256_fill 5)
       [demo_tx [demo_ico_input] outs] (h256_fill 6) =
     Ret (True, [h256_fill 5 \<mapsto> demo_state, h256_fill 6 \<mapsto>
       State_update (demo_crates chk) demo_state (demo_tx [demo_ico_input] outs)])"
  by (simp add: check_tx_state_def demo_tx_valid del: check_txs.simps)

section \<open>Properties\<close>

text \<open>
  C8: validation refines its declarative rule. When no sum of amounts leaves \<open>u32\<close>,
  \<open>check_tx_state\<close> in either build returns \<open>true\<close> exactly for a valid block and then
  records, under the block's hash and nowhere else, the parent's state after
  \<open>State::update\<close> by each transaction in order; for an invalid block it returns
  \<open>false\<close> and records nothing.
\<close>

theorem check_tx_state_refines:
  assumes "block_state parent_hash = Some s" and "block_fits X s txs"
  shows "check_tx_state X block_state parent_hash txs block_hash =
    Ret (if valid_block X s txs
         then (True, block_state(block_hash \<mapsto> apply_block X s txs))
         else (False, block_state))"
  using assms by (simp add: check_tx_state_def check_txs_fit)

theorem check_tx_state_refines_witness:
  "check_tx_state (demo_crates True) [h256_fill 5 \<mapsto> demo_state] (h256_fill 5)
     [demo_tx [demo_ico_input] [\<lparr>recipient_addr = demo_addr, amount = 60\<rparr>]] (h256_fill 6) =
   Ret (True, [h256_fill 5 \<mapsto> demo_state, h256_fill 6 \<mapsto>
     State_update (demo_crates True) demo_state
       (demo_tx [demo_ico_input] [\<lparr>recipient_addr = demo_addr, amount = 60\<rparr>])])"
proof -
  let ?tx = "demo_tx [demo_ico_input] [\<lparr>recipient_addr = demo_addr, amount = 60\<rparr>]"
  have v: "valid_block (demo_crates True) demo_state [?tx]"
    and f: "block_fits (demo_crates True) demo_state [?tx]"
    by (simp_all add: valid_tx_def sums_fit_def owns_def input_value_def)
  have p: "[h256_fill 5 \<mapsto> demo_state] (h256_fill 5) = Some demo_state" by simp
  show ?thesis
    using check_tx_state_refines [where block_state = "[h256_fill 5 \<mapsto> demo_state]"
      and parent_hash = "h256_fill 5", OF p f] v by simp
qed

text \<open>
  No money from nothing. An accepted block whose transactions have new hashes,
  distinct inputs and at most 256 outputs does not increase the total value of the unspent
  outputs, in a build with overflow checks, and also without them when the unspent outputs,
  and the outputs of each transaction, are worth less than \<open>2 ^ 32\<close>.
\<close>

theorem accepted_block_conserves_value:
  assumes "overflow_checks X \<or>
      utxo_total s < 2 ^ 32 \<and> (\<forall>stx\<in>set txs. outputs_value (output (transaction stx)) < 2 ^ 32)"
    and "block_state parent_hash = Some s" and "finite (dom (states s))" and "proper_block X s txs"
    and "check_tx_state X block_state parent_hash txs block_hash = Ret (True, block_state')"
  shows "\<exists>s'. block_state' block_hash = Some s' \<and> utxo_total s' \<le> utxo_total s"
proof -
  from assms(2,5) obtain s' where s': "check_txs X s txs = Ret (Some s')"
    "block_state' = block_state(block_hash \<mapsto> s')"
    by (auto simp: check_tx_state_def res_simps split: option.splits)
  with check_txs_conserves [OF assms(1) s'(1) assms(3,4)] show ?thesis by simp
qed

theorem accepted_block_conserves_value_witness:
  "\<exists>bs s'. check_tx_state (demo_crates True) [h256_fill 5 \<mapsto> demo_state] (h256_fill 5)
        [demo_tx [demo_ico_input] [\<lparr>recipient_addr = demo_addr, amount = 60\<rparr>]] (h256_fill 6)
      = Ret (True, bs) \<and> bs (h256_fill 6) = Some s' \<and> utxo_total s' \<le> utxo_total demo_state"
proof -
  let ?X = "demo_crates True"
  let ?tx = "demo_tx [demo_ico_input] [\<lparr>recipient_addr = demo_addr, amount = 60\<rparr>]"
  let ?bs = "[h256_fill 5 \<mapsto> demo_state]"
  obtain bs where r: "check_tx_state ?X ?bs (h256_fill 5) [?tx] (h256_fill 6) = Ret (True, bs)"
    using demo_check_tx_state by force
  have "\<exists>s'. bs (h256_fill 6) = Some s' \<and> utxo_total s' \<le> utxo_total demo_state"
    by (rule accepted_block_conserves_value [OF _ _ _ _ r]) (simp_all add: proper_block_def)
  with r show ?thesis by blast
qed

text \<open>
  C21: authorisation. An unspent output of the parent's state that an accepted block
  removes or changes was an input of a transaction of the block that carries a valid
  signature by a key whose address is the recipient of that output (unless a transaction
  of the block hashes to the very hash the output is stored under).
\<close>

theorem spending_is_authorised:
  assumes "block_state parent_hash = Some s"
    and "check_tx_state X block_state parent_hash txs block_hash = Ret (True, block_state')"
    and "states s k = Some (v, a)" and "\<forall>stx\<in>set txs. hash_stx X stx \<noteq> fst k"
  shows "\<exists>s'. block_state' block_hash = Some s' \<and>
    (states s' k = Some (v, a) \<or>
     (\<exists>stx\<in>set txs. signature_ok X stx \<and> signer X stx = a \<and>
        k \<in> outpoint_of ` set (input (transaction stx))))"
proof -
  from assms(1,2) obtain s' where s': "check_txs X s txs = Ret (Some s')"
    "block_state' = block_state(block_hash \<mapsto> s')"
    by (auto simp: check_tx_state_def res_simps split: option.splits)
  with check_txs_entry [OF s'(1) assms(3,4)] show ?thesis by simp
qed

theorem spending_is_authorised_witness:
  "\<exists>bs s'. check_tx_state (demo_crates False) [h256_fill 5 \<mapsto> demo_state] (h256_fill 5)
        [demo_tx [demo_ico_input] []] (h256_fill 6) = Ret (True, bs) \<and>
      bs (h256_fill 6) = Some s' \<and>
      (states s' (h256_fill 0, 0) = Some (100, demo_addr) \<or>
       (\<exists>stx\<in>set [demo_tx [demo_ico_input] []]. signature_ok (demo_crates False) stx \<and>
          signer (demo_crates False) stx = demo_addr \<and>
          (h256_fill 0, 0) \<in> outpoint_of ` set (input (transaction stx))))"
proof -
  let ?X = "demo_crates False" and ?tx = "demo_tx [demo_ico_input] []"
  let ?bs = "[h256_fill 5 \<mapsto> demo_state]"
  obtain bs where r: "check_tx_state ?X ?bs (h256_fill 5) [?tx] (h256_fill 6) = Ret (True, bs)"
    using demo_check_tx_state by force
  have p: "?bs (h256_fill 5) = Some demo_state" by simp
  show ?thesis
    using spending_is_authorised [OF p r, of "(h256_fill 0, 0)" 100 demo_addr] r by simp
qed

text \<open>
  When validation panics. \<open>check_tx_state\<close> panics only because the state of the
  parent is missing (the \<open>unwrap\<close>), or on an addition that overflows in a build with
  overflow checks; a build without them never panics when the parent's state is known.
\<close>

theorem check_tx_state_panics:
  assumes "check_tx_state X block_state parent_hash txs block_hash = Panic e"
  shows "block_state parent_hash = None \<and> e = UnwrapNone \<or>
         block_state parent_hash \<noteq> None \<and> overflow_checks X \<and> e = ArithmeticOverflow"
proof (cases "block_state parent_hash")
  case None
  with assms show ?thesis by (simp add: check_tx_state_def)
next
  case (Some s)
  with assms have "check_txs X s txs = Panic e"
    by (auto simp: check_tx_state_def res_simps split: option.splits)
  with only_overflowD [OF only_overflow_check_txs this] Some show ?thesis by simp
qed

theorem check_tx_state_panics_witness:
  "check_tx_state (demo_crates True) Map.empty (h256_fill 5) [] (h256_fill 6) = Panic UnwrapNone \<and>
   ((Map.empty :: block_states) (h256_fill 5) = None \<and> UnwrapNone = UnwrapNone \<or>
    (Map.empty :: block_states) (h256_fill 5) \<noteq> None \<and> overflow_checks (demo_crates True) \<and>
    UnwrapNone = ArithmeticOverflow)"
proof -
  have h: "check_tx_state (demo_crates True) Map.empty (h256_fill 5) [] (h256_fill 6) = Panic UnwrapNone"
    by (simp add: check_tx_state_def)
  show ?thesis using h check_tx_state_panics [OF h] by blast
qed

text \<open>
  C36: a transaction may name the same output twice, and its value is then counted twice.
  For an unspent output of value \<open>v\<close> its owner's transaction with two equal inputs and
  one output of value \<open>2 * v\<close> is accepted in every build, and the total value grows by
  \<open>v\<close>: the condition on distinct inputs in the conservation theorem is needed.
\<close>

theorem double_input_inflates:
  assumes "finite (dom (states s))" and "states s (outpoint_of i) = Some (v, signer X stx)"
    and "transaction stx = \<lparr>input = [i, i], output = [\<lparr>recipient_addr = a, amount = 2 * v\<rparr>]\<rparr>"
    and "2 * unat v < 2 ^ 32" and "signature_ok X stx" and "\<forall>k. states s (hash_stx X stx, k) = None"
  shows "\<exists>s'. check_tx X s stx = Ret (Some s') \<and> utxo_total s' = utxo_total s + unat v"
proof -
  have v2: "unat (2 * v) = 2 * unat v" using assms(4) by (simp add: unat_word_ariths)
  have iv: "input_value s i = unat v" using assms(2) by (rule input_value_owns)
  have "sums_fit s stx" "valid_tx X s stx"
    using assms v2 iv by (auto simp: sums_fit_def valid_tx_def owns_def)
  then have acc: "check_tx X s stx = Ret (Some (State_update X s stx))" by (simp add: check_tx_fit)
  let ?t = "stx\<lparr>transaction := \<lparr>input = [i], output = [\<lparr>recipient_addr = a, amount = 2 * v\<rparr>]\<rparr>\<rparr>"
  have same: "spend [i, i] (states s) = spend [i] (states s)" by (auto simp: spend_def)
  have "map_sum (\<lambda>e. unat (fst e)) (spend [i] (states s)) + unat v = utxo_total s"
    using map_sum_spend [of s "[i]"] assms(1,2) iv by simp
  moreover have "map_sum (\<lambda>e. unat (fst e)) (create (hash_stx X stx) 0
      [\<lparr>recipient_addr = a, amount = 2 * v\<rparr>] (spend [i] (states s))) =
    map_sum (\<lambda>e. unat (fst e)) (spend [i] (states s)) + 2 * unat v"
    using assms(1,6) v2 by (subst map_sum_create) (simp_all add: dom_spend, simp add: spend_def)
  ultimately have "utxo_total (State_update X s stx) = utxo_total s + unat v"
    using assms(3) same by (simp add: State_update_eq utxo_total_def)
  with acc show ?thesis by blast
qed

theorem double_input_inflates_witness:
  "\<exists>s'. check_tx (demo_crates True) demo_state
      (demo_tx [demo_ico_input, demo_ico_input] [\<lparr>recipient_addr = demo_addr, amount = 2 * 100\<rparr>]) =
    Ret (Some s') \<and> utxo_total s' = utxo_total demo_state + unat (100 :: u32)"
  by (rule double_input_inflates [where i = demo_ico_input and a = demo_addr]) simp_all

text \<open>
  C37: two outputs whose amounts add up to \<open>2 ^ 32\<close>. A release build accepts the
  transaction without any input, by anyone, and creates that value; a build with overflow
  checks panics on it.
\<close>

theorem output_overflow:
  assumes "transaction stx = \<lparr>input = [], output = [out1, out2]\<rparr>" and "signature_ok X stx"
    and "unat (amount out1) + unat (amount out2) = 2 ^ 32"
    and "finite (dom (states s))" and "\<forall>k. states s (hash_stx X stx, k) = None"
  shows "if overflow_checks X then check_tx X s stx = Panic ArithmeticOverflow
         else \<exists>s'. check_tx X s stx = Ret (Some s') \<and> utxo_total s' = utxo_total s + 2 ^ 32"
proof (cases "overflow_checks X")
  case True
  have "sum_outputs X [out1, out2] 0 = Panic ArithmeticOverflow"
    using True assms(3) by (simp add: add_checked_def)
  then show ?thesis using True assms(1,2) by (simp add: check_tx_cases)
next
  case False
  have "amount out1 + amount out2 = 0"
    using assms(3) by (simp add: word_unat_eq_iff unat_word_ariths)
  then have "sum_outputs X [out1, out2] 0 = Ret 0" using False by simp
  then have acc: "check_tx X s stx = Ret (Some (State_update X s stx))"
    using assms(1,2) by (simp add: check_tx_cases)
  have "map_sum (\<lambda>e. unat (fst e)) (create (hash_stx X stx) 0 [out1, out2] (states s)) =
      map_sum (\<lambda>e. unat (fst e)) (states s) + 2 ^ 32"
    using assms(3-5) by (subst map_sum_create) simp_all
  then have "utxo_total (State_update X s stx) = utxo_total s + 2 ^ 32"
    using assms(1) by (simp add: State_update_eq utxo_total_def)
  with False acc show ?thesis by simp
qed

theorem output_overflow_witness:
  "\<exists>s'. check_tx (demo_crates False) demo_state
      (demo_tx [] [\<lparr>recipient_addr = demo_addr, amount = 4294967295\<rparr>, \<lparr>recipient_addr = demo_addr, amount = 1\<rparr>]) =
    Ret (Some s') \<and> utxo_total s' = utxo_total demo_state + 2 ^ 32"
  using output_overflow [of "demo_tx [] [\<lparr>recipient_addr = demo_addr, amount = 4294967295\<rparr>,
      \<lparr>recipient_addr = demo_addr, amount = 1\<rparr>]"
      "\<lparr>recipient_addr = demo_addr, amount = 4294967295\<rparr>" "\<lparr>recipient_addr = demo_addr, amount = 1\<rparr>"
      "demo_crates False" demo_state]
  by simp

text \<open>
  C38: output positions are cast to \<open>u8\<close>. Of an accepted transaction with 257 outputs the
  entry at position 0 is the last output; the first one is lost.
\<close>

theorem output_index_wraps:
  assumes "check_tx X s stx = Ret (Some s')" and "length (output (transaction stx)) = 257"
  shows "states s' (hash_stx X stx, 0) = Some (entry_of (output (transaction stx) ! 256))"
proof -
  let ?outs = "output (transaction stx)" and ?h = "hash_stx X stx"
  have "?outs = take 256 ?outs @ [?outs ! 256]"
    using assms(2) take_Suc_conv_app_nth [of 256 ?outs] by simp
  then have "create ?h 0 ?outs m = create ?h 0 (take 256 ?outs @ [?outs ! 256]) m" for m by simp
  also have "create ?h 0 (take 256 ?outs @ [?outs ! 256]) m =
      (create ?h 0 (take 256 ?outs) m)((?h, word_of_nat 256) \<mapsto> entry_of (?outs ! 256))" for m
    using assms(2) by (simp only: create_snoc) simp
  finally have "create ?h 0 ?outs m =
      (create ?h 0 (take 256 ?outs) m)((?h, word_of_nat 256) \<mapsto> entry_of (?outs ! 256))" for m .
  moreover have "(word_of_nat 256 :: u8) = 0"
    by (simp add: word_unat_eq_iff unat_of_nat take_bit_eq_mod)
  ultimately show ?thesis
    using check_tx_accepted(3) [OF assms(1)] by (simp add: State_update_eq)
qed

theorem output_index_wraps_witness:
  "\<exists>s'. check_tx (demo_crates True) demo_state
       (demo_tx [] (replicate 256 \<lparr>recipient_addr = demo_addr, amount = 0\<rparr> @
          [\<lparr>recipient_addr = address_fill 9, amount = 0\<rparr>])) = Ret (Some s') \<and>
     states s' (hash_stx (demo_crates True)
       (demo_tx [] (replicate 256 \<lparr>recipient_addr = demo_addr, amount = 0\<rparr> @
          [\<lparr>recipient_addr = address_fill 9, amount = 0\<rparr>])), 0) = Some (0, address_fill 9)"
proof -
  let ?outs = "replicate 256 \<lparr>recipient_addr = demo_addr, amount = 0\<rparr> @
    [\<lparr>recipient_addr = address_fill 9, amount = 0\<rparr>]"
  let ?X = "demo_crates True" and ?tx = "demo_tx [] ?outs"
  have "outputs_value (replicate n \<lparr>recipient_addr = demo_addr, amount = 0\<rparr> @
    [\<lparr>recipient_addr = address_fill 9, amount = 0\<rparr>]) = 0" for n by (induction n) simp_all
  then have "sums_fit demo_state ?tx" "valid_tx ?X demo_state ?tx"
    by (simp_all add: sums_fit_def valid_tx_def)
  then have acc: "check_tx ?X demo_state ?tx = Ret (Some (State_update ?X demo_state ?tx))"
    by (simp add: check_tx_fit)
  have last: "?outs ! 256 = \<lparr>recipient_addr = address_fill 9, amount = 0\<rparr>"
    by (simp add: nth_append)
  show ?thesis
    using acc output_index_wraps [OF acc] last
    by (simp add: entry_of_def)
qed

end
