(* ===== verification/Chain.thy ===== *)
theory Chain
  imports Types
begin

text \<open>
  \<open>src/src/blockchain/mod.rs\<close>: the block tree with heights and the tip of the longest
  chain. The invariant \<open>chain_inv\<close> says that the map is a tree of blocks rooted in the
  genesis block, keyed by block hash, with heights counting from the root, and that the
  tip is a highest block; the reference notion \<open>chain_to\<close> is a path from the genesis
  block. The locale \<open>chain_store\<close> is what the other components rely on.
\<close>

section \<open>The program\<close>

record Blockchain =
  blocks :: "H256 \<rightharpoonup> Block \<times> u32"
  tip :: H256

definition genesis_difficulty :: H256 where
  "genesis_difficulty =
     H256 [0x00, 0x0f, 0xf9, 0x3a, 0x75, 0xa7, 0x58, 0x95, 0xa3, 0x51, 0x78, 0x6d, 0xd7, 0xa1, 0x88, 0x51,
           0x51, 0x73, 0xf6, 0x92, 0x8a, 0x8a, 0xf8, 0xc9, 0xba, 0xa4, 0xdc, 0xff, 0x26, 0x8a, 0x4f, 0x0f]"

definition genesis :: Block where
  "genesis =
     \<lparr>head = \<lparr>parent = h256_fill 0, nonce = 0, difficulty = genesis_difficulty,
              timestamp = 0, merkle_root = h256_fill 0\<rparr>,
      cont = \<lparr>st = []\<rparr>\<rparr>"

definition Blockchain_new :: "Crates \<Rightarrow> Blockchain" where
  "Blockchain_new X =
     (let genesis_hash = hash_block X genesis
      in \<lparr>blocks = [genesis_hash \<mapsto> (genesis, 0)], tip = genesis_hash\<rparr>)"

definition Blockchain_insert :: "Crates \<Rightarrow> Blockchain \<Rightarrow> Block \<Rightarrow> Blockchain res" where
  "Blockchain_insert X self block =
     bind_res (unwrap (blocks self (parent (head block)))) (\<lambda>p.
     bind_res (add_u32 X (snd p) 1) (\<lambda>height.
     bind_res (unwrap (blocks self (tip self))) (\<lambda>t.
       let prev_tip_height = snd t;
           block_hash = hash_block X block;
           self' = self\<lparr>blocks := (blocks self)(block_hash \<mapsto> (block, height))\<rparr>
       in Ret (if prev_tip_height < height then self'\<lparr>tip := block_hash\<rparr> else self'))))"

definition Blockchain_tip :: "Blockchain \<Rightarrow> H256" where
  "Blockchain_tip self = tip self"

text \<open>The loop \<open>while height >= 1\<close> of \<open>all_blocks_in_longest_chain\<close>.\<close>

function longest_loop :: "Blockchain \<Rightarrow> u32 \<Rightarrow> H256 \<Rightarrow> H256 list \<Rightarrow> H256 list res" where
  "longest_loop self height next_hash hashes =
     (if 1 \<le> height
      then bind_res (unwrap (blocks self next_hash)) (\<lambda>e.
             longest_loop self (height - 1) (parent (head (fst e))) (hashes @ [next_hash]))
      else Ret hashes)"
  by pat_completeness auto
termination
  by (relation "measure (\<lambda>(self, height, next_hash, hashes). unat height)")
    (auto simp: word_le_nat_alt unat_sub)

definition all_blocks_in_longest_chain :: "Blockchain \<Rightarrow> H256 list res" where
  "all_blocks_in_longest_chain self =
     bind_res (unwrap (blocks self (tip self))) (\<lambda>e.
     bind_res (longest_loop self (snd e) (parent (head (fst e))) [tip self]) (\<lambda>hashes.
       Ret (rev hashes)))"

declare longest_loop.simps [simp del]

section \<open>The invariant\<close>

abbreviation genesis_hash :: "Crates \<Rightarrow> H256" where
  "genesis_hash X \<equiv> hash_block X genesis"

definition node_inv ::
  "Crates \<Rightarrow> (H256 \<rightharpoonup> Block \<times> u32) \<Rightarrow> H256 \<Rightarrow> Block \<Rightarrow> u32 \<Rightarrow> bool" where
  "node_inv X m h b n \<longleftrightarrow>
     hash_block X b = h \<and>
     (if n = 0 then h = genesis_hash X
      else \<exists>pb pn. m (parent (head b)) = Some (pb, pn) \<and> unat n = Suc (unat pn))"

definition tree_inv :: "Crates \<Rightarrow> (H256 \<rightharpoonup> Block \<times> u32) \<Rightarrow> bool" where
  "tree_inv X m \<longleftrightarrow>
     (\<exists>g. m (genesis_hash X) = Some (g, 0)) \<and>
     (\<forall>h b n. m h = Some (b, n) \<longrightarrow> node_inv X m h b n)"

definition tip_inv :: "Blockchain \<Rightarrow> bool" where
  "tip_inv c \<longleftrightarrow> (\<exists>b n. blocks c (tip c) = Some (b, n) \<and>
     (\<forall>h b' n'. blocks c h = Some (b', n') \<longrightarrow> n' \<le> n))"

definition chain_inv :: "Crates \<Rightarrow> Blockchain \<Rightarrow> bool" where
  "chain_inv X c \<longleftrightarrow> tree_inv X (blocks c) \<and> tip_inv c"

lemma chain_inv_new: "chain_inv X (Blockchain_new X)"
  by (simp add: chain_inv_def tree_inv_def node_inv_def tip_inv_def Blockchain_new_def Let_def)

lemma tree_inv_genesis: "tree_inv X m \<Longrightarrow> \<exists>g. m (genesis_hash X) = Some (g, 0)"
  by (simp add: tree_inv_def)

lemma tree_inv_node: "tree_inv X m \<Longrightarrow> m h = Some (b, n) \<Longrightarrow> node_inv X m h b n"
  by (simp add: tree_inv_def)

lemma tree_inv_hash: "tree_inv X m \<Longrightarrow> m h = Some (b, n) \<Longrightarrow> hash_block X b = h"
  by (drule (1) tree_inv_node) (simp add: node_inv_def)

lemma tree_inv_root: "tree_inv X m \<Longrightarrow> m h = Some (b, 0) \<Longrightarrow> h = genesis_hash X"
  by (drule (1) tree_inv_node) (simp add: node_inv_def)

lemma tree_inv_parent:
  "tree_inv X m \<Longrightarrow> m h = Some (b, n) \<Longrightarrow> n \<noteq> 0 \<Longrightarrow>
     \<exists>pb pn. m (parent (head b)) = Some (pb, pn) \<and> unat n = Suc (unat pn)"
  by (drule (1) tree_inv_node) (simp add: node_inv_def)

text \<open>
  A block may enter the tree when its hash is new, or when it has the header of a block
  that is there (then only the content is replaced) and is not the genesis block.
\<close>

definition insertable :: "Crates \<Rightarrow> Blockchain \<Rightarrow> Block \<Rightarrow> bool" where
  "insertable X c b \<longleftrightarrow>
     (case blocks c (hash_block X b) of
        None \<Rightarrow> True
      | Some (b', _) \<Rightarrow> head b' = head b \<and> hash_block X b \<noteq> genesis_hash X)"

text \<open>The next height is representable, or the build checks for overflow.\<close>

definition height_room :: "Crates \<Rightarrow> Blockchain \<Rightarrow> bool" where
  "height_room X c \<longleftrightarrow> overflow_checks X \<or>
     (\<forall>h b n. blocks c h = Some (b, n) \<longrightarrow> unat n + 1 < 2 ^ 32)"

lemma Blockchain_insert_Ret:
  assumes "Blockchain_insert X c b = Ret c'" and "height_room X c"
  obtains pb pn tb tn n where
    "blocks c (parent (head b)) = Some (pb, pn)" "blocks c (tip c) = Some (tb, tn)"
    "unat n = Suc (unat pn)" "blocks c' = (blocks c)(hash_block X b \<mapsto> (b, n))"
    "tip c' = (if tn < n then hash_block X b else tip c)"
proof -
  from assms(1) obtain pb pn tb tn n where
    p: "blocks c (parent (head b)) = Some (pb, pn)" and n: "add_u32 X pn 1 = Ret n" and
    t: "blocks c (tip c) = Some (tb, tn)" and
    c': "c' = (let c1 = c\<lparr>blocks := (blocks c)(hash_block X b \<mapsto> (b, n))\<rparr>
               in if tn < n then c1\<lparr>tip := hash_block X b\<rparr> else c1)"
    by (auto simp: Blockchain_insert_def res_simps Let_def)
  have r: "blocks c' = (blocks c)(hash_block X b \<mapsto> (b, n))"
    "tip c' = (if tn < n then hash_block X b else tip c)"
    by (simp_all add: c' Let_def)
  have "unat pn + 1 < 2 ^ 32"
    using n p assms(2) by (auto simp: height_room_def add_checked_def split: if_splits)
  then have "add_u32 X pn 1 = Ret (pn + 1)" by (simp add: add_checked_no_overflow)
  with n have "n = pn + 1" by simp
  with \<open>unat pn + 1 < 2 ^ 32\<close> have "unat n = Suc (unat pn)" by (simp add: unat_word_ariths)
  with p t r show ?thesis by (intro that)
qed

lemma Blockchain_insert_known_parent:
  "blocks c (parent (head b)) = Some (pb, pn) \<Longrightarrow> blocks c (tip c) = Some (tb, tn) \<Longrightarrow>
     only_overflow (overflow_checks X) (Blockchain_insert X c b)"
  by (auto simp: Blockchain_insert_def Let_def intro!: only_overflow_intros)

lemma tree_inv_insert_new:
  assumes inv: "tree_inv X m" and p: "m (parent (head b)) = Some (pb, pn)"
    and n: "unat n = Suc (unat pn)" and new: "m (hash_block X b) = None"
  shows "tree_inv X (m(hash_block X b \<mapsto> (b, n)))"
proof -
  from tree_inv_genesis [OF inv] obtain g where g: "m (genesis_hash X) = Some (g, 0)" by auto
  have keep: "(m(hash_block X b \<mapsto> (b, n))) h = Some e" if "m h = Some e" for h e
    using that new by auto
  have n0: "n \<noteq> 0" using n by auto
  have "node_inv X (m(hash_block X b \<mapsto> (b, n))) h b' n'"
    if "(m(hash_block X b \<mapsto> (b, n))) h = Some (b', n')" for h b' n'
  proof (cases "h = hash_block X b")
    case True
    with that have "b' = b" "n' = n" by auto
    with True n0 n keep [OF p] show ?thesis by (simp add: node_inv_def)
  next
    case False
    with that have e: "m h = Some (b', n')" by simp
    show ?thesis
      using tree_inv_node [OF inv e] new unfolding node_inv_def by (auto split: if_splits)
  qed
  with keep [OF g] show ?thesis unfolding tree_inv_def by blast
qed

lemma tree_inv_insert_same:
  assumes inv: "tree_inv X m" and p: "m (parent (head b)) = Some (pb, pn)"
    and n: "unat n = Suc (unat pn)" and old: "m (hash_block X b) = Some (b0, n0)"
    and same: "head b0 = head b" and ng: "hash_block X b \<noteq> genesis_hash X"
  shows "n0 = n \<and> tree_inv X (m(hash_block X b \<mapsto> (b, n)))"
proof -
  have "n0 \<noteq> 0" using tree_inv_root [OF inv] old ng by blast
  from tree_inv_parent [OF inv old this] same p n have "unat n0 = unat n" by auto
  then have eq: "n0 = n" by (simp add: word_unat_eq_iff)
  have heads: "\<exists>b1. m h = Some (b1, n1) \<and> head b1 = head b2"
    if "(m(hash_block X b \<mapsto> (b, n))) h = Some (b2, n1)" for h b2 n1
    using that old same eq by (auto split: if_splits)
  have lookup: "\<exists>b2. (m(hash_block X b \<mapsto> (b, n))) h = Some (b2, n1) \<and> head b1 = head b2"
    if "m h = Some (b1, n1)" for h b1 n1
    using that old same eq by (cases "h = hash_block X b") auto
  have "node_inv X (m(hash_block X b \<mapsto> (b, n))) h b2 n1"
    if "(m(hash_block X b \<mapsto> (b, n))) h = Some (b2, n1)" for h b2 n1
  proof -
    from heads [OF that] obtain b1 where b1: "m h = Some (b1, n1)" "head b1 = head b2" by auto
    have "hash_block X b2 = h"
      using tree_inv_hash [OF inv b1(1)] hash_block_cong [OF b1(2)] by simp
    moreover have "\<exists>pb pn. (m(hash_block X b \<mapsto> (b, n))) (parent (head b2)) = Some (pb, pn) \<and>
        unat n1 = Suc (unat pn)" if "n1 \<noteq> 0"
      using tree_inv_parent [OF inv b1(1) that] b1(2) lookup by metis
    moreover have "n1 = 0 \<Longrightarrow> h = genesis_hash X" using tree_inv_root [OF inv] b1(1) by blast
    ultimately show ?thesis by (simp add: node_inv_def)
  qed
  moreover have "\<exists>g. (m(hash_block X b \<mapsto> (b, n))) (genesis_hash X) = Some (g, 0)"
    using tree_inv_genesis [OF inv] ng by auto
  ultimately show ?thesis using eq unfolding tree_inv_def by blast
qed

lemma chain_inv_insert:
  assumes inv: "chain_inv X c" and ins: "Blockchain_insert X c b = Ret c'"
    and ok: "insertable X c b" and room: "height_room X c"
  shows "chain_inv X c'"
proof -
  obtain pb pn tb tn n where p: "blocks c (parent (head b)) = Some (pb, pn)"
    and t: "blocks c (tip c) = Some (tb, tn)" and n: "unat n = Suc (unat pn)"
    and c': "blocks c' = (blocks c)(hash_block X b \<mapsto> (b, n))"
    "tip c' = (if tn < n then hash_block X b else tip c)"
    using Blockchain_insert_Ret [OF ins room] .
  have tree: "tree_inv X (blocks c)" and top: "\<And>h b' n'. blocks c h = Some (b', n') \<Longrightarrow> n' \<le> tn"
    using inv t by (auto simp: chain_inv_def tip_inv_def)
  have same: "n0 = n \<and> tree_inv X (blocks c')" if "blocks c (hash_block X b) = Some (b0, n0)" for b0 n0
    unfolding c' using tree p n that by (rule tree_inv_insert_same) (use ok that in \<open>auto simp: insertable_def\<close>)
  have "tree_inv X (blocks c')"
  proof (cases "blocks c (hash_block X b)")
    case None
    show ?thesis unfolding c' using tree p n None by (rule tree_inv_insert_new)
  next
    case (Some e)
    then show ?thesis using same by (cases e) auto
  qed
  moreover have "tip_inv c'"
  proof -
    have "\<exists>b'. blocks c' (tip c') = Some (b', max tn n)"
      using t c' same by (cases "tip c = hash_block X b") (auto simp: max_def)
    moreover have "n' \<le> max tn n" if "blocks c' h = Some (b', n')" for h b' n'
      using that top c'(1) by (auto simp: le_max_iff_disj split: if_splits)
    ultimately show ?thesis unfolding tip_inv_def by blast
  qed
  ultimately show ?thesis by (simp add: chain_inv_def)
qed

section \<open>Paths from the genesis block\<close>

inductive chain_to :: "Crates \<Rightarrow> Blockchain \<Rightarrow> H256 list \<Rightarrow> H256 \<Rightarrow> bool" for X c where
  chain_root: "chain_to X c [genesis_hash X] (genesis_hash X)"
| chain_step: "chain_to X c hs (parent (head b)) \<Longrightarrow> blocks c h = Some (b, n) \<Longrightarrow>
     h \<noteq> genesis_hash X \<Longrightarrow> chain_to X c (hs @ [h]) h"

inductive_cases chain_to_genesisE: "chain_to X c hs (genesis_hash X)"

lemma chain_to_last: "chain_to X c hs h \<Longrightarrow> hs \<noteq> [] \<and> last hs = h \<and> hd hs = genesis_hash X"
  by (induction rule: chain_to.induct) auto

lemma chain_to_height:
  assumes inv: "chain_inv X c"
  shows "chain_to X c hs h \<Longrightarrow> \<exists>b n. blocks c h = Some (b, n) \<and> length hs = Suc (unat n)"
proof (induction rule: chain_to.induct)
  case chain_root
  then show ?case using inv tree_inv_genesis by (fastforce simp: chain_inv_def)
next
  case (chain_step hs b h n)
  have tree: "tree_inv X (blocks c)" using inv by (simp add: chain_inv_def)
  have "n \<noteq> 0" using tree_inv_root [OF tree] chain_step.hyps by blast
  from tree_inv_parent [OF tree chain_step.hyps(2) this] chain_step.IH chain_step.hyps(2)
  show ?case by auto
qed

lemma chain_to_known:
  assumes "chain_inv X c"
  shows "chain_to X c hs h \<Longrightarrow> h' \<in> set hs \<Longrightarrow> blocks c h' \<noteq> None"
proof (induction rule: chain_to.induct)
  case chain_root
  then show ?case using assms tree_inv_genesis by (fastforce simp: chain_inv_def)
qed auto

lemma chain_to_unique: "chain_to X c hs h \<Longrightarrow> chain_to X c hs' h \<Longrightarrow> hs = hs'"
proof (induction arbitrary: hs' rule: chain_to.induct)
  case chain_root
  then show ?case by (auto elim: chain_to_genesisE)
next
  case (chain_step hs b h n)
  from chain_step.prems chain_step.hyps show ?case
    by (cases rule: chain_to.cases) (auto dest: chain_step.IH)
qed

text \<open>The loop walks a path backwards.\<close>

lemma longest_loop_chain:
  assumes tree: "tree_inv X (blocks c)"
  shows "blocks c h = Some (b, n) \<Longrightarrow>
    \<exists>anc. longest_loop c n (parent (head b)) acc = Ret (acc @ anc) \<and> chain_to X c (rev anc @ [h]) h"
proof (induction "unat n" arbitrary: h b n acc)
  case 0
  then have "n = 0" by (simp add: unat_eq_zero)
  with 0 tree_inv_root [OF tree] have "h = genesis_hash X" by blast
  then show ?case using \<open>n = 0\<close>
    by (intro exI [of _ "[]"]) (auto simp: longest_loop.simps intro: chain_root)
next
  case (Suc k)
  have n0: "n \<noteq> 0" using Suc.hyps(2) by auto
  then have ge: "1 \<le> n" by (simp add: word_le_nat_alt unat_gt_0 Suc_leI)
  obtain pb pn where p: "blocks c (parent (head b)) = Some (pb, pn)" "unat n = Suc (unat pn)"
    using tree_inv_parent [OF tree Suc.prems n0] by blast
  have "unat (n - 1) = unat pn" using p(2) ge by (simp add: unat_sub)
  then have pn: "n - 1 = pn" by (simp add: word_unat_eq_iff)
  have hg: "h \<noteq> genesis_hash X"
    using tree_inv_genesis [OF tree] Suc.prems n0 by auto
  have "k = unat pn" using p(2) Suc.hyps(2) by simp
  from Suc.hyps(1) [OF this p(1), of "acc @ [parent (head b)]"] obtain anc where
    anc: "longest_loop c pn (parent (head pb)) (acc @ [parent (head b)]) = Ret ((acc @ [parent (head b)]) @ anc)"
    "chain_to X c (rev anc @ [parent (head b)]) (parent (head b))" by blast
  have "longest_loop c n (parent (head b)) acc = Ret (acc @ (parent (head b) # anc))"
    using ge p(1) anc(1) pn by (simp add: longest_loop.simps [of c n])
  moreover have "chain_to X c (rev (parent (head b) # anc) @ [h]) h"
    using chain_step [OF anc(2) Suc.prems hg] by simp
  ultimately show ?case by blast
qed

lemma longest_loop_extends:
  "longest_loop c n h acc = Ret hs \<Longrightarrow> \<exists>anc. hs = acc @ anc"
proof (induction c n h acc rule: longest_loop.induct)
  case (1 c n h acc)
  then show ?case
    by (cases "1 \<le> n") (fastforce simp: longest_loop.simps [of c n] res_simps)+
qed

lemma longest_chain_tip:
  assumes "chain_inv X c"
  obtains hs where "all_blocks_in_longest_chain c = Ret hs" "chain_to X c hs (tip c)"
proof -
  from assms obtain b n where t: "blocks c (tip c) = Some (b, n)" and tree: "tree_inv X (blocks c)"
    by (auto simp: chain_inv_def tip_inv_def)
  from longest_loop_chain [OF tree t, of "[tip c]"] obtain anc where
    "longest_loop c n (parent (head b)) [tip c] = Ret ([tip c] @ anc)"
    "chain_to X c (rev anc @ [tip c]) (tip c)" by blast
  with t show ?thesis
    by (intro that [of "rev anc @ [tip c]"]) (simp_all add: all_blocks_in_longest_chain_def)
qed

lemma all_blocks_chain:
  "chain_inv X c \<Longrightarrow> all_blocks_in_longest_chain c = Ret hs \<longleftrightarrow> chain_to X c hs (tip c)"
  by (metis chain_to_unique longest_chain_tip res.inject(1))

lemma chain_to_height_le:
  assumes inv: "chain_inv X c" and tip: "chain_to X c hs (tip c)" and other: "chain_to X c hs' h"
  shows "length hs' \<le> length hs"
proof -
  from inv obtain b n where t: "blocks c (tip c) = Some (b, n)"
    and top: "\<And>h b' n'. blocks c h = Some (b', n') \<Longrightarrow> n' \<le> n"
    by (auto simp: chain_inv_def tip_inv_def)
  from chain_to_height [OF inv tip] chain_to_height [OF inv other] t top show ?thesis
    by (fastforce simp: word_le_nat_alt)
qed

text \<open>Paths survive an insertion.\<close>

lemma chain_to_insert:
  assumes inv: "chain_inv X c" and ins: "Blockchain_insert X c b = Ret c'"
    and ok: "insertable X c b" and room: "height_room X c"
  shows "chain_to X c hs h \<Longrightarrow> chain_to X c' hs h"
proof (induction rule: chain_to.induct)
  case chain_root
  show ?case by (rule chain_to.chain_root)
next
  case (chain_step hs b1 h n1)
  obtain n where c': "blocks c' = (blocks c)(hash_block X b \<mapsto> (b, n))"
    using Blockchain_insert_Ret [OF ins room] by metis
  have "\<exists>b2 n2. blocks c' h = Some (b2, n2) \<and> parent (head b2) = parent (head b1)"
    using c' chain_step.hyps(2) ok by (cases "h = hash_block X b") (auto simp: insertable_def)
  with chain_step show ?case by (metis chain_to.chain_step)
qed

section \<open>The interface of the block tree\<close>

text \<open>
  What the workers rely on: membership, the insertion of a block below a known parent
  panics at most by overflow and adds exactly its hash, nothing is ever removed, and the
  tip is a member.
\<close>

locale chain_store =
  fixes contains :: "'c \<Rightarrow> 'h \<Rightarrow> bool"
    and put :: "'c \<Rightarrow> 'b \<Rightarrow> 'c res"
    and tip_of :: "'c \<Rightarrow> 'h"
    and hash_of :: "'b \<Rightarrow> 'h"
    and parent_of :: "'b \<Rightarrow> 'h"
    and chk :: bool
  assumes put_contains:
      "put c b = Ret c' \<Longrightarrow> contains c' h \<longleftrightarrow> h = hash_of b \<or> contains c h"
    and put_panic: "contains c (parent_of b) \<Longrightarrow> contains c (tip_of c) \<Longrightarrow>
      only_overflow chk (put c b)"
    and put_parent: "put c b = Ret c' \<Longrightarrow> contains c (parent_of b)"
    and put_tip: "put c b = Ret c' \<Longrightarrow> contains c (tip_of c) \<and> (tip_of c' = tip_of c \<or> tip_of c' = hash_of b)"
begin

lemma put_mono: "put c b = Ret c' \<Longrightarrow> contains c h \<Longrightarrow> contains c' h"
  by (simp add: put_contains)

lemma put_keeps_tip: "put c b = Ret c' \<Longrightarrow> contains c' (tip_of c')"
  by (metis put_tip put_contains)

end

definition contains_block :: "Blockchain \<Rightarrow> H256 \<Rightarrow> bool" where
  "contains_block c h \<longleftrightarrow> blocks c h \<noteq> None"

interpretation bc: chain_store contains_block "Blockchain_insert X" tip "hash_block X"
  "\<lambda>b. parent (head b)" "overflow_checks X"
  for X
proof
  show "contains_block c' h \<longleftrightarrow> h = hash_block X b \<or> contains_block c h"
    if "Blockchain_insert X c b = Ret c'" for c b c' h
    using that by (auto simp: Blockchain_insert_def contains_block_def res_simps Let_def split: if_splits)
  show "only_overflow (overflow_checks X) (Blockchain_insert X c b)"
    if "contains_block c (parent (head b))" "contains_block c (tip c)" for c b
    using that Blockchain_insert_known_parent by (auto simp: contains_block_def)
  show "contains_block c (parent (head b))" if "Blockchain_insert X c b = Ret c'" for c b c'
    using that by (auto simp: Blockchain_insert_def contains_block_def res_simps)
  show "contains_block c (tip c) \<and> (tip c' = tip c \<or> tip c' = hash_block X b)"
    if "Blockchain_insert X c b = Ret c'" for c b c'
    using that by (auto simp: Blockchain_insert_def contains_block_def res_simps Let_def)
qed

section \<open>Properties\<close>

text \<open>The block trees that \<open>new\<close> and successful insertions build.\<close>

inductive chain_reach :: "Crates \<Rightarrow> Blockchain \<Rightarrow> bool" for X where
  reach_new: "chain_reach X (Blockchain_new X)"
| reach_insert: "chain_reach X c \<Longrightarrow> insertable X c b \<Longrightarrow> height_room X c \<Longrightarrow>
     Blockchain_insert X c b = Ret c' \<Longrightarrow> chain_reach X c'"

text \<open>
  C9: the longest-chain query. On every reachable block tree
  \<open>all_blocks_in_longest_chain\<close> returns, without a panic, the path from the genesis block
  to the tip, and no path from the genesis block to any block of the tree is longer.
\<close>

theorem longest_chain_correct:
  assumes "chain_reach X c"
  shows "\<exists>hs. all_blocks_in_longest_chain c = Ret hs \<and> chain_to X c hs (tip c) \<and>
    (\<forall>hs' h. chain_to X c hs' h \<longrightarrow> length hs' \<le> length hs)"
proof -
  from assms have "chain_inv X c"
    by (induction rule: chain_reach.induct) (auto intro: chain_inv_new chain_inv_insert)
  then show ?thesis by (metis longest_chain_tip chain_to_height_le)
qed

theorem longest_chain_correct_witness:
  "\<exists>hs. all_blocks_in_longest_chain (Blockchain_new (demo_crates True)) = Ret hs \<and>
    chain_to (demo_crates True) (Blockchain_new (demo_crates True)) hs
      (tip (Blockchain_new (demo_crates True))) \<and>
    (\<forall>hs' h. chain_to (demo_crates True) (Blockchain_new (demo_crates True)) hs' h \<longrightarrow>
       length hs' \<le> length hs)"
  by (rule longest_chain_correct [OF reach_new])

text \<open>
  C22: the longest-chain rule. Inserting a new block below a block with path \<open>hs\<close> makes
  the longest chain the path to the new block when that is longer than the longest chain
  so far (an extension of the tip, or a switch to another branch), and leaves it as it is
  otherwise: among equally long branches the one seen first stays.
\<close>

theorem longest_chain_rule:
  assumes "chain_inv X c" and "blocks c (hash_block X b) = None" and "height_room X c"
    and "Blockchain_insert X c b = Ret c'"
    and "chain_to X c hs (parent (head b))" and "all_blocks_in_longest_chain c = Ret old"
  shows "all_blocks_in_longest_chain c' =
    Ret (if length old < length hs + 1 then hs @ [hash_block X b] else old)"
proof -
  have ok: "insertable X c b" using assms(2) by (simp add: insertable_def)
  obtain pb pn tb tn n where p: "blocks c (parent (head b)) = Some (pb, pn)"
    and t: "blocks c (tip c) = Some (tb, tn)" and n: "unat n = Suc (unat pn)"
    and c': "blocks c' = (blocks c)(hash_block X b \<mapsto> (b, n))"
    "tip c' = (if tn < n then hash_block X b else tip c)"
    using Blockchain_insert_Ret [OF assms(4,3)] .
  have old: "chain_to X c old (tip c)" using assms(1,6) all_blocks_chain by blast
  have "length hs = Suc (unat pn)" "length old = Suc (unat tn)"
    using chain_to_height [OF assms(1)] assms(5) old p t by fastforce+
  then have longer: "tn < n \<longleftrightarrow> length old < length hs + 1"
    using n by (simp add: word_less_nat_alt)
  have inv': "chain_inv X c'" using assms(1,4) ok assms(3) by (rule chain_inv_insert)
  have ng: "hash_block X b \<noteq> genesis_hash X"
    using assms(1,2) tree_inv_genesis by (fastforce simp: chain_inv_def)
  note keep = chain_to_insert [OF assms(1,4) ok assms(3)]
  have "chain_to X c' (hs @ [hash_block X b]) (hash_block X b)"
    using chain_step [OF keep [OF assms(5)] _ ng] c'(1) by simp
  with keep [OF old] c'(2) longer show ?thesis
    using all_blocks_chain [OF inv'] by simp
qed

definition demo_block :: "u32 \<Rightarrow> H256 \<Rightarrow> SignedTransaction list \<Rightarrow> Block" where
  "demo_block n p txs =
     \<lparr>head = \<lparr>parent = p, nonce = n, difficulty = genesis_difficulty, timestamp = 0,
              merkle_root = h256_fill 0\<rparr>,
      cont = \<lparr>st = txs\<rparr>\<rparr>"

lemma demo_block_simps [simp]:
  "parent (head (demo_block n p txs)) = p"
  "difficulty (head (demo_block n p txs)) = genesis_difficulty"
  "st (cont (demo_block n p txs)) = txs"
  "hash_block (demo_crates chk) (demo_block n p txs) = pad32 [0, ucast n + 1, h256_bytes p ! 1]"
  by (simp_all add: demo_block_def hash_block_def hash_header_def demo_ser_header_def)

lemma demo_hash_block:
  "hash_block (demo_crates chk) b = pad32 [0, ucast (nonce (head b)) + 1, h256_bytes (parent (head b)) ! 1]"
  by (simp add: hash_block_def hash_header_def demo_ser_header_def)

lemma demo_genesis_hash [simp]: "hash_block (demo_crates chk) genesis = pad32 [0, 1, 0]"
  by (simp add: genesis_def hash_block_def hash_header_def demo_ser_header_def)

lemma pad32_three_eq [simp]:
  "pad32 [a, b, c] = pad32 [a', b', c'] \<longleftrightarrow> a = a' \<and> b = b' \<and> c = c'"
  by (auto dest!: arg_cong [where f = h256_bytes])

lemma demo_pow: "a < 15 \<Longrightarrow> pad32 [0, a, b] \<le> genesis_difficulty"
proof -
  have "replicate 29 (0 :: u8) = [0, 0, 0, 0, 0, 0, 0, 0, 0, 0, 0, 0, 0, 0, 0, 0, 0, 0, 0, 0, 0, 0, 0, 0, 0, 0, 0, 0, 0]"
    by (simp add: numeral_eq_Suc)
  then show "a < 15 \<Longrightarrow> pad32 [0, a, b] \<le> genesis_difficulty"
    using unat_u8_less [of b]
    by (simp add: less_eq_H256_val h256_val_def genesis_difficulty_def be_nat_def word_less_nat_alt)
qed

theorem longest_chain_rule_witness:
  "\<exists>c'. Blockchain_insert (demo_crates True) (Blockchain_new (demo_crates True))
          (demo_block 1 (pad32 [0, 1, 0]) []) = Ret c' \<and>
     all_blocks_in_longest_chain c' = Ret [pad32 [0, 1, 0], pad32 [0, 2, 1]]"
proof -
  let ?X = "demo_crates True" and ?b = "demo_block 1 (pad32 [0, 1, 0]) []"
  let ?c = "Blockchain_new ?X"
  have room: "height_room ?X ?c" by (simp add: height_room_def)
  have new: "blocks ?c (hash_block ?X ?b) = None" by (simp add: Blockchain_new_def Let_def)
  obtain c' where ins: "Blockchain_insert ?X ?c ?b = Ret c'"
    by (simp add: Blockchain_insert_def Blockchain_new_def Let_def add_checked_def)
  have par: "chain_to ?X ?c [pad32 [0, 1, 0]] (parent (head ?b))"
    using chain_root [of ?X ?c] by simp
  have old: "all_blocks_in_longest_chain ?c = Ret [pad32 [0, 1, 0]]"
    using all_blocks_chain [OF chain_inv_new, of ?X] chain_root [of ?X ?c]
    by (simp add: Blockchain_new_def Let_def)
  from ins longest_chain_rule [OF chain_inv_new new room ins par old] show ?thesis by simp
qed

text \<open>
  \<open>insert\<close> panics exactly when the parent of the block or the tip is unknown, or when
  the height overflows in a build with overflow checks.
\<close>

theorem Blockchain_insert_panics:
  "(\<exists>e. Blockchain_insert X c b = Panic e) \<longleftrightarrow>
     blocks c (parent (head b)) = None \<or> blocks c (tip c) = None \<or>
     (overflow_checks X \<and> (\<exists>pb. blocks c (parent (head b)) = Some (pb, 2 ^ 32 - 1)))"
proof -
  have max: "4294967295 \<le> unat n \<longleftrightarrow> n = 4294967295" for n :: u32
  proof
    assume "4294967295 \<le> unat n"
    moreover have "unat n < 2 ^ 32" by (rule order.strict_trans2 [OF unsigned_less]) simp
    ultimately have "unat n = unat (4294967295 :: u32)" by simp
    then show "n = 4294967295" by (simp only: word_unat_eq_iff)
  qed simp
  show ?thesis
    by (cases "blocks c (parent (head b))"; cases "blocks c (tip c)")
      (auto simp: Blockchain_insert_def add_checked_def max Let_def)
qed

end
