(* ===== verification/Node.thy ===== *)
theory Node
  imports Ledger Chain
begin

text \<open>
  The state the threads of a node share (three \<open>Arc<Mutex<..>>\<close> of \<open>src/src/main.rs\<close>),
  what a thread sends, and the contract of accepting a block: validation of its
  transactions, then insertion into the block tree. The locale \<open>block_acceptor\<close> extends
  the interface of the block tree by a validator; its lemmas are used by the network
  worker and by the miner's worker, each of which has its own copy of the validator.
\<close>

section \<open>Shared state\<close>

record Node =
  blockchain :: Blockchain
  mempool :: Mempool
  block_state :: block_states

text \<open>
  The start of a node in \<open>main\<close>: the block tree with the genesis block, the state that
  gives the ICO output to the first of the three fixed keys, an empty mempool.
  \<open>from_seed_and_public_key(..).unwrap()\<close> fails only on a seed that does not match its
  public key; on these literals it returns the key pair.
\<close>

definition all_public_keys :: "KeyPair list" where
  "all_public_keys =
     [\<lparr>seed = [0xaa, 0xc6, 0xa0, 0x37, 0x15, 0xd7, 0x53, 0xa0, 0xda, 0x99, 0x68, 0xa1, 0xab, 0x2e, 0xe7, 0x10,
              0x73, 0x95, 0x99, 0x9d, 0x92, 0xbb, 0x02, 0x8d, 0x8a, 0xf4, 0x37, 0x44, 0x47, 0x4e, 0x04, 0x01],
       public_key = [0xa7, 0x76, 0xf2, 0xf7, 0x6b, 0xa3, 0x58, 0x60, 0xd0, 0x4c, 0xfb, 0x61, 0x23, 0xdd, 0x7d, 0xd4,
              0x19, 0xf8, 0xf0, 0xdc, 0x38, 0xc6, 0xcf, 0x42, 0x2f, 0xbc, 0xd5, 0x38, 0x20, 0x81, 0x39, 0x74]\<rparr>,
      \<lparr>seed = [0x7f, 0xa1, 0x54, 0x4a, 0x36, 0x14, 0xbf, 0x76, 0xfe, 0x63, 0x67, 0x17, 0x81, 0xc6, 0x49, 0x0e,
              0x21, 0xa9, 0x7e, 0xd2, 0x12, 0x43, 0x71, 0x08, 0x7b, 0x62, 0x45, 0xaa, 0xb4, 0x72, 0xdc, 0xc6],
       public_key = [0xbd, 0x74, 0x20, 0x3c, 0x7a, 0x28, 0xd7, 0xde, 0x63, 0xe0, 0x2e, 0x4b, 0xdb, 0x7c, 0xba, 0x4f,
              0xe0, 0x33, 0x45, 0x6e, 0xfc, 0xe8, 0x62, 0x48, 0x1e, 0xdf, 0x65, 0xf2, 0x33, 0xc0, 0x67, 0xcc]\<rparr>,
      \<lparr>seed = [0xe8, 0x58, 0xbc, 0xc3, 0x13, 0x8b, 0x3c, 0x7d, 0x95, 0x2c, 0x17, 0x47, 0xbb, 0xa1, 0x8c, 0xf2,
              0x7f, 0x86, 0x07, 0xe7, 0xba, 0xe5, 0xc7, 0x95, 0x2b, 0x5a, 0x49, 0x4d, 0xf1, 0x6a, 0x82, 0x53],
       public_key = [0x25, 0x81, 0xc9, 0xf5, 0x1b, 0x37, 0x40, 0xdd, 0x7c, 0xac, 0xbb, 0x69, 0x1e, 0x41, 0x98, 0x95,
              0x05, 0xdf, 0x86, 0xe0, 0xa2, 0x2d, 0x93, 0xcb, 0xd9, 0xf5, 0x27, 0xc4, 0x3b, 0xd7, 0x02, 0xd6]\<rparr>]"

definition init_node :: "Crates \<Rightarrow> Node" where
  "init_node X =
     (let chain = Blockchain_new X;
          initial_state = State_new X (all_public_keys ! 0)
      in \<lparr>blockchain = chain, mempool = Mempool_new,
          block_state = [Blockchain_tip chain \<mapsto> initial_state]\<rparr>)"

lemma init_node_simps [simp]:
  "blockchain (init_node X) = Blockchain_new X"
  "mempool (init_node X) = Mempool_new"
  "block_state (init_node X) = [genesis_hash X \<mapsto> State_new X (all_public_keys ! 0)]"
  by (simp_all add: init_node_def Blockchain_tip_def Blockchain_new_def Let_def)

text \<open>What a handler sends: replies to the peer of the message, broadcasts to all peers.\<close>

datatype action =
    Reply Message
  | Broadcast Message

text \<open>The mempool is keyed by transaction hash.\<close>

definition mempool_keyed :: "Crates \<Rightarrow> Mempool \<Rightarrow> bool" where
  "mempool_keyed X mp \<longleftrightarrow> (\<forall>h t. trans mp h = Some t \<longrightarrow> hash_stx X t = h)"

section \<open>Accepting a block\<close>

locale block_acceptor =
  chain_store contains put tip_of hash_of parent_of chk
  for contains :: "'c \<Rightarrow> 'h \<Rightarrow> bool" and put :: "'c \<Rightarrow> 'b \<Rightarrow> 'c res"
    and tip_of :: "'c \<Rightarrow> 'h" and hash_of :: "'b \<Rightarrow> 'h" and parent_of :: "'b \<Rightarrow> 'h" and chk :: bool +
  fixes check :: "'s \<Rightarrow> 'b \<Rightarrow> (bool \<times> 's) res"
    and known :: "'s \<Rightarrow> 'h \<Rightarrow> bool"
  assumes check_panic: "known s (parent_of b) \<Longrightarrow> only_overflow chk (check s b)"
    and check_known: "check s b = Ret (ok, s') \<Longrightarrow> known s' h \<longleftrightarrow> known s h \<or> ok \<and> h = hash_of b"
begin

text \<open>The tree and the recorded states agree: every block of the tree has its state.\<close>

definition synced :: "'c \<Rightarrow> 's \<Rightarrow> bool" where
  "synced c s \<longleftrightarrow> contains c (tip_of c) \<and> (\<forall>h. contains c h \<longrightarrow> known s h)"

definition accept :: "'c \<Rightarrow> 's \<Rightarrow> 'b \<Rightarrow> (bool \<times> 'c \<times> 's) res" where
  "accept c s b =
     bind_res (check s b) (\<lambda>(ok, s').
       if ok then bind_res (put c b) (\<lambda>c'. Ret (True, c', s')) else Ret (False, c, s'))"

lemma accept_panic:
  "synced c s \<Longrightarrow> contains c (parent_of b) \<Longrightarrow> only_overflow chk (accept c s b)"
  unfolding accept_def synced_def
  by (auto intro!: only_overflow_intros check_panic put_panic)

lemma accept_synced: "synced c s \<Longrightarrow> accept c s b = Ret (ok, c', s') \<Longrightarrow> synced c' s'"
  unfolding accept_def synced_def
  by (auto simp: res_simps check_known put_contains split: if_splits prod.splits)
    (metis put_tip)

lemma accept_contains:
  "accept c s b = Ret (ok, c', s') \<Longrightarrow> contains c' h \<longleftrightarrow> contains c h \<or> ok \<and> h = hash_of b"
  unfolding accept_def by (auto simp: res_simps put_contains split: if_splits prod.splits)

lemma accept_rejected:
  "accept c s b = Ret (False, c', s') \<Longrightarrow> c' = c \<and> (known s' h \<longleftrightarrow> known s h)"
  unfolding accept_def by (auto simp: res_simps check_known split: if_splits prod.splits)

end

text \<open>The validator of the network worker satisfies the contract.\<close>

definition state_known :: "block_states \<Rightarrow> H256 \<Rightarrow> bool" where
  "state_known bs h \<longleftrightarrow> bs h \<noteq> None"

lemma check_tx_state_known:
  "check_tx_state X bs p txs h = Ret (ok, bs') \<Longrightarrow>
     state_known bs' k \<longleftrightarrow> state_known bs k \<or> ok \<and> k = h"
  by (auto simp: check_tx_state_def state_known_def res_simps split: option.splits if_splits)

lemma only_overflow_check_tx_state:
  "state_known bs p \<Longrightarrow> only_overflow (overflow_checks X) (check_tx_state X bs p txs h)"
  by (auto simp: check_tx_state_def state_known_def intro!: only_overflow_intros split: option.splits)

interpretation nw: block_acceptor contains_block "Blockchain_insert X" tip "hash_block X"
  "\<lambda>b. parent (head b)" "overflow_checks X"
  "\<lambda>bs b. check_tx_state X bs (parent (head b)) (st (cont b)) (hash_block X b)" state_known
  for X
  by unfold_locales (rule only_overflow_check_tx_state, assumption, erule check_tx_state_known)

end
