(* ===== verification/NetWorker.thy ===== *)
theory NetWorker
  imports Node
begin

text \<open>
  \<open>src/src/network/worker.rs\<close>: the message handler of a network worker thread, one
  definition per message and per loop. A handler takes the shared node, the thread's
  orphan buffer and the message, and returns the new node, the new buffer and the messages
  written to the peer and broadcast, in order. Each handler is one step here: between
  its lock acquisitions nothing else runs (theories \<open>Races\<close> and \<open>Locks\<close> take them apart).
\<close>

section \<open>The program\<close>

definition handle_Ping :: "string \<Rightarrow> action list" where
  "handle_Ping n = [Reply (Pong n)]"

definition handle_NewBlockHashes :: "Node \<Rightarrow> H256 list \<Rightarrow> action list" where
  "handle_NewBlockHashes nd hashes =
     (let chain = blockchain nd;
          block_hashes = filter (\<lambda>hash. blocks chain hash = None) hashes
      in if 0 < length block_hashes then [Reply (GetBlocks block_hashes)] else [])"

text \<open>The loop that collects the requested items and stops at the first unknown hash.\<close>

fun collect_known :: "(H256 \<rightharpoonup> 'a) \<Rightarrow> H256 list \<Rightarrow> 'a list \<Rightarrow> bool \<times> 'a list" where
  "collect_known m [] acc = (True, acc)"
| "collect_known m (hash # hashes) acc =
     (case m hash of
        Some x \<Rightarrow> collect_known m hashes (acc @ [x])
      | None \<Rightarrow> (False, acc))"

definition handle_GetBlocks :: "Node \<Rightarrow> H256 list \<Rightarrow> action list" where
  "handle_GetBlocks nd block_hashes =
     (let chain = blockchain nd;
          (has_blocks, bs) = collect_known (\<lambda>h. map_option fst (blocks chain h)) block_hashes []
      in if has_blocks then [Reply (Blocks bs)] else [])"

text \<open>\<open>if self.check_tx_state(..)\<close> followed by the insertion into the tree.\<close>

definition accept_block :: "Crates \<Rightarrow> Node \<Rightarrow> Block \<Rightarrow> H256 \<Rightarrow> (bool \<times> Node) res" where
  "accept_block X nd block block_hash =
     bind_res (check_tx_state X (block_state nd) (parent (head block)) (st (cont block)) block_hash)
       (\<lambda>(ok, bs).
          let nd = nd\<lparr>block_state := bs\<rparr>
          in if ok then bind_res (Blockchain_insert X (blockchain nd) block)
                          (\<lambda>c. Ret (True, nd\<lparr>blockchain := c\<rparr>))
             else Ret (False, nd))"

text \<open>
  The inner loop over the orphan buffer for \<open>new_blocks[n]\<close>: an orphan below that block
  leaves the buffer and is accepted if its difficulty is the parent's.
\<close>

function unorphan_loop ::
  "Crates \<Rightarrow> nat \<Rightarrow> nat \<Rightarrow> Node \<Rightarrow> Block list \<Rightarrow> H256 list \<Rightarrow> (Node \<times> Block list \<times> H256 list) res"
  where
  "unorphan_loop X n i nd orphans new_blocks =
     (if length orphans \<le> i then Ret (nd, orphans, new_blocks)
      else if parent (head (orphans ! i)) = new_blocks ! n
      then let b = orphans ! i;
               orphans' = remove_at i orphans
           in bind_res (unwrap (blocks (blockchain nd) (new_blocks ! n))) (\<lambda>e.
              if difficulty (head b) = difficulty (head (fst e))
              then let h = hash_block X b
                   in bind_res (accept_block X nd b h) (\<lambda>r.
                      unorphan_loop X n i (snd r) orphans'
                        (if fst r then new_blocks @ [h] else new_blocks))
              else unorphan_loop X n i nd orphans' new_blocks)
      else unorphan_loop X n (i + 1) nd orphans new_blocks)"
  by pat_completeness auto
termination
  by (relation "measure (\<lambda>(X, n, i, nd, orphans, new_blocks). length orphans - i)") auto

declare unorphan_loop.simps [simp del]

text \<open>What a returning run of the loop did: an induction rule with one case per branch.\<close>

lemma unorphan_induct [consumes 1, case_names finished skip drop accept]:
  assumes "unorphan_loop X n i nd orphans nb = Ret r"
    and finished: "\<And>i nd orphans nb. length orphans \<le> i \<Longrightarrow> P i nd orphans nb (nd, orphans, nb)"
    and skip: "\<And>i nd orphans nb r. i < length orphans \<Longrightarrow> parent (head (orphans ! i)) \<noteq> nb ! n \<Longrightarrow>
      P (i + 1) nd orphans nb r \<Longrightarrow> P i nd orphans nb r"
    and drop: "\<And>i nd orphans nb r e. i < length orphans \<Longrightarrow> parent (head (orphans ! i)) = nb ! n \<Longrightarrow>
      blocks (blockchain nd) (nb ! n) = Some e \<Longrightarrow>
      difficulty (head (orphans ! i)) \<noteq> difficulty (head (fst e)) \<Longrightarrow>
      P i nd (remove_at i orphans) nb r \<Longrightarrow> P i nd orphans nb r"
    and accept: "\<And>i nd orphans nb r e ok nd1. i < length orphans \<Longrightarrow>
      parent (head (orphans ! i)) = nb ! n \<Longrightarrow> blocks (blockchain nd) (nb ! n) = Some e \<Longrightarrow>
      difficulty (head (orphans ! i)) = difficulty (head (fst e)) \<Longrightarrow>
      accept_block X nd (orphans ! i) (hash_block X (orphans ! i)) = Ret (ok, nd1) \<Longrightarrow>
      P i nd1 (remove_at i orphans) (if ok then nb @ [hash_block X (orphans ! i)] else nb) r \<Longrightarrow>
      P i nd orphans nb r"
  shows "P i nd orphans nb r"
  using assms(1)
proof (induction "length orphans - i" arbitrary: i nd orphans nb rule: less_induct)
  case less
  note ret = less.prems and IH = less.hyps
  show ?case
  proof (cases "length orphans \<le> i")
    case True
    with ret have "r = (nd, orphans, nb)" by (simp add: unorphan_loop.simps)
    with finished [OF True] show ?thesis by blast
  next
    case i: False
    then have i': "i < length orphans" by simp
    show ?thesis
    proof (cases "parent (head (orphans ! i)) = nb ! n")
      case False
      with i ret have "unorphan_loop X n (i + 1) nd orphans nb = Ret r"
        by (simp add: unorphan_loop.simps [of X n i nd orphans])
      moreover have "length orphans - (i + 1) < length orphans - i" using i' by arith
      ultimately show ?thesis using skip [OF i' False] IH by blast
    next
      case hit: True
      have less: "length (remove_at i orphans) - i < length orphans - i"
        using i' by (simp add: less_diff_conv)
      from ret i hit obtain e where e: "blocks (blockchain nd) (nb ! n) = Some e"
        by (auto simp: unorphan_loop.simps [of X n i nd orphans] Let_def res_simps)
      show ?thesis
      proof (cases "difficulty (head (orphans ! i)) = difficulty (head (fst e))")
        case True
        with ret i hit e obtain ok nd1 where
          a: "accept_block X nd (orphans ! i) (hash_block X (orphans ! i)) = Ret (ok, nd1)" and
          l: "unorphan_loop X n i nd1 (remove_at i orphans)
             (if ok then nb @ [hash_block X (orphans ! i)] else nb) = Ret r"
          by (auto simp: unorphan_loop.simps [of X n i nd orphans] Let_def res_simps)
        from accept [OF i' hit e True a IH [OF less l]] show ?thesis .
      next
        case False
        with ret i hit e have l: "unorphan_loop X n i nd (remove_at i orphans) nb = Ret r"
          by (simp add: unorphan_loop.simps [of X n i nd orphans] Let_def)
        from drop [OF i' hit e False IH [OF less l]] show ?thesis .
      qed
    qed
  qed
qed

text \<open>An accepted orphan leaves the buffer, so the loop over \<open>new_blocks\<close> ends.\<close>

lemma unorphan_loop_length:
  assumes "unorphan_loop X n i nd orphans nb = Ret (nd', orphans', nb')"
  shows "length orphans' + length nb' \<le> length orphans + length nb"
proof -
  have "length (fst (snd r)) + length (snd (snd r)) \<le> length orphans + length nb"
    if "unorphan_loop X n i nd orphans nb = Ret r" for r
    using that by (induction rule: unorphan_induct) (auto split: if_splits)
  from this [OF assms] show ?thesis by simp
qed

function new_blocks_loop ::
  "Crates \<Rightarrow> nat \<Rightarrow> Node \<Rightarrow> Block list \<Rightarrow> H256 list \<Rightarrow> (nat \<times> Node \<times> Block list \<times> H256 list) res"
  where
  "new_blocks_loop X n nd orphans new_blocks =
     (if length new_blocks \<le> n then Ret (n, nd, orphans, new_blocks)
      else bind_res (unorphan_loop X n 0 nd orphans new_blocks) (\<lambda>r.
           new_blocks_loop X (n + 1) (fst r) (fst (snd r)) (snd (snd r))))"
  by pat_completeness auto
termination
  by (relation "measure (\<lambda>(X, n, nd, orphans, new_blocks). length orphans + length new_blocks - n)")
    (auto dest!: unorphan_loop_length)

declare new_blocks_loop.simps [simp del]

text \<open>The variables of the loop over the blocks of a \<open>Blocks\<close> message.\<close>

record BlocksLoop =
  bl_node :: Node
  bl_orphans :: "Block list"
  bl_new :: "H256 list"
  bl_n :: nat
  bl_out :: "action list"

definition process_block :: "Crates \<Rightarrow> Block \<Rightarrow> BlocksLoop \<Rightarrow> BlocksLoop res" where
  "process_block X block s =
     (let nd = bl_node s;
          block_hash = hash_block X block;
          parent_hash = parent (head block)
      in if block_hash \<le> difficulty (head block)
         then if blocks (blockchain nd) block_hash = None
              then case blocks (blockchain nd) parent_hash of
                     Some (pb, _) \<Rightarrow>
                       bind_res
                         (if difficulty (head block) = difficulty (head pb)
                          then bind_res (accept_block X nd block block_hash) (\<lambda>r.
                                 Ret (snd r, if fst r then bl_new s @ [block_hash] else bl_new s))
                          else Ret (nd, bl_new s))
                         (\<lambda>r1.
                       bind_res (new_blocks_loop X (bl_n s) (fst r1) (bl_orphans s) (snd r1)) (\<lambda>r2.
                         Ret (s\<lparr>bl_n := fst r2, bl_node := fst (snd r2),
                                bl_orphans := fst (snd (snd r2)), bl_new := snd (snd (snd r2))\<rparr>)))
                   | None \<Rightarrow>
                       Ret (s\<lparr>bl_orphans := bl_orphans s @ [block],
                              bl_out := bl_out s @ [Reply (GetBlocks [parent_hash])]\<rparr>)
              else Ret s
         else Ret s)"

fun process_blocks :: "Crates \<Rightarrow> Block list \<Rightarrow> BlocksLoop \<Rightarrow> BlocksLoop res" where
  "process_blocks X [] s = Ret s"
| "process_blocks X (block # bs) s = bind_res (process_block X block s) (process_blocks X bs)"

definition handle_Blocks ::
  "Crates \<Rightarrow> Node \<Rightarrow> Block list \<Rightarrow> Block list \<Rightarrow> (Node \<times> Block list \<times> action list) res" where
  "handle_Blocks X nd orphans bs =
     bind_res (process_blocks X bs
                 \<lparr>bl_node = nd, bl_orphans = orphans, bl_new = [], bl_n = 0, bl_out = []\<rparr>) (\<lambda>s.
       Ret (bl_node s, bl_orphans s,
            bl_out s @ (if 0 < length (bl_new s) then [Broadcast (NewBlockHashes (bl_new s))] else [])))"

text \<open>The hashes are collected and then dropped: the arm neither replies nor requests.\<close>

definition handle_NewTransactionHashes :: "Node \<Rightarrow> H256 list \<Rightarrow> action list" where
  "handle_NewTransactionHashes nd hashes =
     (let new_trans_hashes = filter (\<lambda>_. True) hashes in [])"

definition handle_GetTransactions :: "Node \<Rightarrow> H256 list \<Rightarrow> action list" where
  "handle_GetTransactions nd transaction_hashes =
     (let (has_trans, ts) = collect_known (trans (mempool nd)) transaction_hashes []
      in if has_trans then [Reply (Transactions ts)] else [])"

fun process_transactions ::
  "Crates \<Rightarrow> Mempool \<Rightarrow> SignedTransaction list \<Rightarrow> H256 list \<Rightarrow> Mempool \<times> H256 list" where
  "process_transactions X mp [] new_trans = (mp, new_trans)"
| "process_transactions X mp (t # ts) new_trans =
     (if \<not> verify_tx X (transaction t) (public_key_vector t) (signature_vector t)
      then process_transactions X mp ts new_trans
      else let h = hash_stx X t
           in if trans mp h = None
              then process_transactions X (mp\<lparr>trans := (trans mp)(h \<mapsto> t)\<rparr>) ts (new_trans @ [h])
              else process_transactions X mp ts new_trans)"

definition handle_Transactions ::
  "Crates \<Rightarrow> Node \<Rightarrow> SignedTransaction list \<Rightarrow> Node \<times> action list" where
  "handle_Transactions X nd ts =
     (let (mp, new_trans) = process_transactions X (mempool nd) ts []
      in (nd\<lparr>mempool := mp\<rparr>,
          if 0 < length new_trans then [Broadcast (NewTransactionHashes new_trans)] else []))"

text \<open>The \<open>match\<close> of \<open>worker_loop\<close>.\<close>

fun handle_message ::
  "Crates \<Rightarrow> Node \<Rightarrow> Block list \<Rightarrow> Message \<Rightarrow> (Node \<times> Block list \<times> action list) res" where
  "handle_message X nd orphans (Ping n) = Ret (nd, orphans, handle_Ping n)"
| "handle_message X nd orphans (Pong n) = Ret (nd, orphans, [])"
| "handle_message X nd orphans (NewBlockHashes hs) = Ret (nd, orphans, handle_NewBlockHashes nd hs)"
| "handle_message X nd orphans (GetBlocks hs) = Ret (nd, orphans, handle_GetBlocks nd hs)"
| "handle_message X nd orphans (Blocks bs) = handle_Blocks X nd orphans bs"
| "handle_message X nd orphans (NewTransactionHashes hs) =
     Ret (nd, orphans, handle_NewTransactionHashes nd hs)"
| "handle_message X nd orphans (GetTransactions hs) =
     Ret (nd, orphans, handle_GetTransactions nd hs)"
| "handle_message X nd orphans (Transactions ts) =
     (let (nd', out) = handle_Transactions X nd ts in Ret (nd', orphans, out))"

text \<open>
  One turn of \<open>worker_loop\<close>: the bytes from the channel are decoded with
  \<open>deserialize(..).unwrap()\<close>.
\<close>

definition worker_step ::
  "Crates \<Rightarrow> Node \<Rightarrow> Block list \<Rightarrow> u8 list \<Rightarrow> (Node \<times> Block list \<times> action list) res" where
  "worker_step X nd orphans raw =
     (case deserialize_msg X raw of
        None \<Rightarrow> Panic UnwrapErr
      | Some msg \<Rightarrow> handle_message X nd orphans msg)"

text \<open>The loop over the messages of the channel, until it is closed.\<close>

fun worker_loop ::
  "Crates \<Rightarrow> Node \<Rightarrow> Block list \<Rightarrow> u8 list list \<Rightarrow> (Node \<times> Block list \<times> action list) res" where
  "worker_loop X nd orphans [] = Ret (nd, orphans, [])"
| "worker_loop X nd orphans (raw # raws) =
     bind_res (worker_step X nd orphans raw) (\<lambda>r.
     bind_res (worker_loop X (fst r) (fst (snd r)) raws) (\<lambda>r'.
       Ret (fst r', fst (snd r'), snd (snd r) @ snd (snd r'))))"

section \<open>The steps of block processing\<close>

text \<open>
  Everything a \<open>Blocks\<close> message does to the node, the orphan buffer and the list of new
  blocks is a sequence of these steps. \<open>new_accept\<close> and \<open>new_reject\<close> concern a block
  of the message, \<open>orphan_push\<close> puts it into the buffer, and the last three take an
  orphan out of it.
\<close>

inductive block_step ::
  "Crates \<Rightarrow> Block set \<Rightarrow> Node \<times> Block list \<times> H256 list \<Rightarrow>
     Node \<times> Block list \<times> H256 list \<Rightarrow> bool" for X B where
  new_accept: "b \<in> B \<Longrightarrow> hash_block X b \<le> difficulty (head b) \<Longrightarrow> blocks (blockchain nd) (hash_block X b) = None \<Longrightarrow>
     blocks (blockchain nd) (parent (head b)) = Some (pb, pn) \<Longrightarrow>
     difficulty (head b) = difficulty (head pb) \<Longrightarrow>
     accept_block X nd b (hash_block X b) = Ret (True, nd') \<Longrightarrow>
     block_step X B (nd, os, nb) (nd', os, nb @ [hash_block X b])"
| new_reject: "blocks (blockchain nd) (parent (head b)) = Some (pb, pn) \<Longrightarrow>
     accept_block X nd b (hash_block X b) = Ret (False, nd') \<Longrightarrow>
     block_step X B (nd, os, nb) (nd', os, nb)"
| orphan_push: "b \<in> B \<Longrightarrow> hash_block X b \<le> difficulty (head b) \<Longrightarrow> blocks (blockchain nd) (hash_block X b) = None \<Longrightarrow>
     blocks (blockchain nd) (parent (head b)) = None \<Longrightarrow>
     block_step X B (nd, os, nb) (nd, os @ [b], nb)"
| orphan_drop: "i < length os \<Longrightarrow>
     blocks (blockchain nd) (parent (head (os ! i))) = Some (pb, pn) \<Longrightarrow>
     difficulty (head (os ! i)) \<noteq> difficulty (head pb) \<Longrightarrow>
     block_step X B (nd, os, nb) (nd, remove_at i os, nb)"
| orphan_accept: "i < length os \<Longrightarrow>
     blocks (blockchain nd) (parent (head (os ! i))) = Some (pb, pn) \<Longrightarrow>
     difficulty (head (os ! i)) = difficulty (head pb) \<Longrightarrow>
     accept_block X nd (os ! i) (hash_block X (os ! i)) = Ret (True, nd') \<Longrightarrow>
     block_step X B (nd, os, nb) (nd', remove_at i os, nb @ [hash_block X (os ! i)])"
| orphan_reject: "i < length os \<Longrightarrow>
     blocks (blockchain nd) (parent (head (os ! i))) = Some (pb, pn) \<Longrightarrow>
     accept_block X nd (os ! i) (hash_block X (os ! i)) = Ret (False, nd') \<Longrightarrow>
     block_step X B (nd, os, nb) (nd', remove_at i os, nb)"

abbreviation block_steps ::
  "Crates \<Rightarrow> Block set \<Rightarrow> Node \<times> Block list \<times> H256 list \<Rightarrow>
     Node \<times> Block list \<times> H256 list \<Rightarrow> bool" where
  "block_steps X B \<equiv> (block_step X B)\<^sup>*\<^sup>*"

lemma unorphan_loop_steps:
  assumes "unorphan_loop X n i nd os nb = Ret r"
  shows "block_steps X B (nd, os, nb) r"
  using assms
proof (induction rule: unorphan_induct)
  case (drop i nd os nb r e)
  then obtain pb pn where "blocks (blockchain nd) (parent (head (os ! i))) = Some (pb, pn)"
    "difficulty (head (os ! i)) \<noteq> difficulty (head pb)" by (cases e) auto
  with drop.hyps(1) have "block_step X B (nd, os, nb) (nd, remove_at i os, nb)"
    by (rule orphan_drop)
  from converse_rtranclp_into_rtranclp [OF this drop.IH] show ?case .
next
  case (accept i nd os nb r e ok nd1)
  then obtain pb pn where "blocks (blockchain nd) (parent (head (os ! i))) = Some (pb, pn)"
    "difficulty (head (os ! i)) = difficulty (head pb)" by (cases e) auto
  with accept.hyps(1,5) have "block_step X B (nd, os, nb)
      (nd1, remove_at i os, if ok then nb @ [hash_block X (os ! i)] else nb)"
    using orphan_accept [of i os nd pb pn X nd1 B nb] orphan_reject [of i os nd pb pn X nd1 B nb]
    by (cases ok) simp_all
  from converse_rtranclp_into_rtranclp [OF this accept.IH] show ?case .
qed simp_all

lemma new_blocks_loop_steps:
  "new_blocks_loop X n nd os nb = Ret r \<Longrightarrow> block_steps X B (nd, os, nb) (snd r)"
proof (induction X n nd os nb rule: new_blocks_loop.induct)
  case (1 X n nd os nb)
  show ?case
  proof (cases "length nb \<le> n")
    case True
    with "1.prems" show ?thesis by (auto simp: new_blocks_loop.simps)
  next
    case False
    with "1.prems" obtain r1 where
      u: "unorphan_loop X n 0 nd os nb = Ret r1" and
      l: "new_blocks_loop X (n + 1) (fst r1) (fst (snd r1)) (snd (snd r1)) = Ret r"
      by (auto simp: new_blocks_loop.simps [of X n nd] res_simps)
    from unorphan_loop_steps [OF u] have "block_steps X B (nd, os, nb) (fst r1, fst (snd r1), snd (snd r1))"
      by simp
    also from "1.IH" [OF False u l] have "block_steps X B (fst r1, fst (snd r1), snd (snd r1)) (snd r)" .
    finally show ?thesis .
  qed
qed

abbreviation loop_state :: "BlocksLoop \<Rightarrow> Node \<times> Block list \<times> H256 list" where
  "loop_state s \<equiv> (bl_node s, bl_orphans s, bl_new s)"

text \<open>The four ways one turn of the loop over the message's blocks can go.\<close>

lemma process_block_cases [consumes 1, case_names ignored orphaned wrong_difficulty checked]:
  assumes "process_block X b s = Ret s'"
  obtains (ignored) "s' = s"
      "\<not> hash_block X b \<le> difficulty (head b) \<or> blocks (blockchain (bl_node s)) (hash_block X b) \<noteq> None"
  | (orphaned) "hash_block X b \<le> difficulty (head b)"
      "blocks (blockchain (bl_node s)) (hash_block X b) = None"
      "blocks (blockchain (bl_node s)) (parent (head b)) = None"
      "s' = s\<lparr>bl_orphans := bl_orphans s @ [b], bl_out := bl_out s @ [Reply (GetBlocks [parent (head b)])]\<rparr>"
  | (wrong_difficulty) pb pn n' nd' os' nb' where
      "blocks (blockchain (bl_node s)) (parent (head b)) = Some (pb, pn)"
      "difficulty (head b) \<noteq> difficulty (head pb)"
      "new_blocks_loop X (bl_n s) (bl_node s) (bl_orphans s) (bl_new s) = Ret (n', nd', os', nb')"
      "s' = s\<lparr>bl_n := n', bl_node := nd', bl_orphans := os', bl_new := nb'\<rparr>"
      "hash_block X b \<le> difficulty (head b)"
      "blocks (blockchain (bl_node s)) (hash_block X b) = None"
  | (checked) pb pn ok nd1 n' nd' os' nb' where
      "hash_block X b \<le> difficulty (head b)"
      "blocks (blockchain (bl_node s)) (hash_block X b) = None"
      "blocks (blockchain (bl_node s)) (parent (head b)) = Some (pb, pn)"
      "difficulty (head b) = difficulty (head pb)"
      "accept_block X (bl_node s) b (hash_block X b) = Ret (ok, nd1)"
      "new_blocks_loop X (bl_n s) nd1 (bl_orphans s)
         (if ok then bl_new s @ [hash_block X b] else bl_new s) = Ret (n', nd', os', nb')"
      "s' = s\<lparr>bl_n := n', bl_node := nd', bl_orphans := os', bl_new := nb'\<rparr>"
proof (cases "hash_block X b \<le> difficulty (head b) \<and> blocks (blockchain (bl_node s)) (hash_block X b) = None")
  case False
  with assms have "s' = s" by (auto simp: process_block_def Let_def split: if_splits)
  with False show ?thesis by (intro ignored) auto
next
  case True
  show ?thesis
  proof (cases "blocks (blockchain (bl_node s)) (parent (head b))")
    case None
    with assms True show ?thesis by (intro orphaned) (auto simp: process_block_def Let_def)
  next
    case (Some e)
    then obtain pb pn where e: "blocks (blockchain (bl_node s)) (parent (head b)) = Some (pb, pn)"
      by (cases e) auto
    show ?thesis
    proof (cases "difficulty (head b) = difficulty (head pb)")
      case False
      with assms True e show ?thesis
        by (auto simp: process_block_def Let_def res_simps intro!: wrong_difficulty)
    next
      case eq: True
      with assms True e obtain ok nd1 n' nd' os' nb' where
        "accept_block X (bl_node s) b (hash_block X b) = Ret (ok, nd1)"
        "new_blocks_loop X (bl_n s) nd1 (bl_orphans s)
           (if ok then bl_new s @ [hash_block X b] else bl_new s) = Ret (n', nd', os', nb')"
        "s' = s\<lparr>bl_n := n', bl_node := nd', bl_orphans := os', bl_new := nb'\<rparr>"
        by (auto simp: process_block_def Let_def res_simps)
      with True e eq show ?thesis by (intro checked) auto
    qed
  qed
qed

lemma process_block_steps:
  assumes "process_block X b s = Ret s'" and "b \<in> B"
  shows "block_steps X B (loop_state s) (loop_state s')"
  using assms(1)
proof (cases rule: process_block_cases)
  case orphaned
  with assms(2) show ?thesis by (auto intro!: r_into_rtranclp orphan_push)
next
  case (wrong_difficulty pb pn n' nd' os' nb')
  from new_blocks_loop_steps [OF this(3)] this(4) show ?thesis by simp
next
  case (checked pb pn ok nd1 n' nd' os' nb')
  have "block_step X B (loop_state s) (nd1, bl_orphans s, if ok then bl_new s @ [hash_block X b] else bl_new s)"
    using new_accept [OF assms(2) checked(1-4)] new_reject [OF checked(3)] checked(5)
    by (cases ok) simp_all
  with new_blocks_loop_steps [OF checked(6)] show ?thesis
    by (simp add: checked(7) converse_rtranclp_into_rtranclp)
qed simp

lemma process_blocks_steps:
  "process_blocks X bs s = Ret s' \<Longrightarrow> set bs \<subseteq> B \<Longrightarrow> block_steps X B (loop_state s) (loop_state s')"
proof (induction bs arbitrary: s)
  case (Cons b bs)
  from Cons.prems(1) obtain s1 where s1: "process_block X b s = Ret s1" "process_blocks X bs s1 = Ret s'"
    by (auto simp: res_simps)
  from Cons.prems(2) have B: "b \<in> B" "set bs \<subseteq> B" by auto
  from process_block_steps [OF s1(1) B(1)] Cons.IH [OF s1(2) B(2)] show ?case
    by (rule rtranclp_trans)
qed simp

lemma handle_Blocks_steps:
  assumes "handle_Blocks X nd os bs = Ret (nd', os', out)"
  obtains nb where "block_steps X (set bs) (nd, os, []) (nd', os', nb)"
proof -
  from assms obtain s where s: "process_blocks X bs
      \<lparr>bl_node = nd, bl_orphans = os, bl_new = [], bl_n = 0, bl_out = []\<rparr> = Ret s"
    "nd' = bl_node s" "os' = bl_orphans s"
    by (auto simp: handle_Blocks_def res_simps)
  from process_blocks_steps [OF s(1) order_refl] s(2,3) show ?thesis by (intro that) simp
qed

end
