(* ===== verification/WorkerInv.thy ===== *)
theory WorkerInv
  imports NetWorker
begin

text \<open>
  Invariants of the network worker: the tree and the recorded states agree, the tree only
  grows, the hashes collected in \<open>new_blocks\<close> are in it; so no \<open>unwrap\<close> of a handler
  fails.
\<close>

section \<open>Accepting a block\<close>

lemma accept_block_acceptor:
  "accept_block X nd b (hash_block X b) =
     bind_res (nw.accept X (blockchain nd) (block_state nd) b)
       (\<lambda>(ok, c, bs). Ret (ok, nd\<lparr>blockchain := c, block_state := bs\<rparr>))"
proof (cases "check_tx_state X (block_state nd) (parent (head b)) (st (cont b)) (hash_block X b)")
  case (Ret r)
  then show ?thesis
    by (cases r; cases "Blockchain_insert X (blockchain nd) b")
      (auto simp: accept_block_def nw.accept_def)
qed (simp add: accept_block_def nw.accept_def)

definition node_safe :: "Node \<Rightarrow> bool" where
  "node_safe nd \<longleftrightarrow> nw.synced (blockchain nd) (block_state nd)"

lemma node_safe_iff:
  "node_safe nd \<longleftrightarrow> blocks (blockchain nd) (tip (blockchain nd)) \<noteq> None \<and>
     (\<forall>h. blocks (blockchain nd) h \<noteq> None \<longrightarrow> block_state nd h \<noteq> None)"
  by (simp add: node_safe_def nw.synced_def contains_block_def state_known_def)

lemma accept_block_panic:
  "node_safe nd \<Longrightarrow> blocks (blockchain nd) (parent (head b)) \<noteq> None \<Longrightarrow>
     only_overflow (overflow_checks X) (accept_block X nd b (hash_block X b))"
  unfolding accept_block_acceptor node_safe_def
  by (auto intro!: only_overflow_intros nw.accept_panic simp: contains_block_def)

lemma accept_block_Ret:
  assumes "accept_block X nd b (hash_block X b) = Ret (ok, nd')"
  shows "node_safe nd \<Longrightarrow> node_safe nd'"
    and "blocks (blockchain nd') h \<noteq> None \<longleftrightarrow>
      blocks (blockchain nd) h \<noteq> None \<or> ok \<and> h = hash_block X b"
    and "mempool nd' = mempool nd"
proof -
  from assms obtain c bs where a: "nw.accept X (blockchain nd) (block_state nd) b = Ret (ok, c, bs)"
    and nd': "nd' = nd\<lparr>blockchain := c, block_state := bs\<rparr>"
    by (auto simp: accept_block_acceptor res_simps)
  from nw.accept_synced [OF _ a] show "node_safe nd \<Longrightarrow> node_safe nd'"
    by (simp add: node_safe_def nd')
  from nw.accept_contains [OF a, of h] show "blocks (blockchain nd') h \<noteq> None \<longleftrightarrow>
      blocks (blockchain nd) h \<noteq> None \<or> ok \<and> h = hash_block X b"
    by (simp add: contains_block_def nd')
  show "mempool nd' = mempool nd" by (simp add: nd')
qed

text \<open>What acceptance and rejection do to the node, in terms of the components.\<close>

lemma accept_block_accepted:
  assumes "accept_block X nd b (hash_block X b) = Ret (True, nd')"
  obtains c s s' where "Blockchain_insert X (blockchain nd) b = Ret c"
    "block_state nd (parent (head b)) = Some s" "check_txs X s (st (cont b)) = Ret (Some s')"
    "nd' = nd\<lparr>block_state := (block_state nd)(hash_block X b \<mapsto> s'), blockchain := c\<rparr>"
  using assms
  by (auto simp: accept_block_def check_tx_state_def res_simps split: option.splits)

lemma accept_block_rejected:
  "accept_block X nd b h = Ret (False, nd') \<Longrightarrow> nd' = nd"
  by (auto simp: accept_block_def check_tx_state_def res_simps Let_def split: option.splits if_splits)

section \<open>Invariants of the block steps\<close>

lemma block_step_safe:
  assumes "block_step X B u v"
  shows "node_safe (fst u) \<Longrightarrow> node_safe (fst v)"
  using assms
proof cases
  case new_accept
  then show "node_safe (fst u) \<Longrightarrow> node_safe (fst v)" using accept_block_Ret(1) by fastforce
next
  case orphan_accept
  then show "node_safe (fst u) \<Longrightarrow> node_safe (fst v)" using accept_block_Ret(1) by fastforce
qed (auto dest: accept_block_rejected)

lemma block_step_grows:
  assumes "block_step X B u v"
  shows "\<exists>ext. snd (snd v) = snd (snd u) @ ext \<and>
    (\<forall>h. blocks (blockchain (fst v)) h \<noteq> None \<longleftrightarrow>
       blocks (blockchain (fst u)) h \<noteq> None \<or> h \<in> set ext)"
  using assms
proof cases
  case (new_accept b nd pb pn nd' os nb)
  with accept_block_Ret(2) [OF new_accept(8)] show ?thesis by auto
next
  case (orphan_accept i os nd pb pn nd' nb)
  with accept_block_Ret(2) [OF orphan_accept(6)] show ?thesis by auto
qed (auto dest: accept_block_rejected)

lemma block_steps_safe:
  "block_steps X B u v \<Longrightarrow> node_safe (fst u) \<Longrightarrow> node_safe (fst v)"
  by (induction rule: rtranclp_induct) (auto dest: block_step_safe)

lemma block_steps_grows:
  "block_steps X B u v \<Longrightarrow> \<exists>ext. snd (snd v) = snd (snd u) @ ext \<and>
    (\<forall>h. blocks (blockchain (fst v)) h \<noteq> None \<longleftrightarrow>
       blocks (blockchain (fst u)) h \<noteq> None \<or> h \<in> set ext)"
proof (induction rule: rtranclp_induct)
  case (step v w)
  from step.IH block_step_grows [OF step.hyps(2)] obtain e1 e2 where
    "snd (snd v) = snd (snd u) @ e1" "snd (snd w) = snd (snd v) @ e2"
    "\<forall>h. blocks (blockchain (fst v)) h \<noteq> None \<longleftrightarrow> blocks (blockchain (fst u)) h \<noteq> None \<or> h \<in> set e1"
    "\<forall>h. blocks (blockchain (fst w)) h \<noteq> None \<longleftrightarrow> blocks (blockchain (fst v)) h \<noteq> None \<or> h \<in> set e2"
    by blast
  then show ?case by (intro exI [of _ "e1 @ e2"]) auto
qed simp

lemma block_steps_mempool: "block_steps X B u v \<Longrightarrow> mempool (fst v) = mempool (fst u)"
proof (induction rule: rtranclp_induct)
  case (step v w)
  from step.hyps(2) have "mempool (fst w) = mempool (fst v)"
    by cases (auto dest: accept_block_Ret(3))
  with step.IH show ?case by simp
qed simp

text \<open>The hashes collected in \<open>new_blocks\<close> are members of the tree.\<close>

definition new_known :: "Node \<times> Block list \<times> H256 list \<Rightarrow> bool" where
  "new_known u \<longleftrightarrow> (\<forall>h\<in>set (snd (snd u)). blocks (blockchain (fst u)) h \<noteq> None)"

lemma block_steps_new_known:
  assumes "block_steps X B u v" and "new_known u"
  shows "new_known v"
proof -
  from block_steps_grows [OF assms(1)] obtain ext where "snd (snd v) = snd (snd u) @ ext"
    "\<And>h. blocks (blockchain (fst v)) h \<noteq> None \<longleftrightarrow>
       blocks (blockchain (fst u)) h \<noteq> None \<or> h \<in> set ext" by blast
  with assms(2) show ?thesis by (simp add: new_known_def ball_Un)
qed

section \<open>No panics\<close>

lemma unorphan_loop_panic:
  "node_safe nd \<Longrightarrow> new_known (nd, os, nb) \<Longrightarrow> n < length nb \<Longrightarrow>
     only_overflow (overflow_checks X) (unorphan_loop X n i nd os nb)"
proof (induction "length os - i" arbitrary: i nd os nb rule: less_induct)
  case less
  show ?case
  proof (cases "i < length os \<and> parent (head (os ! i)) = nb ! n")
    case False
    then show ?thesis
      using less.hyps [of os "i + 1"] less.prems
      by (auto simp: unorphan_loop.simps [of X n i nd os])
  next
    case True
    let ?b = "os ! i" and ?os = "remove_at i os"
    from True have "i < length os" by simp
    then have dec: "length ?os - i < length os - i" by (simp add: less_diff_conv)
    obtain e where e: "blocks (blockchain nd) (nb ! n) = Some e"
      using less.prems(2) nth_mem [OF less.prems(3)] by (auto simp: new_known_def)
    have acc: "only_overflow (overflow_checks X) (accept_block X nd ?b (hash_block X ?b))"
      using less.prems(1) True e by (intro accept_block_panic) auto
    have rest: "only_overflow (overflow_checks X)
        (unorphan_loop X n i nd1 ?os (if ok then nb @ [hash_block X ?b] else nb))"
      if "accept_block X nd ?b (hash_block X ?b) = Ret (ok, nd1)" for ok nd1
    proof (rule less.hyps [OF dec])
      show "node_safe nd1" using accept_block_Ret(1) [OF that] less.prems(1) .
      show "new_known (nd1, ?os, if ok then nb @ [hash_block X ?b] else nb)"
        using less.prems(2) accept_block_Ret(2) [OF that] by (auto simp: new_known_def)
      show "n < length (if ok then nb @ [hash_block X ?b] else nb)" using less.prems(3) by simp
    qed
    have skip: "only_overflow (overflow_checks X) (unorphan_loop X n i nd ?os nb)"
      using dec less.prems by (intro less.hyps) (auto simp: new_known_def)
    show ?thesis
      using True e skip acc rest
      by (auto simp: unorphan_loop.simps [of X n i nd os] Let_def intro!: only_overflow_intros)
  qed
qed

lemma new_blocks_loop_panic:
  "node_safe nd \<Longrightarrow> new_known (nd, os, nb) \<Longrightarrow>
     only_overflow (overflow_checks X) (new_blocks_loop X n nd os nb)"
proof (induction X n nd os nb rule: new_blocks_loop.induct)
  case (1 X n nd os nb)
  show ?case
  proof (cases "length nb \<le> n")
    case True
    then show ?thesis by (simp add: new_blocks_loop.simps)
  next
    case False
    have "only_overflow (overflow_checks X) (new_blocks_loop X (n + 1) (fst r) (fst (snd r)) (snd (snd r)))"
      if r: "unorphan_loop X n 0 nd os nb = Ret r" for r
    proof (rule "1.IH" [OF False r])
      note st = unorphan_loop_steps [OF r, where B = "{}"]
      from block_steps_safe [OF st] "1.prems"(1) show "node_safe (fst r)" by simp
      from block_steps_new_known [OF st "1.prems"(2)] show "new_known (fst r, fst (snd r), snd (snd r))"
        by simp
    qed
    with False "1.prems" show ?thesis
      by (auto simp: new_blocks_loop.simps [of X n nd] intro!: only_overflow_intros unorphan_loop_panic)
  qed
qed

lemma process_block_panic:
  assumes "node_safe (bl_node s)" and "new_known (loop_state s)"
  shows "only_overflow (overflow_checks X) (process_block X b s)"
proof -
  have loop: "only_overflow (overflow_checks X) (new_blocks_loop X (bl_n s) nd1 (bl_orphans s)
      (if ok then bl_new s @ [hash_block X b] else bl_new s))"
    if "accept_block X (bl_node s) b (hash_block X b) = Ret (ok, nd1)" for ok nd1
    using accept_block_Ret(1,2) [OF that] assms
    by (intro new_blocks_loop_panic) (auto simp: new_known_def)
  have loop0: "only_overflow (overflow_checks X)
      (new_blocks_loop X (bl_n s) (bl_node s) (bl_orphans s) (bl_new s))"
    using assms by (rule new_blocks_loop_panic)
  show ?thesis
    using assms loop loop0
    by (auto simp: process_block_def Let_def res_simps
        intro!: only_overflow_intros accept_block_panic split: option.splits)
qed

lemma process_blocks_panic:
  "node_safe (bl_node s) \<Longrightarrow> new_known (loop_state s) \<Longrightarrow>
     only_overflow (overflow_checks X) (process_blocks X bs s)"
proof (induction bs arbitrary: s)
  case (Cons b bs)
  have "only_overflow (overflow_checks X) (process_blocks X bs s1)" if "process_block X b s = Ret s1" for s1
  proof (rule Cons.IH)
    note st = process_block_steps [OF that, of UNIV]
    show "node_safe (bl_node s1)" using block_steps_safe [OF st] Cons.prems(1) by simp
    show "new_known (loop_state s1)" using block_steps_new_known [OF st] Cons.prems(2) by simp
  qed
  with Cons.prems show ?case by (auto intro!: only_overflow_intros process_block_panic)
qed simp

lemma handle_message_panic:
  assumes "node_safe nd"
  shows "only_overflow (overflow_checks X) (handle_message X nd os msg)"
  using assms
  by (cases msg) (auto simp: handle_Blocks_def new_known_def split: prod.splits
      intro!: only_overflow_intros process_blocks_panic)

section \<open>The other messages\<close>

lemma handle_Transactions_frame:
  "handle_Transactions X nd ts = (nd', out) \<Longrightarrow> \<exists>mp. nd' = nd\<lparr>mempool := mp\<rparr>"
  by (auto simp: handle_Transactions_def split: prod.splits)

text \<open>A handled message changes the tree by block steps, or not at all.\<close>

lemma handle_message_cases:
  assumes "handle_message X nd os msg = Ret (nd', os', out)"
  obtains (blocks) bs nb where "msg = Blocks bs" "block_steps X (set bs) (nd, os, []) (nd', os', nb)"
  | (transactions) mp where "nd' = nd\<lparr>mempool := mp\<rparr>" "os' = os" "\<nexists>bs. msg = Blocks bs"
proof (cases "\<exists>bs. msg = Blocks bs")
  case True
  then show ?thesis using assms by (auto elim!: handle_Blocks_steps intro: blocks)
next
  case False
  have same: "\<exists>mp. nd = nd\<lparr>mempool := mp\<rparr>" by (rule exI [of _ "mempool nd"]) simp
  show ?thesis using assms False same transactions
    by (cases msg) (auto split: prod.splits dest!: handle_Transactions_frame)
qed

lemma handle_message_safe:
  assumes "handle_message X nd os msg = Ret (nd', os', out)" and "node_safe nd"
  shows "node_safe nd'"
  using assms(1)
proof (cases rule: handle_message_cases)
  case (blocks bs nb)
  from block_steps_safe [OF blocks(2)] assms(2) show ?thesis by simp
next
  case (transactions mp)
  with assms(2) show ?thesis by (simp add: node_safe_def)
qed

end
