(* ===== verification/WorkerChain.thy ===== *)
theory WorkerChain
  imports WorkerInv
begin

text \<open>
  Invariants of the block tree that the network worker keeps, on top of theory
  \<open>WorkerInv\<close>: proof of work and the fixed difficulty, and the shape of the tree when no
  two headers that occur have the same hash.
\<close>

section \<open>Proof of work\<close>

definition pow_inv :: "Crates \<Rightarrow> Blockchain \<Rightarrow> bool" where
  "pow_inv X c \<longleftrightarrow> (\<forall>h b n. blocks c h = Some (b, n) \<longrightarrow>
     difficulty (head b) = genesis_difficulty \<and> (b = genesis \<or> hash_block X b \<le> genesis_difficulty))"

definition orphans_pow :: "Crates \<Rightarrow> Block list \<Rightarrow> bool" where
  "orphans_pow X os \<longleftrightarrow> (\<forall>b\<in>set os. hash_block X b \<le> difficulty (head b))"

lemma pow_inv_new: "pow_inv X (Blockchain_new X)"
  by (simp add: pow_inv_def Blockchain_new_def genesis_def Let_def)

lemma accept_block_blocks:
  assumes "accept_block X nd b (hash_block X b) = Ret (True, nd')"
  obtains n where "blocks (blockchain nd') = (blocks (blockchain nd))(hash_block X b \<mapsto> (b, n))"
proof -
  obtain c s s' where "Blockchain_insert X (blockchain nd) b = Ret c"
    "nd' = nd\<lparr>block_state := (block_state nd)(hash_block X b \<mapsto> s'), blockchain := c\<rparr>"
    using accept_block_accepted [OF assms] by metis
  then show ?thesis
    by (auto simp: Blockchain_insert_def res_simps Let_def split: if_splits intro: that)
qed

lemma pow_inv_insert:
  assumes "pow_inv X c" and "hash_block X b \<le> difficulty (head b)"
    and "blocks c (parent (head b)) = Some (pb, pn)" and "difficulty (head b) = difficulty (head pb)"
    and "blocks c' = (blocks c)(hash_block X b \<mapsto> (b, n))"
  shows "pow_inv X c'"
proof -
  have "difficulty (head b) = genesis_difficulty" using assms(1,3,4) unfolding pow_inv_def by metis
  with assms(1,2,5) show ?thesis by (auto simp: pow_inv_def)
qed

lemma pow_inv_accept:
  assumes "pow_inv X (blockchain nd)" and "hash_block X b \<le> difficulty (head b)"
    and "blocks (blockchain nd) (parent (head b)) = Some (pb, pn)"
    and "difficulty (head b) = difficulty (head pb)"
    and "accept_block X nd b (hash_block X b) = Ret (True, nd')"
  shows "pow_inv X (blockchain nd')"
  using accept_block_blocks [OF assms(5)] pow_inv_insert [OF assms(1-4)] by metis

lemma orphans_pow_remove [simp]: "orphans_pow X os \<Longrightarrow> orphans_pow X (remove_at i os)"
  using set_remove_at [of i os] by (auto simp: orphans_pow_def)

lemma block_step_pow:
  assumes "block_step X B u v" and "pow_inv X (blockchain (fst u)) \<and> orphans_pow X (fst (snd u))"
  shows "pow_inv X (blockchain (fst v)) \<and> orphans_pow X (fst (snd v))"
  using assms(1)
proof cases
  case (new_accept b nd pb pn nd' os nb)
  from pow_inv_accept [OF _ new_accept(4,6,7,8)] assms(2) new_accept(1,2) show ?thesis by simp
next
  case (orphan_accept i os nd pb pn nd' nb)
  have "hash_block X (os ! i) \<le> difficulty (head (os ! i))"
    using assms(2) nth_mem [OF orphan_accept(3)] orphan_accept(1) by (simp only: orphans_pow_def) simp
  from pow_inv_accept [OF _ this orphan_accept(4,5,6)] assms(2) orphan_accept(1,2) show ?thesis by simp
qed (use assms(2) in \<open>auto dest: accept_block_rejected simp: orphans_pow_def [of X "_ @ _"]\<close>,
     use assms(2) in \<open>auto simp: orphans_pow_def\<close>)

lemma block_steps_pow:
  "block_steps X B u v \<Longrightarrow> pow_inv X (blockchain (fst u)) \<and> orphans_pow X (fst (snd u)) \<Longrightarrow>
     pow_inv X (blockchain (fst v)) \<and> orphans_pow X (fst (snd v))"
  by (induction rule: rtranclp_induct) (blast dest: block_step_pow)+

section \<open>The shape of the tree\<close>

text \<open>
  The headers a node ever sees form a set \<open>H\<close> on which the digest has no collision,
  contains no preimage of the all-zero hash, and which is too small to exhaust the heights.
\<close>

definition headers_sound :: "Crates \<Rightarrow> Header set \<Rightarrow> bool" where
  "headers_sound X H \<longleftrightarrow> head genesis \<in> H \<and> inj_on (hash_header X) H \<and>
     (\<forall>h\<in>H. hash_header X h \<noteq> h256_fill 0) \<and> finite H \<and> card H < 2 ^ 32"

definition headers_in :: "Header set \<Rightarrow> Blockchain \<Rightarrow> bool" where
  "headers_in H c \<longleftrightarrow> (\<forall>h b n. blocks c h = Some (b, n) \<longrightarrow> head b \<in> H)"

lemma tree_inv_heights:
  "tree_inv X m \<Longrightarrow> m h = Some (b, n) \<Longrightarrow> k \<le> unat n \<Longrightarrow> \<exists>h' b' n'. m h' = Some (b', n') \<and> unat n' = k"
proof (induction "unat n" arbitrary: h b n)
  case 0
  then show ?case by auto
next
  case (Suc j)
  show ?case
  proof (cases "k = unat n")
    case True
    with Suc.prems show ?thesis by blast
  next
    case False
    have "n \<noteq> 0" using Suc.hyps(2) by auto
    from tree_inv_parent [OF Suc.prems(1,2) this] obtain pb pn where
      p: "m (parent (head b)) = Some (pb, pn)" "unat n = Suc (unat pn)" by blast
    from p(2) Suc.hyps(2) have "j = unat pn" by simp
    moreover from p(2) False Suc.prems(3) have "k \<le> unat pn" by simp
    ultimately show ?thesis using Suc.hyps(1) [OF _ Suc.prems(1) p(1)] by blast
  qed
qed

lemma tree_inv_heights_fit:
  assumes "chain_inv X c" and "headers_sound X H" and "headers_in H c"
    and e: "blocks c h = Some (b, n)"
  shows "unat n + 1 < 2 ^ 32"
proof -
  have tree: "tree_inv X (blocks c)" using assms(1) by (simp add: chain_inv_def)
  have fin: "finite (hash_header X ` H)" "card (hash_header X ` H) < 2 ^ 32"
    using assms(2) card_image_le [of H "hash_header X"] by (auto simp: headers_sound_def)
  have dom: "dom (blocks c) \<subseteq> hash_header X ` H"
  proof
    fix h assume "h \<in> dom (blocks c)"
    then obtain b n where e: "blocks c h = Some (b, n)" by auto
    with tree_inv_hash [OF tree e] assms(3) show "h \<in> hash_header X ` H"
      by (auto simp: headers_in_def hash_block_def)
  qed
  let ?ht = "\<lambda>h. unat (snd (the (blocks c h)))"
  have "{0..unat n} \<subseteq> ?ht ` dom (blocks c)"
  proof
    fix k assume "k \<in> {0..unat n}"
    then obtain h' b' n' where "blocks c h' = Some (b', n')" "unat n' = k"
      using tree_inv_heights [OF tree e, of k] by auto
    then show "k \<in> ?ht ` dom (blocks c)" by (intro image_eqI [of _ _ h']) auto
  qed
  moreover have fd: "finite (dom (blocks c))" using dom fin(1) by (rule finite_subset)
  ultimately have "card {0..unat n} \<le> card (?ht ` dom (blocks c))" by (intro card_mono) auto
  also have "\<dots> \<le> card (dom (blocks c))" using fd by (rule card_image_le)
  also have "\<dots> \<le> card (hash_header X ` H)" using fin(1) dom by (rule card_mono)
  finally show ?thesis using fin(2) by simp
qed

lemma tree_inv_room:
  "chain_inv X c \<Longrightarrow> headers_sound X H \<Longrightarrow> headers_in H c \<Longrightarrow> height_room X c"
  using tree_inv_heights_fit by (fastforce simp: height_room_def)

text \<open>A block with a header in \<open>H\<close> below a known parent may enter the tree.\<close>

lemma insertable_header:
  assumes "chain_inv X c" and "headers_sound X H" and "headers_in H c"
    and "head b \<in> H" and "blocks c (parent (head b)) = Some (pb, pn)"
  shows "insertable X c b"
proof (cases "blocks c (hash_block X b)")
  case (Some e)
  then obtain b' n' where e: "blocks c (hash_block X b) = Some (b', n')" by (cases e) auto
  have tree: "tree_inv X (blocks c)" using assms(1) by (simp add: chain_inv_def)
  have same: "head b' = head b"
    using tree_inv_hash [OF tree e] assms(2-4) e
    by (auto simp: headers_sound_def headers_in_def hash_block_def dest!: inj_onD)
  have "hash_block X b \<noteq> genesis_hash X"
  proof
    assume "hash_block X b = genesis_hash X"
    then have "head b = head genesis"
      using assms(2,4) by (auto simp: headers_sound_def hash_block_def dest!: inj_onD)
    then have "blocks c (h256_fill 0) = Some (pb, pn)" using assms(5) by (simp add: genesis_def)
    with tree_inv_hash [OF tree this] assms(2,3) show False
      by (auto simp: headers_sound_def headers_in_def hash_block_def)
  qed
  with same e show ?thesis by (simp add: insertable_def)
qed (simp add: insertable_def)

definition tree_ok :: "Crates \<Rightarrow> Header set \<Rightarrow> Node \<times> Block list \<times> H256 list \<Rightarrow> bool" where
  "tree_ok X H u \<longleftrightarrow> chain_inv X (blockchain (fst u)) \<and> headers_in H (blockchain (fst u)) \<and>
     (\<forall>b\<in>set (fst (snd u)). head b \<in> H)"

lemma tree_ok_accept:
  assumes ok: "tree_ok X H (nd, os, nb)" and sound: "headers_sound X H" and b: "head b \<in> H"
    and p: "blocks (blockchain nd) (parent (head b)) = Some (pb, pn)"
    and acc: "accept_block X nd b (hash_block X b) = Ret (True, nd')"
  shows "tree_ok X H (nd', os, nb')"
proof -
  have inv: "chain_inv X (blockchain nd)" and hin: "headers_in H (blockchain nd)"
    using ok by (simp_all add: tree_ok_def)
  obtain c where c: "Blockchain_insert X (blockchain nd) b = Ret c" "blockchain nd' = c"
    by (rule accept_block_accepted [OF acc]) (auto intro: that)
  obtain n where n: "blocks (blockchain nd') = (blocks (blockchain nd))(hash_block X b \<mapsto> (b, n))"
    using accept_block_blocks [OF acc] .
  have "chain_inv X c"
    using chain_inv_insert [OF inv c(1) insertable_header [OF inv sound hin b p] tree_inv_room [OF inv sound hin]] .
  moreover have "headers_in H (blockchain nd')" using hin n b by (auto simp: headers_in_def)
  ultimately show ?thesis using ok c(2) by (simp add: tree_ok_def)
qed

lemma tree_ok_orphans:
  "tree_ok X H (nd, os, nb) \<Longrightarrow> set os' \<subseteq> set os \<Longrightarrow> tree_ok X H (nd, os', nb')"
  by (auto simp: tree_ok_def)

lemma block_step_tree:
  assumes "block_step X B u v" and sound: "headers_sound X H" and B: "head ` B \<subseteq> H"
    and ok: "tree_ok X H u"
  shows "tree_ok X H v"
  using assms(1)
proof cases
  case (new_accept b nd pb pn nd' os nb)
  from tree_ok_accept [OF _ sound _ new_accept(6,8)] ok new_accept(1-3) B show ?thesis by auto
next
  case (new_reject nd b pb pn nd' os nb)
  with ok show ?thesis by (auto dest: accept_block_rejected simp: tree_ok_def)
next
  case (orphan_push b nd os nb)
  with ok B show ?thesis by (auto simp: tree_ok_def)
next
  case (orphan_drop i os nd pb pn nb)
  with ok tree_ok_orphans [OF _ set_remove_at] show ?thesis by auto
next
  case (orphan_accept i os nd pb pn nd' nb)
  then have "head (os ! i) \<in> H" using ok by (simp add: tree_ok_def)
  from tree_ok_accept [OF _ sound this orphan_accept(4,6)] ok orphan_accept(1,2)
    tree_ok_orphans [OF _ set_remove_at] show ?thesis by blast
next
  case (orphan_reject i os nd pb pn nd' nb)
  with ok tree_ok_orphans [OF _ set_remove_at] show ?thesis by (auto dest!: accept_block_rejected)
qed

lemma block_steps_tree:
  "block_steps X B u v \<Longrightarrow> headers_sound X H \<Longrightarrow> head ` B \<subseteq> H \<Longrightarrow> tree_ok X H u \<Longrightarrow> tree_ok X H v"
  by (induction rule: rtranclp_induct) (blast dest: block_step_tree)+

end
