(* ===== verification/Arrival.thy ===== *)
theory Arrival
  imports WorkerChain
begin

text \<open>
  What a \<open>Blocks\<close> message adds to the tree, independently of the order in which its
  blocks and the buffered orphans are listed: \<open>accepts\<close> is the declarative closure that
  the loops compute. A message leaves no block in the orphan buffer whose parent it has
  brought.
\<close>

section \<open>The orphan buffer is complete\<close>

text \<open>
  A buffered block waits while its parent is unknown or among the hashes \<open>N\<close> that the loops
  have still to go through. The blocks in \<open>S\<close> are excused: their parents were known before.
\<close>

definition waits :: "Block set \<Rightarrow> Blockchain \<Rightarrow> H256 set \<Rightarrow> Block \<Rightarrow> bool" where
  "waits S c N b \<longleftrightarrow> blocks c (parent (head b)) = None \<or> parent (head b) \<in> N \<or> b \<in> S"

definition orphans_left :: "Block set \<Rightarrow> Node \<Rightarrow> Block list \<Rightarrow> bool" where
  "orphans_left S nd os \<longleftrightarrow> (\<forall>b\<in>set os. waits S (blockchain nd) {} b)"

definition orphans_wait :: "Node \<Rightarrow> Block list \<Rightarrow> bool" where
  "orphans_wait nd os \<longleftrightarrow> (\<forall>b\<in>set os. blocks (blockchain nd) (parent (head b)) = None)"

lemma orphans_wait_left: "orphans_wait nd os \<longleftrightarrow> orphans_left {} nd os"
  by (simp add: orphans_wait_def orphans_left_def waits_def)

lemma waits_mono: "waits S c N b \<Longrightarrow> N \<subseteq> N' \<Longrightarrow> waits S c N' b"
  by (auto simp: waits_def)

lemma waits_accept:
  assumes "accept_block X nd b (hash_block X b) = Ret (ok, nd')" and "waits S (blockchain nd) N b'"
  shows "waits S (blockchain nd') (if ok then insert (hash_block X b) N else N) b'"
  using accept_block_Ret(2) [OF assms(1), of "parent (head b')"] assms(2) by (auto simp: waits_def)

lemma unorphan_loop_waits:
  assumes "unorphan_loop X n i nd os nb = Ret r" and "n < length nb"
    and "\<forall>b\<in>set (take i os). waits S (blockchain nd) (set (drop (Suc n) nb)) b"
    and "\<forall>b\<in>set os. waits S (blockchain nd) (set (drop n nb)) b"
  shows "\<forall>b\<in>set (fst (snd r)). waits S (blockchain (fst r)) (set (drop (Suc n) (snd (snd r)))) b"
    and "n < length (snd (snd r))"
proof -
  have drop_n: "set (drop n nb) = insert (nb ! n) (set (drop (Suc n) nb))" if "n < length nb" for nb :: "H256 list"
    using that by (simp add: Cons_nth_drop_Suc [symmetric])
  have "(\<forall>b\<in>set (fst (snd r)). waits S (blockchain (fst r)) (set (drop (Suc n) (snd (snd r)))) b) \<and>
      n < length (snd (snd r))"
    using assms
  proof (induction rule: unorphan_induct)
    case (finished i nd os nb)
    then show ?case by simp
  next
    case (skip i nd os nb r)
    have "waits S (blockchain nd) (set (drop (Suc n) nb)) (os ! i)"
    proof -
      have "waits S (blockchain nd) (set (drop n nb)) (os ! i)"
        using skip.prems(3) nth_mem [OF skip.hyps(1)] by blast
      then show ?thesis using skip.hyps(2) by (simp only: drop_n [OF skip.prems(1)] waits_def) blast
    qed
    then have "\<forall>b\<in>set (take (i + 1) os). waits S (blockchain nd) (set (drop (Suc n) nb)) b"
      using skip.hyps(1) skip.prems(2) by (simp add: take_Suc_conv_app_nth)
    from skip.IH [OF skip.prems(1) this skip.prems(3)] show ?case .
  next
    case (drop i nd os nb r e)
    have "\<forall>b\<in>set (take i (remove_at i os)). waits S (blockchain nd) (set (drop (Suc n) nb)) b"
      using drop.hyps(1) drop.prems(2) by simp
    moreover have "\<forall>b\<in>set (remove_at i os). waits S (blockchain nd) (set (drop n nb)) b"
      using drop.prems(3) set_remove_at [of i os] by auto
    ultimately show ?case by (intro drop.IH drop.prems(1))
  next
    case (accept i nd os nb r e ok nd1)
    let ?nb = "if ok then nb @ [hash_block X (os ! i)] else nb"
    note w = waits_accept [OF accept.hyps(5)]
    have len: "n < length ?nb" using accept.prems(1) by simp
    have "\<forall>b\<in>set (take i (remove_at i os)). waits S (blockchain nd1) (set (drop (Suc n) ?nb)) b"
    proof
      fix b assume "b \<in> set (take i (remove_at i os))"
      then have "waits S (blockchain nd) (set (drop (Suc n) nb)) b"
        using accept.hyps(1) accept.prems(2) by simp
      from w [OF this] show "waits S (blockchain nd1) (set (drop (Suc n) ?nb)) b"
        by (rule waits_mono) (use accept.prems(1) in auto)
    qed
    moreover have "\<forall>b\<in>set (remove_at i os). waits S (blockchain nd1) (set (drop n ?nb)) b"
    proof
      fix b assume "b \<in> set (remove_at i os)"
      then have "waits S (blockchain nd) (set (drop n nb)) b" using accept.prems(3) set_remove_at [of i os] by auto
      from w [OF this] show "waits S (blockchain nd1) (set (drop n ?nb)) b"
        by (rule waits_mono) (use accept.prems(1) in auto)
    qed
    ultimately show ?case by (intro accept.IH len)
  qed
  then show "\<forall>b\<in>set (fst (snd r)). waits S (blockchain (fst r)) (set (drop (Suc n) (snd (snd r)))) b"
    "n < length (snd (snd r))" by blast+
qed

lemma new_blocks_loop_waits:
  "new_blocks_loop X n nd os nb = Ret r \<Longrightarrow> n \<le> length nb \<Longrightarrow>
     \<forall>b\<in>set os. waits S (blockchain nd) (set (drop n nb)) b \<Longrightarrow>
     orphans_left S (fst (snd r)) (fst (snd (snd r))) \<and> fst r = length (snd (snd (snd r)))"
proof (induction X n nd os nb rule: new_blocks_loop.induct)
  case (1 X n nd os nb)
  show ?case
  proof (cases "length nb \<le> n")
    case True
    with "1.prems" show ?thesis by (auto simp: new_blocks_loop.simps orphans_left_def)
  next
    case False
    with "1.prems"(1) obtain r1 where
      u: "unorphan_loop X n 0 nd os nb = Ret r1" and
      l: "new_blocks_loop X (n + 1) (fst r1) (fst (snd r1)) (snd (snd r1)) = Ret r"
      by (auto simp: new_blocks_loop.simps [of X n nd] res_simps)
    have n: "n < length nb" using False by simp
    note w = unorphan_loop_waits [OF u n _ "1.prems"(3), simplified]
    have "n + 1 \<le> length (snd (snd r1))" using w(2) by simp
    moreover have "\<forall>b\<in>set (fst (snd r1)). waits S (blockchain (fst r1)) (set (drop (n + 1) (snd (snd r1)))) b"
      using w(1) by simp
    ultimately show ?thesis by (rule "1.IH" [OF False u l])
  qed
qed

definition loop_waits :: "Block set \<Rightarrow> BlocksLoop \<Rightarrow> bool" where
  "loop_waits S s \<longleftrightarrow> orphans_left S (bl_node s) (bl_orphans s) \<and> bl_n s = length (bl_new s)"

lemma process_block_waits:
  assumes "process_block X b s = Ret s'" and "loop_waits S s"
  shows "loop_waits S s'"
  using assms(1)
proof (cases rule: process_block_cases)
  case ignored
  with assms(2) show ?thesis by simp
next
  case orphaned
  with assms(2) show ?thesis by (auto simp: loop_waits_def orphans_left_def waits_def)
next
  case (wrong_difficulty pb pn n' nd' os' nb')
  from new_blocks_loop_waits [OF wrong_difficulty(3), where S = S] wrong_difficulty(4) assms(2)
  show ?thesis by (simp add: loop_waits_def orphans_left_def)
next
  case (checked pb pn ok nd1 n' nd' os' nb')
  have "\<forall>b'\<in>set (bl_orphans s). waits S (blockchain nd1)
      (set (drop (bl_n s) (if ok then bl_new s @ [hash_block X b] else bl_new s))) b'"
    using waits_accept [OF checked(5)] assms(2) by (auto simp: loop_waits_def orphans_left_def)
  moreover have "bl_n s \<le> length (if ok then bl_new s @ [hash_block X b] else bl_new s)"
    using assms(2) by (simp add: loop_waits_def)
  ultimately have "orphans_left S nd' os' \<and> n' = length nb'"
    using new_blocks_loop_waits [OF checked(6)] by simp
  with checked(7) show ?thesis by (simp add: loop_waits_def)
qed

lemma process_blocks_waits: "process_blocks X bs s = Ret s' \<Longrightarrow> loop_waits S s \<Longrightarrow> loop_waits S s'"
  by (induction bs arbitrary: s) (auto simp: res_simps dest: process_block_waits)

lemma handle_Blocks_left:
  "handle_Blocks X nd os bs = Ret (nd', os', out) \<Longrightarrow> orphans_left S nd os \<Longrightarrow> orphans_left S nd' os'"
  by (auto simp: handle_Blocks_def res_simps loop_waits_def dest!: process_blocks_waits [where S = S])

lemma handle_Blocks_waits:
  "handle_Blocks X nd os bs = Ret (nd', os', out) \<Longrightarrow> orphans_wait nd os \<Longrightarrow> orphans_wait nd' os'"
  unfolding orphans_wait_left by (rule handle_Blocks_left)

section \<open>The closure a message computes\<close>

text \<open>
  \<open>accepts X nd B h b s\<close>: starting from node \<open>nd\<close>, block \<open>b\<close> with hash \<open>h\<close>
  and resulting ledger state \<open>s\<close> is in the tree, or in \<open>B\<close> and acceptable below a
  block that is.
\<close>

inductive accepts :: "Crates \<Rightarrow> Node \<Rightarrow> Block set \<Rightarrow> H256 \<Rightarrow> Block \<Rightarrow> State \<Rightarrow> bool"
  for X nd B where
  accepts_known: "blocks (blockchain nd) h = Some (b, n) \<Longrightarrow> block_state nd h = Some s \<Longrightarrow>
     accepts X nd B h b s"
| accepts_next: "accepts X nd B (parent (head b)) pb sp \<Longrightarrow> b \<in> B \<Longrightarrow>
     hash_block X b \<le> difficulty (head b) \<Longrightarrow> difficulty (head b) = difficulty (head pb) \<Longrightarrow>
     check_txs X sp (st (cont b)) = Ret (Some s) \<Longrightarrow> accepts X nd B (hash_block X b) b s"

definition fresh_blocks :: "Crates \<Rightarrow> Node \<Rightarrow> Block set \<Rightarrow> bool" where
  "fresh_blocks X nd B \<longleftrightarrow> inj_on (hash_block X) B \<and>
     (\<forall>b\<in>B. blocks (blockchain nd) (hash_block X b) = None)"

lemma accepts_unique:
  assumes "fresh_blocks X nd B"
  shows "accepts X nd B h b s \<Longrightarrow> accepts X nd B h b' s' \<Longrightarrow> b' = b \<and> s' = s"
proof (induction arbitrary: b' s' rule: accepts.induct)
  case (accepts_known h b n s)
  from accepts_known.prems accepts_known.hyps assms show ?case
    by (cases rule: accepts.cases) (auto simp: fresh_blocks_def)
next
  case (accepts_next b pb sp s)
  from accepts_next.prems show ?case
  proof (cases rule: accepts.cases)
    case (accepts_known n)
    with accepts_next.hyps(2) assms show ?thesis by (simp add: fresh_blocks_def)
  next
    case (accepts_next pb' sp')
    then have "b' = b"
      using \<open>b \<in> B\<close> assms by (auto simp: fresh_blocks_def dest: inj_onD)
    with accepts_next \<open>check_txs X sp (st (cont b)) = Ret (Some s)\<close> show ?thesis
      using accepts_next.IH by auto
  qed
qed

definition agrees :: "Crates \<Rightarrow> Node \<Rightarrow> Block set \<Rightarrow> Node \<Rightarrow> bool" where
  "agrees X nd0 B nd \<longleftrightarrow> (\<forall>h b n. blocks (blockchain nd) h = Some (b, n) \<longrightarrow>
     (\<exists>s. block_state nd h = Some s \<and> accepts X nd0 B h b s))"

lemma agreesD:
  "agrees X nd0 B nd \<Longrightarrow> blocks (blockchain nd) h = Some (b, n) \<Longrightarrow> block_state nd h = Some s \<Longrightarrow>
     accepts X nd0 B h b s"
  unfolding agrees_def by fastforce

definition arrival_inv ::
  "Crates \<Rightarrow> Node \<Rightarrow> Block set \<Rightarrow> Node \<times> Block list \<times> H256 list \<Rightarrow> bool" where
  "arrival_inv X nd0 B u \<longleftrightarrow> agrees X nd0 B (fst u) \<and> set (fst (snd u)) \<subseteq> B \<and>
     orphans_pow X (fst (snd u))"

lemma agrees_start: "node_safe nd \<Longrightarrow> agrees X nd B nd"
  unfolding agrees_def node_safe_iff by (metis accepts_known not_Some_eq option.distinct(1))

lemma agrees_accept:
  assumes ag: "agrees X nd0 B nd" and b: "b \<in> B" "hash_block X b \<le> difficulty (head b)"
    and p: "blocks (blockchain nd) (parent (head b)) = Some (pb, pn)"
    and d: "difficulty (head b) = difficulty (head pb)"
    and acc: "accept_block X nd b (hash_block X b) = Ret (True, nd')"
  shows "agrees X nd0 B nd'"
proof -
  obtain n where n: "blocks (blockchain nd') = (blocks (blockchain nd))(hash_block X b \<mapsto> (b, n))"
    using accept_block_blocks [OF acc] .
  obtain s s' where s: "block_state nd (parent (head b)) = Some s"
    "check_txs X s (st (cont b)) = Ret (Some s')"
    "block_state nd' = (block_state nd)(hash_block X b \<mapsto> s')"
    by (rule accept_block_accepted [OF acc]) (auto intro: that)
  from accepts_next [OF agreesD [OF ag p s(1)] b d s(2)] ag n s(3) show ?thesis by (auto simp: agrees_def)
qed

lemma block_step_arrival:
  assumes "block_step X B u v" and "arrival_inv X nd0 B u"
  shows "arrival_inv X nd0 B v"
  using assms(1)
proof cases
  case (new_accept b nd pb pn nd' os nb)
  from agrees_accept [OF _ new_accept(3,4,6,7,8)] assms(2) new_accept(1,2) show ?thesis
    by (simp add: arrival_inv_def)
next
  case (new_reject nd b pb pn nd' os nb)
  with assms(2) show ?thesis by (auto dest: accept_block_rejected simp: arrival_inv_def)
next
  case (orphan_push b nd os nb)
  with assms(2) show ?thesis by (auto simp: arrival_inv_def orphans_pow_def)
next
  case (orphan_drop i os nd pb pn nb)
  with assms(2) set_remove_at [of i os] show ?thesis by (auto simp: arrival_inv_def)
next
  case (orphan_accept i os nd pb pn nd' nb)
  have "os ! i \<in> B" "hash_block X (os ! i) \<le> difficulty (head (os ! i))"
    using assms(2) nth_mem [OF orphan_accept(3)] orphan_accept(1)
    unfolding arrival_inv_def orphans_pow_def by auto
  from agrees_accept [OF _ this orphan_accept(4-6)] assms(2) orphan_accept(1,2) set_remove_at [of i os]
  show ?thesis by (auto simp: arrival_inv_def)
next
  case (orphan_reject i os nd pb pn nd' nb)
  with assms(2) set_remove_at [of i os] show ?thesis
    by (auto dest!: accept_block_rejected simp: arrival_inv_def)
qed

lemma block_steps_arrival: "block_steps X B u v \<Longrightarrow> arrival_inv X nd0 B u \<Longrightarrow> arrival_inv X nd0 B v"
  by (induction rule: rtranclp_induct) (auto dest: block_step_arrival)

text \<open>Every block the message or the buffer brought is in the tree, waits, or was rejected.\<close>

definition rejected :: "Crates \<Rightarrow> Node \<Rightarrow> Block set \<Rightarrow> Block \<Rightarrow> bool" where
  "rejected X nd0 B b \<longleftrightarrow> (\<exists>pb sp. accepts X nd0 B (parent (head b)) pb sp \<and>
     (difficulty (head b) \<noteq> difficulty (head pb) \<or> check_txs X sp (st (cont b)) = Ret None))"

definition settled ::
  "Crates \<Rightarrow> Node \<Rightarrow> Block set \<Rightarrow> Node \<times> Block list \<times> H256 list \<Rightarrow> Block \<Rightarrow> bool" where
  "settled X nd0 B u b \<longleftrightarrow> blocks (blockchain (fst u)) (hash_block X b) \<noteq> None \<or>
     b \<in> set (fst (snd u)) \<or> rejected X nd0 B b"

lemma rejected_difficulty:
  assumes "agrees X nd0 B nd" and "blocks (blockchain nd) (parent (head b)) = Some (pb, pn)"
    and "difficulty (head b) \<noteq> difficulty (head pb)"
  shows "rejected X nd0 B b"
  using assms unfolding agrees_def rejected_def by blast

lemma rejected_check:
  assumes ag: "agrees X nd0 B nd" and p: "blocks (blockchain nd) (parent (head b)) = Some (pb, pn)"
    and r: "accept_block X nd b (hash_block X b) = Ret (False, nd')"
  shows "rejected X nd0 B b"
proof -
  from r obtain sp where sp: "block_state nd (parent (head b)) = Some sp"
    "check_txs X sp (st (cont b)) = Ret None"
    by (auto simp: accept_block_def check_tx_state_def res_simps Let_def split: option.splits if_splits)
  from agreesD [OF ag p sp(1)] sp(2) show ?thesis unfolding rejected_def by blast
qed

lemma in_remove_at: "i < length xs \<Longrightarrow> x \<in> set xs \<Longrightarrow> x = xs ! i \<or> x \<in> set (remove_at i xs)"
proof -
  assume i: "i < length xs" and x: "x \<in> set xs"
  have "set xs = set (take i xs @ xs ! i # drop (Suc i) xs)"
    using id_take_nth_drop [OF i] by simp
  with x show ?thesis by (auto simp: remove_at_def)
qed

lemma block_step_settled:
  assumes "block_step X B' u v" and "agrees X nd0 B (fst u)" and "settled X nd0 B u b"
  shows "settled X nd0 B v b"
proof -
  have known: "settled X nd0 B v b" if "blocks (blockchain (fst u)) (hash_block X b) \<noteq> None"
    using block_step_grows [OF assms(1)] that unfolding settled_def by blast
  have rej: "settled X nd0 B v b" if "rejected X nd0 B b" using that by (simp add: settled_def)
  have "settled X nd0 B v b" if orphan: "b \<in> set (fst (snd u))"
    using assms(1)
  proof cases
    case (orphan_drop i os nd pb pn nb)
    with in_remove_at [OF orphan_drop(3), of b] orphan rejected_difficulty [OF _ orphan_drop(4,5)]
      assms(2) show ?thesis by (auto simp: settled_def)
  next
    case (orphan_accept i os nd pb pn nd' nb)
    with in_remove_at [OF orphan_accept(3), of b] orphan
      accept_block_Ret(2) [OF orphan_accept(6), of "hash_block X b"]
    show ?thesis by (auto simp: settled_def)
  next
    case (orphan_reject i os nd pb pn nd' nb)
    with in_remove_at [OF orphan_reject(3), of b] orphan rejected_check [OF _ orphan_reject(4,5)]
      assms(2) show ?thesis by (auto simp: settled_def)
  qed (use orphan in \<open>simp_all add: settled_def\<close>)
  with known rej assms(3) show ?thesis unfolding settled_def by blast
qed

lemma block_steps_settled:
  assumes "block_steps X B u v" and "arrival_inv X nd0 B u" and "settled X nd0 B u b"
  shows "settled X nd0 B v b"
proof -
  have "arrival_inv X nd0 B v \<and> settled X nd0 B v b"
    using assms
  proof (induction rule: rtranclp_induct)
    case (step v w)
    then show ?case
      using block_step_arrival [OF step.hyps(2)] block_step_settled [OF step.hyps(2)]
      by (auto simp: arrival_inv_def)
  qed simp
  then show ?thesis by simp
qed

lemma process_block_settled:
  assumes "process_block X b s = Ret s'" and "b \<in> B" and inv: "arrival_inv X nd0 B (loop_state s)"
    and "hash_block X b \<le> difficulty (head b)"
  shows "settled X nd0 B (loop_state s') b"
  using assms(1)
proof (cases rule: process_block_cases)
  case ignored
  with assms(4) show ?thesis by (simp add: settled_def)
next
  case orphaned
  then show ?thesis by (simp add: settled_def)
next
  case (wrong_difficulty pb pn n' nd' os' nb')
  with rejected_difficulty inv show ?thesis by (auto simp: arrival_inv_def settled_def)
next
  case (checked pb pn ok nd1 n' nd' os' nb')
  let ?u = "(nd1, bl_orphans s, if ok then bl_new s @ [hash_block X b] else bl_new s)"
  have step: "block_step X B (loop_state s) ?u"
    using new_accept [OF assms(2) checked(1-4)] new_reject [OF checked(3)] checked(5) by (cases ok) simp_all
  have "settled X nd0 B ?u b"
  proof (cases ok)
    case True
    with accept_block_Ret(2) [OF checked(5), of "hash_block X b"] show ?thesis by (simp add: settled_def)
  next
    case False
    with rejected_check [OF _ checked(3)] checked(5) inv show ?thesis
      by (simp add: arrival_inv_def settled_def)
  qed
  with block_steps_settled [OF new_blocks_loop_steps [OF checked(6)] block_step_arrival [OF step inv]]
  show ?thesis by (simp add: checked(7))
qed

lemma process_blocks_settled:
  "process_blocks X bs s = Ret s' \<Longrightarrow> set bs \<subseteq> B \<Longrightarrow> arrival_inv X nd0 B (loop_state s) \<Longrightarrow>
     b \<in> set bs \<or> settled X nd0 B (loop_state s) b \<Longrightarrow> hash_block X b \<le> difficulty (head b) \<Longrightarrow>
     settled X nd0 B (loop_state s') b"
proof (induction bs arbitrary: s)
  case (Cons b1 bs)
  from Cons.prems(1) obtain s1 where
    s1: "process_block X b1 s = Ret s1" "process_blocks X bs s1 = Ret s'" by (auto simp: res_simps)
  have B: "b1 \<in> B" "set bs \<subseteq> B" using Cons.prems(2) by auto
  note steps = process_block_steps [OF s1(1) B(1)]
  have "b \<in> set bs \<or> settled X nd0 B (loop_state s1) b"
    using Cons.prems(4) process_block_settled [OF s1(1) B(1) Cons.prems(3)] Cons.prems(5)
      block_steps_settled [OF steps Cons.prems(3)] by auto
  from Cons.IH [OF s1(2) B(2) block_steps_arrival [OF steps Cons.prems(3)] this Cons.prems(5)] show ?case .
qed simp

section \<open>Properties\<close>

lemma handle_Blocks_closure:
  assumes run: "handle_Blocks X nd os bs = Ret (nd', os', out)"
    and safe: "node_safe nd" and wait: "orphans_wait nd os" and pow: "orphans_pow X os"
    and fresh: "fresh_blocks X nd (set bs \<union> set os)"
  shows "(\<exists>n. blocks (blockchain nd') h = Some (b, n)) \<and> block_state nd' h = Some s \<longleftrightarrow>
    accepts X nd (set bs \<union> set os) h b s"
proof -
  let ?B = "set bs \<union> set os"
  from run obtain l where l: "process_blocks X bs
      \<lparr>bl_node = nd, bl_orphans = os, bl_new = [], bl_n = 0, bl_out = []\<rparr> = Ret l" (is "process_blocks X bs ?s = _")
    and nd': "nd' = bl_node l" "os' = bl_orphans l" by (auto simp: handle_Blocks_def res_simps)
  have inv: "arrival_inv X nd ?B (loop_state ?s)"
    using agrees_start [OF safe] pow by (simp add: arrival_inv_def)
  note steps = process_blocks_steps [OF l, of ?B, simplified]
  have ag: "agrees X nd ?B nd'"
    using block_steps_arrival [OF steps] inv by (simp add: arrival_inv_def nd'(1))
  have settled: "settled X nd ?B (nd', os', bl_new l) b"
    if "b \<in> ?B" "hash_block X b \<le> difficulty (head b)" for b
    using process_blocks_settled [OF l _ inv _ that(2)] that(1) by (auto simp: nd' settled_def)
  have waits: "\<forall>b\<in>set os'. blocks (blockchain nd') (parent (head b)) = None"
    using handle_Blocks_waits [OF run wait] by (simp add: orphans_wait_def)
  have known: "blocks (blockchain nd') h \<noteq> None" if "accepts X nd ?B h b s" for h b s
    using that
  proof (induction rule: accepts.induct)
    case (accepts_known h b n s)
    then show ?case using block_steps_grows [OF steps] by (auto simp: nd')
  next
    case (accepts_next b pb sp s)
    have "\<not> rejected X nd ?B b"
      using accepts_unique [OF fresh accepts_next.hyps(1)] accepts_next.hyps(4,5)
      unfolding rejected_def by fastforce
    moreover have "b \<notin> set os'" using waits accepts_next.IH by auto
    ultimately show ?case using settled [OF accepts_next.hyps(2,3)] by (simp add: settled_def)
  qed
  show ?thesis
  proof
    assume "(\<exists>n. blocks (blockchain nd') h = Some (b, n)) \<and> block_state nd' h = Some s"
    then show "accepts X nd ?B h b s" using agreesD [OF ag] by blast
  next
    assume a: "accepts X nd ?B h b s"
    from known [OF this] obtain b' n where e: "blocks (blockchain nd') h = Some (b', n)" by auto
    with ag obtain s' where s': "block_state nd' h = Some s'" "accepts X nd ?B h b' s'"
      by (auto simp: agrees_def)
    with accepts_unique [OF fresh a] e show
      "(\<exists>n. blocks (blockchain nd') h = Some (b, n)) \<and> block_state nd' h = Some s" by auto
  qed
qed

lemma handle_Blocks_tree:
  assumes run: "handle_Blocks X nd os bs = Ret (nd', os', out)"
    and safe: "node_safe nd" and inv: "orphans_wait nd os" "orphans_pow X os"
    and fresh: "fresh_blocks X nd (set bs \<union> set os)"
  shows "map_option fst (blocks (blockchain nd') h) = Some b \<longleftrightarrow>
    (\<exists>s. accepts X nd (set bs \<union> set os) h b s)"
proof -
  have "handle_message X nd os (Blocks bs) = Ret (nd', os', out)" using run by simp
  from handle_message_safe [OF this safe] have "\<exists>s. block_state nd' h = Some s"
    if "blocks (blockchain nd') h = Some (b, n)" for n
    using that by (auto simp: node_safe_iff)
  then show ?thesis
    unfolding handle_Blocks_closure [OF run safe inv fresh, symmetric] by auto
qed

text \<open>
  C3: a \<open>Blocks\<close> message adds exactly the blocks of the message and of the orphan buffer
  that are connected to the tree by a chain of acceptable blocks (proof of work, the
  parent's difficulty, valid transactions after the parent's state), with the resulting
  ledger states, whatever the order in which they are listed. The hypotheses: the worker's
  invariants, and blocks with pairwise different hashes that are not in the tree.
\<close>

theorem blocks_message_closure:
  assumes "handle_message X nd os (Blocks bs) = Ret (nd', os', out)"
    and "node_safe nd" and "orphans_wait nd os" and "orphans_pow X os"
    and "fresh_blocks X nd (set bs \<union> set os)"
  shows "(\<exists>n. blocks (blockchain nd') h = Some (b, n)) \<and> block_state nd' h = Some s \<longleftrightarrow>
    accepts X nd (set bs \<union> set os) h b s"
  using assms handle_Blocks_closure by simp

lemma init_node_safe [simp]: "node_safe (init_node X)"
  by (simp add: node_safe_iff Blockchain_new_def Let_def)

abbreviation demo_b1 :: Block where
  "demo_b1 \<equiv> demo_block 1 (pad32 [0, 1, 0]) []"

abbreviation demo_b2 :: Block where
  "demo_b2 \<equiv> demo_block 2 (pad32 [0, 2, 1]) []"

lemma demo_fresh: "fresh_blocks (demo_crates chk) (init_node (demo_crates chk)) {demo_b2, demo_b1}"
  by (auto simp: fresh_blocks_def Blockchain_new_def Let_def)

lemma demo_accepts:
  "accepts (demo_crates chk) (init_node (demo_crates chk)) {demo_b2, demo_b1} (pad32 [0, 3, 2]) demo_b2
     (State_new (demo_crates chk) (all_public_keys ! 0))"
  (is "accepts ?X ?nd ?B _ _ ?s")
proof -
  have "accepts ?X ?nd ?B (pad32 [0, 1, 0]) genesis ?s"
    by (rule accepts_known [where n = 0]) (simp_all add: Blockchain_new_def Let_def)
  then have "accepts ?X ?nd ?B (hash_block ?X demo_b1) demo_b1 ?s"
    by (intro accepts_next [where pb = genesis and sp = ?s]) (simp_all add: demo_pow genesis_def)
  then have "accepts ?X ?nd ?B (hash_block ?X demo_b2) demo_b2 ?s"
    by (intro accepts_next [where pb = demo_b1 and sp = ?s]) (simp_all add: demo_pow)
  then show ?thesis by simp
qed

lemma demo_handle_Blocks:
  obtains nd' os' out where
    "handle_message (demo_crates False) (init_node (demo_crates False)) [] (Blocks [demo_b2, demo_b1]) =
       Ret (nd', os', out)"
  using handle_message_panic [OF init_node_safe, of "demo_crates False" "demo_crates False" "[]"
      "Blocks [demo_b2, demo_b1]"]
  by (cases "handle_message (demo_crates False) (init_node (demo_crates False)) [] (Blocks [demo_b2, demo_b1])")
    (auto simp del: handle_message.simps)

lemma demo_received:
  assumes "check_txs (demo_crates False) (State_new (demo_crates False) (all_public_keys ! 0)) txs = Ret (Some s)"
  obtains nd' os' out n where
    "handle_message (demo_crates False) (init_node (demo_crates False)) []
       (Blocks [demo_block 1 (pad32 [0, 1, 0]) txs]) = Ret (nd', os', out)"
    "blocks (blockchain nd') (pad32 [0, 2, 1]) = Some (demo_block 1 (pad32 [0, 1, 0]) txs, n)"
proof -
  let ?X = "demo_crates False" and ?nd = "init_node (demo_crates False)"
  let ?s = "State_new ?X (all_public_keys ! 0)" and ?b = "demo_block 1 (pad32 [0, 1, 0]) txs"
  obtain nd' os' out where run: "handle_message ?X ?nd [] (Blocks [?b]) = Ret (nd', os', out)"
    using handle_message_panic [OF init_node_safe, of ?X ?X "[]" "Blocks [?b]"]
    by (cases "handle_message ?X ?nd [] (Blocks [?b])") (auto simp del: handle_message.simps)
  have "accepts ?X ?nd {?b} (pad32 [0, 1, 0]) genesis ?s"
    by (rule accepts_known [where n = 0]) (simp_all add: Blockchain_new_def Let_def)
  then have "accepts ?X ?nd {?b} (hash_block ?X ?b) ?b s"
    using assms by (intro accepts_next [where pb = genesis and sp = ?s]) (simp_all add: demo_pow genesis_def)
  moreover have "fresh_blocks ?X ?nd {?b}" by (simp add: fresh_blocks_def Blockchain_new_def Let_def)
  ultimately have "\<exists>n. blocks (blockchain nd') (pad32 [0, 2, 1]) = Some (?b, n)"
    using handle_Blocks_closure [of ?X ?nd "[]" "[?b]" nd' os' out "pad32 [0, 2, 1]" ?b s] run
    by (simp add: orphans_wait_def orphans_pow_def)
  with run that show thesis by blast
qed

lemma demo_b1_received:
  obtains nd' os' out n where
    "handle_message (demo_crates False) (init_node (demo_crates False)) [] (Blocks [demo_b1]) = Ret (nd', os', out)"
    "blocks (blockchain nd') (pad32 [0, 2, 1]) = Some (demo_b1, n)"
  by (rule demo_received [of "[]"]) simp_all

theorem blocks_message_closure_witness:
  "\<exists>nd' os' out n. handle_message (demo_crates False) (init_node (demo_crates False)) []
       (Blocks [demo_b2, demo_b1]) = Ret (nd', os', out) \<and>
     blocks (blockchain nd') (pad32 [0, 3, 2]) = Some (demo_b2, n)"
proof -
  obtain nd' os' out where run: "handle_message (demo_crates False) (init_node (demo_crates False)) []
      (Blocks [demo_b2, demo_b1]) = Ret (nd', os', out)" by (rule demo_handle_Blocks)
  have "(\<exists>n. blocks (blockchain nd') (pad32 [0, 3, 2]) = Some (demo_b2, n)) \<and>
      block_state nd' (pad32 [0, 3, 2]) = Some (State_new (demo_crates False) (all_public_keys ! 0))"
    using demo_fresh [of False] demo_accepts [of False]
    by (subst blocks_message_closure [OF run]) (simp_all add: orphans_wait_def orphans_pow_def)
  with run show ?thesis by blast
qed

text \<open>
  Order independence. Two \<open>Blocks\<close> messages with the same blocks in any order (and
  any repetition) leave the same blocks in the tree, with the same ledger states, when the
  blocks of the message and of the buffer have pairwise different hashes, none of them in
  the tree.
\<close>

theorem blocks_order_independent:
  assumes "handle_message X nd os (Blocks bs) = Ret (nd1, os1, out1)"
    and "handle_message X nd os (Blocks bs') = Ret (nd2, os2, out2)" and "set bs = set bs'"
    and "node_safe nd" and "orphans_wait nd os" and "orphans_pow X os"
    and "fresh_blocks X nd (set bs \<union> set os)"
  shows "map_option fst (blocks (blockchain nd1) h) = map_option fst (blocks (blockchain nd2) h) \<and>
    (blocks (blockchain nd1) h \<noteq> None \<longrightarrow> block_state nd1 h = block_state nd2 h)"
proof -
  have run: "handle_Blocks X nd os bs = Ret (nd1, os1, out1)" "handle_Blocks X nd os bs' = Ret (nd2, os2, out2)"
    using assms(1,2) by simp_all
  have fresh: "fresh_blocks X nd (set bs' \<union> set os)" using assms(3,7) by simp
  have same: "(\<exists>n. blocks (blockchain nd1) h = Some (b, n)) \<and> block_state nd1 h = Some s \<longleftrightarrow>
      (\<exists>n. blocks (blockchain nd2) h = Some (b, n)) \<and> block_state nd2 h = Some s" for b s
    using handle_Blocks_closure [OF run(1) assms(4-7)] handle_Blocks_closure [OF run(2) assms(4-6) fresh] assms(3) by simp
  have "map_option fst (blocks (blockchain nd1) h) = Some b \<longleftrightarrow> map_option fst (blocks (blockchain nd2) h) = Some b" for b
    using handle_Blocks_tree [OF run(1) assms(4-7), of h b] handle_Blocks_tree [OF run(2) assms(4-6) fresh, of h b] assms(3)
    by simp
  then have "map_option fst (blocks (blockchain nd1) h) = map_option fst (blocks (blockchain nd2) h)" by (rule option_eqI)
  moreover have "block_state nd1 h = block_state nd2 h" if known: "blocks (blockchain nd1) h \<noteq> None"
  proof -
    obtain b n where b: "blocks (blockchain nd1) h = Some (b, n)" using known by auto
    have "node_safe nd1" by (rule handle_message_safe [OF assms(1,4)])
    then obtain s where "block_state nd1 h = Some s" using known by (auto simp: node_safe_iff)
    with same [of b s] b show ?thesis by simp
  qed
  ultimately show ?thesis by blast
qed

theorem blocks_order_independent_witness:
  "\<exists>nd1 r1 nd2 r2. handle_message (demo_crates False) (init_node (demo_crates False)) []
       (Blocks [demo_b2, demo_b1]) = Ret (nd1, r1) \<and>
     handle_message (demo_crates False) (init_node (demo_crates False)) []
       (Blocks [demo_b1, demo_b2]) = Ret (nd2, r2) \<and>
     map_option fst (blocks (blockchain nd1) (pad32 [0, 3, 2])) =
     map_option fst (blocks (blockchain nd2) (pad32 [0, 3, 2]))"
proof -
  let ?X = "demo_crates False" and ?nd = "init_node (demo_crates False)"
  obtain nd1 os1 out1 where r1: "handle_message ?X ?nd [] (Blocks [demo_b2, demo_b1]) = Ret (nd1, os1, out1)"
    by (rule demo_handle_Blocks)
  obtain nd2 os2 out2 where r2: "handle_message ?X ?nd [] (Blocks [demo_b1, demo_b2]) = Ret (nd2, os2, out2)"
    using handle_message_panic [OF init_node_safe, of ?X ?X "[]" "Blocks [demo_b1, demo_b2]"]
    by (cases "handle_message ?X ?nd [] (Blocks [demo_b1, demo_b2])") (auto simp del: handle_message.simps)
  have "map_option fst (blocks (blockchain nd1) (pad32 [0, 3, 2])) =
      map_option fst (blocks (blockchain nd2) (pad32 [0, 3, 2]))"
    using demo_fresh [of False]
    by (intro conjunct1 [OF blocks_order_independent [OF r1 r2]]) (auto simp: orphans_wait_def orphans_pow_def)
  with r1 r2 show ?thesis by blast
qed

text \<open>
  C23: a worker strands no orphan itself. If after a message, which it handles undisturbed, a buffered block has its parent
  in the tree, then it was in the buffer before the message and its parent was in the tree
  before: whatever parents the message brings, each releases every block that waits for it,
  and no block is buffered whose parent is known. (Blocks whose parents came by another
  thread are the ones that stay.)
\<close>

theorem orphan_buffer_complete:
  assumes "handle_message X nd os msg = Ret (nd', os', out)"
    and "b \<in> set os'" and "blocks (blockchain nd') (parent (head b)) \<noteq> None"
  shows "b \<in> set os \<and> blocks (blockchain nd) (parent (head b)) \<noteq> None"
proof (cases "\<exists>bs. msg = Blocks bs")
  case True
  let ?S = "{b \<in> set os. blocks (blockchain nd) (parent (head b)) \<noteq> None}"
  have "orphans_left ?S nd os" by (auto simp: orphans_left_def waits_def simp del: not_None_eq)
  then have "orphans_left ?S nd' os'" using assms(1) True handle_Blocks_left by auto
  with assms(2,3) show ?thesis by (auto simp: orphans_left_def waits_def)
next
  case False
  from assms(1) show ?thesis
  proof (cases rule: handle_message_cases)
    case (blocks bs nb)
    with False show ?thesis by blast
  next
    case (transactions mp)
    with assms(2,3) show ?thesis by simp
  qed
qed

text \<open>
  The example: an orphan whose parent is known from elsewhere.
\<close>

theorem orphan_buffer_complete_witness:
  "\<exists>nd r0 nd' os' out. handle_message (demo_crates False) (init_node (demo_crates False)) [] (Blocks [demo_b1]) = Ret (nd, r0) \<and>
     handle_message (demo_crates False) nd [demo_b2] (Blocks []) = Ret (nd', os', out) \<and> demo_b2 \<in> set os' \<and>
     demo_b2 \<in> set [demo_b2] \<and> blocks (blockchain nd) (pad32 [0, 2, 1]) \<noteq> None"
proof -
  let ?X = "demo_crates False"
  obtain nd os out n where r0: "handle_message ?X (init_node ?X) [] (Blocks [demo_b1]) = Ret (nd, os, out)"
    "blocks (blockchain nd) (pad32 [0, 2, 1]) = Some (demo_b1, n)" by (rule demo_b1_received)
  have run: "handle_message ?X nd [demo_b2] (Blocks []) = Ret (nd, [demo_b2], [])" by (simp add: handle_Blocks_def)
  have "demo_b2 \<in> set [demo_b2] \<and> blocks (blockchain nd) (parent (head demo_b2)) \<noteq> None"
    by (rule orphan_buffer_complete [OF run]) (use r0(2) in simp_all)
  with r0(1) run show ?thesis by auto
qed

end
