(* ===== verification/Merkle.thy ===== *)
theory Merkle
  imports Types
begin

text \<open>
  \<open>src/src/types/merkle.rs\<close>: building a Merkle tree bottom up, its root, inclusion proofs
  and their verification, and \<open>generate_random_block_my\<close> of \<open>src/src/types/block.rs\<close>,
  which uses it. The loops are modelled with their indices, and every slice access can
  panic. The second half relates the tree to a recursive reference (\<open>mlevels\<close>,
  \<open>mroot\<close>, \<open>mproof\<close>) on lists of leaf hashes.
\<close>

section \<open>The program\<close>

record MerkleTree =
  treeList :: "H256 list list"

text \<open>One SHA-256 context fed with two hashes.\<close>

definition combine :: "(u8 list \<Rightarrow> H256) \<Rightarrow> H256 \<Rightarrow> H256 \<Rightarrow> H256" where
  "combine sha a b = sha (h256_bytes a @ h256_bytes b)"

text \<open>A level whose length is odd and not 1 gets its last element twice.\<close>

definition pad_level :: "H256 list \<Rightarrow> H256 list" where
  "pad_level level =
     (if length level \<noteq> 1 \<and> length level mod 2 \<noteq> 0
      then level @ [level ! (length level - 1)] else level)"

text \<open>The inner loop of \<open>new\<close>: combine elements \<open>index\<close> and \<open>index + 1\<close>, step 2.\<close>

function comb_loop ::
  "(u8 list \<Rightarrow> H256) \<Rightarrow> H256 list \<Rightarrow> nat \<Rightarrow> H256 list \<Rightarrow> H256 list res" where
  "comb_loop sha level ix next_level =
     (if length level \<le> ix then Ret next_level
      else bind_res (slice_index level ix) (\<lambda>a.
           bind_res (slice_index level (ix + 1)) (\<lambda>b.
           comb_loop sha level (ix + 2) (next_level @ [combine sha a b]))))"
  by pat_completeness auto
termination
  by (relation "measure (\<lambda>(sha, level, ix, next_level). length level - ix)") auto

text \<open>
  The outer loop of \<open>new\<close>, which pushes levels onto the tree it walks. For a tree with
  an empty level it would run forever, so its result is an option: \<open>None\<close> is
  non-termination. \<open>mt_new_total\<close> below shows that \<open>new\<close> always returns.
\<close>

partial_function (option) levels_loop ::
  "(u8 list \<Rightarrow> H256) \<Rightarrow> H256 list list \<Rightarrow> nat \<Rightarrow> H256 list list res option" where
  "levels_loop sha tree current_level =
     (if length tree \<le> current_level then Some (Ret tree)
      else if length (tree ! current_level) = 1 then Some (Ret tree)
      else (case comb_loop sha (tree ! current_level) 0 [] of
              Panic p \<Rightarrow> Some (Panic p)
            | Ret next_level \<Rightarrow>
                levels_loop sha (tree @ [pad_level next_level]) (current_level + 1)))"

definition mt_new ::
  "(u8 list \<Rightarrow> H256) \<Rightarrow> ('a \<Rightarrow> H256) \<Rightarrow> 'a list \<Rightarrow> MerkleTree res option" where
  "mt_new sha hash data =
     (if data = [] then Some (Ret \<lparr>treeList = []\<rparr>)
      else let level0 = pad_level (map hash data)
           in map_option (\<lambda>r. bind_res r (\<lambda>tree. Ret \<lparr>treeList = tree\<rparr>))
                (levels_loop sha [level0] 0))"

text \<open>\<open>slice::get\<close>.\<close>

definition slice_get :: "'a list \<Rightarrow> nat \<Rightarrow> 'a option" where
  "slice_get xs i = (if i < length xs then Some (xs ! i) else None)"

definition mt_root :: "MerkleTree \<Rightarrow> H256 res" where
  "mt_root self =
     (if treeList self = [] then Ret (h256_fill 0)
      else let tree = treeList self
           in bind_res (unwrap (slice_get tree (length tree - 1))) (\<lambda>level.
              unwrap (slice_get level 0)))"

function proof_loop :: "H256 list list \<Rightarrow> nat \<Rightarrow> nat \<Rightarrow> H256 list \<Rightarrow> H256 list res" where
  "proof_loop tree i level proof_list =
     (if length tree - 1 \<le> level then Ret proof_list
      else bind_res (slice_index tree level) (\<lambda>l.
           bind_res (if i mod 2 = 0 then slice_index l (i + 1) else slice_index l (i - 1)) (\<lambda>h.
           proof_loop tree (i div 2) (level + 1) (proof_list @ [h]))))"
  by pat_completeness auto
termination
  by (relation "measure (\<lambda>(tree, i, level, proof_list). length tree - 1 - level)") auto

definition mt_proof :: "MerkleTree \<Rightarrow> nat \<Rightarrow> H256 list res" where
  "mt_proof self ix =
     bind_res (slice_index (treeList self) 0) (\<lambda>leaves.
       if length leaves \<le> ix then Ret [] else proof_loop (treeList self) ix 0 [])"

text \<open>The loop of \<open>verify\<close>, over the elements of the proof.\<close>

fun verify_loop :: "(u8 list \<Rightarrow> H256) \<Rightarrow> H256 list \<Rightarrow> nat \<Rightarrow> H256 \<Rightarrow> H256" where
  "verify_loop sha [] datum_index current_hash = current_hash"
| "verify_loop sha (p # ps) datum_index current_hash =
     verify_loop sha ps (datum_index div 2)
       (if datum_index mod 2 = 0 then combine sha current_hash p else combine sha p current_hash)"

definition mt_verify ::
  "(u8 list \<Rightarrow> H256) \<Rightarrow> H256 \<Rightarrow> H256 \<Rightarrow> H256 list \<Rightarrow> nat \<Rightarrow> nat \<Rightarrow> bool" where
  "mt_verify sha root datum prf ix leaf_size =
     (if leaf_size \<le> ix then False
      else if leaf_size \<le> 0 then False
      else verify_loop sha prf ix datum = root)"

text \<open>
  \<open>generate_random_block_my\<close>: an empty block on a parent. The nonce and the time are
  arguments; the Merkle root is that of the tree of an empty list.
\<close>

definition random_block_difficulty :: H256 where
  "random_block_difficulty =
     H256 [0x96, 0x5b, 0x09, 0x3a, 0x75, 0xa7, 0x58, 0x95, 0xa3, 0x51, 0x78, 0x6d, 0xd7, 0xa1, 0x88, 0x51,
           0x51, 0x73, 0xf6, 0x92, 0x8a, 0x8a, 0xf8, 0xc9, 0xba, 0xa4, 0xdc, 0xff, 0x26, 0x8a, 0x4f, 0x0f]"

definition generate_random_block_my ::
  "(u8 list \<Rightarrow> H256) \<Rightarrow> u32 \<Rightarrow> u128 \<Rightarrow> H256 \<Rightarrow> Block res option" where
  "generate_random_block_my sha rand_nonce millis par =
     map_option (\<lambda>t. bind_res t (\<lambda>tree. bind_res (mt_root tree) (\<lambda>root.
       Ret \<lparr>head = \<lparr>parent = par, nonce = rand_nonce, difficulty = random_block_difficulty,
                     timestamp = millis, merkle_root = root\<rparr>,
            cont = \<lparr>st = []\<rparr>\<rparr>)))
     (mt_new sha (H256_hash sha) [])"

declare comb_loop.simps [simp del] proof_loop.simps [simp del]

section \<open>The reference\<close>

text \<open>Levels the program builds have length 1 or an even positive length.\<close>

definition good_level :: "H256 list \<Rightarrow> bool" where
  "good_level level \<longleftrightarrow> level \<noteq> [] \<and> (length level = 1 \<or> even (length level))"

lemma good_pad_level: "level \<noteq> [] \<Longrightarrow> good_level (pad_level level)"
  by (auto simp: good_level_def pad_level_def)

lemma pad_level_nth: "i < length level \<Longrightarrow> pad_level level ! i = level ! i"
  by (simp add: pad_level_def nth_append)

lemma length_pad_level_le: "length level \<le> length (pad_level level)"
  by (simp add: pad_level_def)

lemma length_pad_level:
  "length (pad_level level) =
     (if length level \<noteq> 1 \<and> odd (length level) then length level + 1 else length level)"
  by (simp add: pad_level_def odd_iff_mod_2_eq_one)

text \<open>All pairs of a level.\<close>

fun pair_up :: "(u8 list \<Rightarrow> H256) \<Rightarrow> H256 list \<Rightarrow> H256 list" where
  "pair_up sha (a # b # level) = combine sha a b # pair_up sha level"
| "pair_up sha _ = []"

lemma length_pair_up [simp]: "length (pair_up sha level) = length level div 2"
  by (induction sha level rule: pair_up.induct) auto

lemma pair_up_nth:
  "2 * j + 1 < length level \<Longrightarrow>
     pair_up sha level ! j = combine sha (level ! (2 * j)) (level ! (2 * j + 1))"
proof (induction sha level arbitrary: j rule: pair_up.induct)
  case (1 sha a b level)
  then show ?case by (cases j) auto
qed auto

definition next_level :: "(u8 list \<Rightarrow> H256) \<Rightarrow> H256 list \<Rightarrow> H256 list" where
  "next_level sha level = pad_level (pair_up sha level)"

lemma length_next_level_less:
  "1 < length level \<Longrightarrow> length (next_level sha level) < length level"
  by (auto simp: next_level_def length_pad_level)

lemma good_next_level: "1 < length level \<Longrightarrow> good_level (next_level sha level)"
  unfolding next_level_def by (rule good_pad_level) (auto simp flip: length_0_conv)

lemma next_level_position:
  "even (length level) \<Longrightarrow> i < length level \<Longrightarrow> i div 2 < length (next_level sha level)"
proof -
  assume "even (length level)" "i < length level"
  then have "i div 2 < length (pair_up sha level)" by (auto elim!: evenE)
  also have "\<dots> \<le> length (next_level sha level)"
    unfolding next_level_def by (rule length_pad_level_le)
  finally show ?thesis .
qed

text \<open>The levels above and including a level, its root, and the proof of a position.\<close>

function mlevels :: "(u8 list \<Rightarrow> H256) \<Rightarrow> H256 list \<Rightarrow> H256 list list" where
  "mlevels sha level =
     (if length level \<le> 1 then [level] else level # mlevels sha (next_level sha level))"
  by pat_completeness auto
termination
  by (relation "measure (\<lambda>(sha, level). length level)") (auto simp: length_next_level_less)

function mroot :: "(u8 list \<Rightarrow> H256) \<Rightarrow> H256 list \<Rightarrow> H256" where
  "mroot sha level =
     (if length level \<le> 1 then level ! 0 else mroot sha (next_level sha level))"
  by pat_completeness auto
termination
  by (relation "measure (\<lambda>(sha, level). length level)") (auto simp: length_next_level_less)

function mproof :: "(u8 list \<Rightarrow> H256) \<Rightarrow> H256 list \<Rightarrow> nat \<Rightarrow> H256 list" where
  "mproof sha level i =
     (if length level \<le> 1 then []
      else level ! (if even i then i + 1 else i - 1) # mproof sha (next_level sha level) (i div 2))"
  by pat_completeness auto
termination
  by (relation "measure (\<lambda>(sha, level, i). length level)") (auto simp: length_next_level_less)

declare mlevels.simps [simp del] mroot.simps [simp del] mproof.simps [simp del]

lemma mlevels_small: "length level \<le> 1 \<Longrightarrow> mlevels sha level = [level]"
  by (simp add: mlevels.simps)

lemma mlevels_big:
  "1 < length level \<Longrightarrow> mlevels sha level = level # mlevels sha (next_level sha level)"
  by (simp add: mlevels.simps [of sha level])

lemma mlevels_not_Nil [simp]: "mlevels sha level \<noteq> []"
  by (cases "length level \<le> 1") (simp_all add: mlevels_small mlevels_big not_le)

section \<open>The loops compute the reference\<close>

lemma comb_loop_pair_up:
  "even (length level) \<Longrightarrow> even ix \<Longrightarrow>
     comb_loop sha level ix acc = Ret (acc @ pair_up sha (drop ix level))"
proof (induction sha level ix acc rule: comb_loop.induct)
  case (1 sha level ix acc)
  show ?case
  proof (cases "length level \<le> ix")
    case True
    then show ?thesis by (simp add: comb_loop.simps)
  next
    case False
    then have ix: "ix + 1 < length level" using "1.prems" by presburger
    then have "drop ix level = level ! ix # level ! (ix + 1) # drop (ix + 2) level"
      by (simp add: Cons_nth_drop_Suc)
    with ix "1.IH" "1.prems" show ?thesis
      by (simp add: comb_loop.simps [of sha level ix acc])
  qed
qed

lemma levels_loop_mlevels:
  "good_level level \<Longrightarrow>
     levels_loop sha (pre @ [level]) (length pre) = Some (Ret (pre @ mlevels sha level))"
proof (induction sha level arbitrary: pre rule: mlevels.induct)
  case (1 sha level)
  show ?case
  proof (cases "length level \<le> 1")
    case True
    then have "length level = 1"
      using "1.prems" by (cases level) (auto simp: good_level_def)
    then show ?thesis by (simp add: levels_loop.simps mlevels_small)
  next
    case False
    then have big: "1 < length level" by simp
    then have "even (length level)" using "1.prems" by (auto simp: good_level_def)
    then have "comb_loop sha level 0 [] = Ret (pair_up sha level)"
      by (simp add: comb_loop_pair_up)
    with big have "levels_loop sha (pre @ [level]) (length pre) =
        levels_loop sha ((pre @ [level]) @ [next_level sha level]) (length (pre @ [level]))"
      by (simp add: levels_loop.simps [of sha "pre @ [level]" "length pre"] next_level_def)
    also have "\<dots> = Some (Ret ((pre @ [level]) @ mlevels sha (next_level sha level)))"
      using False good_next_level [OF big] by (rule "1.IH")
    finally show ?thesis by (simp add: mlevels_big [OF big])
  qed
qed

lemma mt_new_mlevels:
  "data \<noteq> [] \<Longrightarrow>
     mt_new sha hash data = Some (Ret \<lparr>treeList = mlevels sha (pad_level (map hash data))\<rparr>)"
  using levels_loop_mlevels [of "pad_level (map hash data)" sha "[]"]
  by (simp add: mt_new_def good_pad_level)

lemma last_mlevels: "good_level level \<Longrightarrow> last (mlevels sha level) = [mroot sha level]"
proof (induction sha level rule: mlevels.induct)
  case (1 sha level)
  show ?case
  proof (cases "length level \<le> 1")
    case True
    with "1.prems" show ?thesis
      by (cases level) (auto simp: good_level_def mlevels_small mroot.simps)
  next
    case False
    with "1.IH" good_next_level [of level sha] show ?thesis
      by (simp add: mlevels_big mroot.simps [of sha level])
  qed
qed

lemma mt_root_mlevels:
  "good_level level \<Longrightarrow> mt_root \<lparr>treeList = mlevels sha level\<rparr> = Ret (mroot sha level)"
  using last_mlevels [of level sha]
  by (simp add: mt_root_def slice_get_def Let_def last_conv_nth)

lemma proof_loop_mproof:
  "good_level level \<Longrightarrow> i < length level \<Longrightarrow>
     proof_loop (pre @ mlevels sha level) i (length pre) acc = Ret (acc @ mproof sha level i)"
proof (induction sha level arbitrary: pre i acc rule: mlevels.induct)
  case (1 sha level)
  show ?case
  proof (cases "length level \<le> 1")
    case True
    then show ?thesis by (simp add: proof_loop.simps mlevels_small mproof.simps)
  next
    case False
    then have big: "1 < length level" by simp
    then have ev: "even (length level)" using "1.prems" by (auto simp: good_level_def)
    let ?sib = "if even i then i + 1 else i - 1"
    have sib: "?sib < length level" using ev "1.prems"(2) by presburger
    have i2: "i div 2 < length (next_level sha level)"
      using ev "1.prems"(2) by (rule next_level_position)
    let ?tree = "pre @ mlevels sha level"
    have tree: "?tree = (pre @ [level]) @ mlevels sha (next_level sha level)"
      by (simp add: mlevels_big [OF big])
    have "proof_loop ?tree i (length pre) acc =
        proof_loop ?tree (i div 2) (length pre + 1) (acc @ [level ! ?sib])"
      using sib by (subst proof_loop.simps)
        (auto simp: tree nth_append even_iff_mod_2_eq_zero simp flip: length_greater_0_conv)
    also have "\<dots> = Ret ((acc @ [level ! ?sib]) @ mproof sha (next_level sha level) (i div 2))"
      unfolding tree using "1.IH" [OF False good_next_level [OF big] i2, of "pre @ [level]"] by simp
    finally show ?thesis using False by (simp add: mproof.simps [of sha level i])
  qed
qed

lemma mt_proof_mproof:
  "good_level level \<Longrightarrow> i < length level \<Longrightarrow>
     mt_proof \<lparr>treeList = mlevels sha level\<rparr> i = Ret (mproof sha level i)"
  using proof_loop_mproof [of level i "[]" sha "[]"]
  by (cases "length level \<le> 1") (simp_all add: mt_proof_def mlevels_small mlevels_big)

text \<open>Position \<open>i\<close> of a level and its sibling combine to position \<open>i div 2\<close> above.\<close>

lemma next_level_nth:
  assumes "even (length level)" and "i < length level"
  shows "next_level sha level ! (i div 2) =
    (if even i then combine sha (level ! i) (level ! (i + 1))
     else combine sha (level ! (i - 1)) (level ! i))"
proof -
  have i: "2 * (i div 2) + 1 < length level" using assms by presburger
  then have "next_level sha level ! (i div 2) = pair_up sha level ! (i div 2)"
    unfolding next_level_def by (intro pad_level_nth) simp
  also have "\<dots> = combine sha (level ! (2 * (i div 2))) (level ! (2 * (i div 2) + 1))"
    using i by (rule pair_up_nth)
  also have "\<dots> = (if even i then combine sha (level ! i) (level ! (i + 1))
     else combine sha (level ! (i - 1)) (level ! i))"
    by (auto elim!: oddE)
  finally show ?thesis .
qed

lemma verify_loop_mproof:
  "good_level level \<Longrightarrow> i < length level \<Longrightarrow>
     verify_loop sha (mproof sha level i) i (level ! i) = mroot sha level"
proof (induction sha level arbitrary: i rule: mlevels.induct)
  case (1 sha level)
  show ?case
  proof (cases "length level \<le> 1")
    case True
    with "1.prems"(2) have "i = 0" by linarith
    with True show ?thesis by (simp add: mproof.simps mroot.simps)
  next
    case False
    then have ev: "even (length level)" using "1.prems" by (auto simp: good_level_def)
    have i2: "i div 2 < length (next_level sha level)"
      using ev "1.prems"(2) by (rule next_level_position)
    have "verify_loop sha (mproof sha (next_level sha level) (i div 2)) (i div 2)
            (next_level sha level ! (i div 2)) = mroot sha (next_level sha level)"
      using False good_next_level [of level sha] i2 by (intro "1.IH") auto
    with False next_level_nth [OF ev "1.prems"(2), of sha] show ?thesis
      by (simp add: mproof.simps [of sha level i] mroot.simps [of sha level]
          even_iff_mod_2_eq_zero split: if_splits)
  qed
qed

lemma length_mproof: "good_level level \<Longrightarrow>
    length (mproof sha level i) = length (mlevels sha level) - 1"
proof (induction sha level arbitrary: i rule: mlevels.induct)
  case (1 sha level)
  show ?case
  proof (cases "length level \<le> 1")
    case False
    have "0 < length (mlevels sha (next_level sha level))" by simp
    with False "1.IH" good_next_level [of level sha] show ?thesis
      by (simp add: mproof.simps [of sha level i] mlevels_big del: length_greater_0_conv)
  qed (simp add: mproof.simps mlevels_small)
qed

section \<open>Depth\<close>

lemma even_less_of_le:
  "even (p :: nat) \<Longrightarrow> p \<le> l + 1 \<Longrightarrow> p \<noteq> l \<Longrightarrow> even l \<Longrightarrow> p < l"
  by presburger

lemma length_mproof_bounds:
  "good_level level \<Longrightarrow>
     length level \<le> 2 ^ length (mproof sha level i) \<and>
     2 ^ length (mproof sha level i) < 2 * length level"
proof (induction sha level arbitrary: i rule: mlevels.induct)
  case (1 sha level)
  show ?case
  proof (cases "length level \<le> 1")
    case True
    then show ?thesis
      using "1.prems" by (cases level) (auto simp: mproof.simps good_level_def)
  next
    case False
    let ?up = "next_level sha level" and ?d = "length (mproof sha (next_level sha level) (i div 2))"
    have ev: "even (length level)" and big: "1 < length level"
      using False "1.prems" by (auto simp: good_level_def)
    have IH: "length ?up \<le> 2 ^ ?d" "2 ^ ?d < 2 * length ?up"
      using "1.IH" [OF False good_next_level [OF big], of "i div 2"] by auto
    have up: "length level \<le> 2 * length ?up"
      using ev length_pad_level_le [of "pair_up sha level"]
      by (simp add: next_level_def) presburger
    have "2 ^ ?d < length level"
    proof (cases "length ?up = length level div 2")
      case True
      with IH(2) ev show ?thesis by simp
    next
      case pad: False
      then have eq: "length ?up = length level div 2 + 1" and odd: "odd (length level div 2)"
        by (auto simp: next_level_def length_pad_level split: if_splits)
      have "even ((2::nat) ^ ?d)" using IH(1) eq big by (cases ?d) auto
      moreover have "(2::nat) ^ ?d \<le> length level + 1" using IH(2) eq ev by presburger
      moreover have "(2::nat) ^ ?d \<noteq> length level"
      proof
        assume pow: "2 ^ ?d = length level"
        with big obtain d where d: "?d = Suc d" by (cases ?d) auto
        with pow have half: "length level div 2 = 2 ^ d" by simp
        with odd have "d = 0" by (cases d) auto
        with half eq IH(1) d have "length ?up = 2" "length level = 2" using pow by auto
        with length_next_level_less [OF big, of sha] show False by simp
      qed
      ultimately show ?thesis using ev by (intro even_less_of_le)
    qed
    with False up IH(1) show ?thesis by (simp add: mproof.simps [of sha level i])
  qed
qed

section \<open>Two accepted proofs of one position\<close>

text \<open>
  Two different pairs of a datum and a proof of the same length that lead to the same
  root: walking both paths finds two different inputs of the digest with the same
  digest. The walk is a function, so the collision is exhibited, not only said to exist.
\<close>

definition node_input :: "nat \<Rightarrow> H256 \<Rightarrow> H256 \<Rightarrow> u8 list" where
  "node_input i d p =
     (if even i then h256_bytes d @ h256_bytes p else h256_bytes p @ h256_bytes d)"

fun find_collision ::
  "(u8 list \<Rightarrow> H256) \<Rightarrow> H256 list \<Rightarrow> H256 list \<Rightarrow> nat \<Rightarrow> H256 \<Rightarrow> H256 \<Rightarrow> (u8 list \<times> u8 list) option"
  where
  "find_collision sha (p # ps) (q # qs) i d e =
     (let x = node_input i d p; y = node_input i e q
      in if x \<noteq> y \<and> sha x = sha y then Some (x, y)
         else find_collision sha ps qs (i div 2) (sha x) (sha y))"
| "find_collision sha _ _ i d e = None"

lemma node_input_inj: "node_input i d p = node_input i e q \<Longrightarrow> d = e \<and> p = q"
  by (auto simp: node_input_def h256_bytes_inject split: if_splits)

lemma verify_loop_node:
  "verify_loop sha (p # ps) i d = verify_loop sha ps (i div 2) (sha (node_input i d p))"
  by (simp add: node_input_def combine_def even_iff_mod_2_eq_zero)

lemma verify_loop_collision:
  "length ps = length qs \<Longrightarrow> verify_loop sha ps i d = verify_loop sha qs i e \<Longrightarrow>
     (d, ps) \<noteq> (e, qs) \<Longrightarrow>
     \<exists>x y. find_collision sha ps qs i d e = Some (x, y) \<and> x \<noteq> y \<and> sha x = sha y"
proof (induction sha ps qs i d e rule: find_collision.induct)
  case (1 sha p ps q qs i d e)
  let ?x = "node_input i d p" and ?y = "node_input i e q"
  show ?case
  proof (cases "?x \<noteq> ?y \<and> sha ?x = sha ?y")
    case False
    have "(sha ?x, ps) \<noteq> (sha ?y, qs)"
      using False "1.prems"(3) node_input_inj [of i d p e q] by auto
    moreover have "verify_loop sha ps (i div 2) (sha ?x) = verify_loop sha qs (i div 2) (sha ?y)"
      using "1.prems"(2) by (simp only: verify_loop_node)
    ultimately show ?thesis
      using "1.IH" [OF refl refl False] "1.prems"(1) False by auto
  qed auto
qed auto

lemma merkle_complete_obtain:
  assumes "i < length data"
  obtains t r p where "mt_new sha hash data = Some (Ret t)" "mt_root t = Ret r"
    "mt_proof t i = Ret p" "mt_verify sha r (hash (data ! i)) p i (length data)"
    "p = mproof sha (pad_level (map hash data)) i" "t = \<lparr>treeList = mlevels sha (pad_level (map hash data))\<rparr>"
    "r = mroot sha (pad_level (map hash data))"
proof -
  let ?leaves = "pad_level (map hash data)"
  have ne: "data \<noteq> []" and good: "good_level ?leaves" and i: "i < length ?leaves"
    using assms length_pad_level_le [of "map hash data"] by (auto intro!: good_pad_level)
  have "verify_loop sha (mproof sha ?leaves i) i (hash (data ! i)) = mroot sha ?leaves"
    using verify_loop_mproof [OF good i, of sha] assms by (simp add: pad_level_nth)
  with ne good i assms show ?thesis
    by (intro that) (simp_all add: mt_new_mlevels mt_root_mlevels mt_proof_mproof mt_verify_def)
qed

lemma mt_new_total:
  "\<exists>t. mt_new sha hash data = Some (Ret t) \<and>
       mt_root t = Ret (if data = [] then h256_fill 0 else mroot sha (pad_level (map hash data)))"
proof (cases "data = []")
  case True
  then show ?thesis by (simp add: mt_new_def mt_root_def)
next
  case False
  then show ?thesis by (simp add: mt_new_mlevels mt_root_mlevels good_pad_level)
qed

section \<open>Properties\<close>

text \<open>
  C33: \<open>MerkleTree::new\<close> always terminates without a panic, on any data, and \<open>root\<close>
  returns the recursively defined Merkle root of the leaf hashes (all zero for no data).
\<close>

theorem merkle_new_root_total:
  "\<exists>t. mt_new sha hash data = Some (Ret t) \<and>
       mt_root t = Ret (if data = [] then h256_fill 0 else mroot sha (pad_level (map hash data)))"
  by (rule mt_new_total)

text \<open>
  C27: completeness of inclusion proofs. For every position of the data the proof the tree
  gives for it exists without a panic, and \<open>verify\<close> accepts it with the hash of the
  datum, the root of the tree and the number of data.
\<close>

theorem merkle_proof_complete:
  assumes "i < length data"
  shows "\<exists>t r p. mt_new sha hash data = Some (Ret t) \<and> mt_root t = Ret r \<and>
           mt_proof t i = Ret p \<and> mt_verify sha r (hash (data ! i)) p i (length data)"
  using merkle_complete_obtain [OF assms, of sha hash] by metis

theorem merkle_proof_complete_witness:
  "(2::nat) < length [1, 2, 3 :: u8] \<and>
   (\<exists>t r p. mt_new pad32 h256_fill [1, 2, 3] = Some (Ret t) \<and> mt_root t = Ret r \<and>
      mt_proof t 2 = Ret p \<and>
      mt_verify pad32 r (h256_fill ([1, 2, 3] ! 2)) p 2 (length [1, 2, 3 :: u8]))"
proof -
  have h: "(2::nat) < length [1, 2, 3 :: u8]" by simp
  show ?thesis using h merkle_proof_complete [OF h, of pad32 h256_fill] by blast
qed

text \<open>
  C28: soundness of inclusion proofs up to collisions. Whoever gets \<open>verify\<close> to accept a
  proof of the length of the genuine one, for a datum other than the one at that position or
  another proof for that datum, has exhibited a collision of SHA-256: \<open>find_collision\<close>
  computes it from the two proofs. (Proofs of another length can be accepted without one,
  see \<open>merkle_inner_node_accepted\<close>.)
\<close>

theorem merkle_forgery_gives_collision:
  assumes "i < length data" and "mt_new sha hash data = Some (Ret t)"
    and "mt_root t = Ret r" and "mt_proof t i = Ret p0"
    and "mt_verify sha r d p i (length data)" and "length p = length p0"
    and "(d, p) \<noteq> (hash (data ! i), p0)"
  shows "\<exists>x y. find_collision sha p p0 i d (hash (data ! i)) = Some (x, y) \<and> x \<noteq> y \<and> sha x = sha y"
proof -
  obtain t' r' p' where "mt_new sha hash data = Some (Ret t')" "mt_root t' = Ret r'"
    "mt_proof t' i = Ret p'" "mt_verify sha r' (hash (data ! i)) p' i (length data)"
    using merkle_complete_obtain assms(1) by metis
  with assms(2-5) have "verify_loop sha p i d = verify_loop sha p0 i (hash (data ! i))"
    by (auto simp: mt_verify_def split: if_splits)
  with assms(6,7) show ?thesis by (intro verify_loop_collision)
qed

theorem merkle_forgery_gives_collision_witness:
  "(let sha = (\<lambda>_. h256_fill 0); data = [h256_fill 1, h256_fill 2]
    in \<exists>x y. find_collision sha [h256_fill 2] [h256_fill 2] 0 (h256_fill 3) (id (data ! 0)) = Some (x, y)
         \<and> x \<noteq> y \<and> sha x = sha y)"
proof -
  let ?sha = "\<lambda>_. h256_fill 0" and ?data = "[h256_fill 1, h256_fill 2]"
  obtain t r p where t: "mt_new ?sha id ?data = Some (Ret t)" "mt_root t = Ret r"
    "mt_proof t 0 = Ret p" and p: "p = mproof ?sha (pad_level (map id ?data)) 0"
    and r: "r = mroot ?sha (pad_level (map id ?data))"
    using merkle_complete_obtain [of 0 ?data ?sha id] by auto
  have p': "p = [h256_fill 2]"
    unfolding p by (simp add: pad_level_def mproof.simps next_level_def)
  have r': "r = h256_fill 0"
    unfolding r by (simp add: pad_level_def mroot.simps next_level_def combine_def)
  have v: "mt_verify ?sha r (h256_fill 3) [h256_fill 2] 0 (length ?data)"
    by (simp add: mt_verify_def r' combine_def)
  have "\<exists>x y. find_collision ?sha [h256_fill 2] p 0 (h256_fill 3) (id (?data ! 0)) = Some (x, y)
      \<and> x \<noteq> y \<and> ?sha x = ?sha y"
    by (rule merkle_forgery_gives_collision [OF _ t v]) (simp_all add: p')
  then show ?thesis by (simp add: p')
qed

text \<open>
  A proof is as long as the tree is deep: between the logarithm of the number of data
  and one more than it.
\<close>

theorem merkle_proof_length:
  assumes "i < length data" and "mt_new sha hash data = Some (Ret t)" and "mt_proof t i = Ret p"
  shows "length data \<le> 2 ^ length p \<and> 2 ^ length p < 2 * (length data + 1) \<and>
         length p = length (treeList t) - 1"
proof -
  let ?leaves = "pad_level (map hash data)"
  obtain t' r' p' where "mt_new sha hash data = Some (Ret t')" "mt_proof t' i = Ret p'"
    and p': "p' = mproof sha ?leaves i" and t': "t' = \<lparr>treeList = mlevels sha ?leaves\<rparr>"
    using merkle_complete_obtain [OF assms(1), of sha hash] by metis
  with assms(2,3) have "p = mproof sha ?leaves i" "t = \<lparr>treeList = mlevels sha ?leaves\<rparr>" by auto
  moreover have good: "good_level ?leaves" using assms(1) by (auto intro!: good_pad_level)
  moreover have "length data \<le> length ?leaves" "length ?leaves \<le> length data + 1"
    by (auto simp: length_pad_level)
  ultimately show ?thesis
    using length_mproof_bounds [OF good, of sha i] length_mproof [OF good, of sha i] by simp
qed

theorem merkle_proof_length_witness:
  "\<exists>t p. mt_new pad32 h256_fill [1, 2, 3 :: u8] = Some (Ret t) \<and> mt_proof t 2 = Ret p \<and>
     (3::nat) \<le> 2 ^ length p \<and> 2 ^ length p < 2 * (3 + 1 :: nat) \<and> length p = length (treeList t) - 1"
proof -
  obtain t p where t: "mt_new pad32 h256_fill [1, 2, 3 :: u8] = Some (Ret t)" "mt_proof t 2 = Ret p"
    using merkle_complete_obtain [of 2 "[1, 2, 3 :: u8]" pad32 h256_fill] by auto
  with merkle_proof_length [OF _ t] show ?thesis by auto
qed

text \<open>
  The root does not determine the number of data. For an odd number of data above
  one, repeating the last datum gives the same tree.
\<close>

theorem merkle_duplicate_last:
  assumes "odd (length data)" and "1 < length data"
  shows "mt_new sha hash (data @ [last data]) = mt_new sha hash data"
proof -
  have "data \<noteq> []" using assms by auto
  then have "last (map hash data) = map hash data ! (length data - 1)"
    by (simp add: last_map last_conv_nth)
  then have "pad_level (map hash (data @ [last data])) = pad_level (map hash data)"
    using assms \<open>data \<noteq> []\<close> by (simp add: pad_level_def last_map odd_iff_mod_2_eq_one mod_Suc)
  with \<open>data \<noteq> []\<close> show ?thesis by (simp add: mt_new_mlevels)
qed

theorem merkle_duplicate_last_witness:
  "mt_new pad32 h256_fill [1, 2, 3, 3] = mt_new pad32 h256_fill [1, 2, 3 :: u8]"
  using merkle_duplicate_last [of "[1, 2, 3 :: u8]" pad32 h256_fill] by simp

text \<open>
  \<open>verify\<close> does not check the length of the proof against \<open>leaf_size\<close>. For more
  than one datum it accepts every inner node above the leaves, presented as a datum, with
  the tail of a leaf's proof.
\<close>

theorem merkle_inner_node_accepted:
  assumes "i < length data" and "1 < length data"
    and "mt_new sha hash data = Some (Ret t)" and "mt_root t = Ret r" and "mt_proof t i = Ret p"
  shows "mt_verify sha r (treeList t ! 1 ! (i div 2)) (tl p) (i div 2) (length data)"
proof -
  let ?leaves = "pad_level (map hash data)"
  obtain t' r' p' where "mt_new sha hash data = Some (Ret t')" "mt_root t' = Ret r'"
    "mt_proof t' i = Ret p'" "p' = mproof sha ?leaves i"
    "t' = \<lparr>treeList = mlevels sha ?leaves\<rparr>" "r' = mroot sha ?leaves"
    using merkle_complete_obtain [OF assms(1), of sha hash] by metis
  with assms(3-5) have eqs: "p = mproof sha ?leaves i" "r = mroot sha ?leaves"
    "t = \<lparr>treeList = mlevels sha ?leaves\<rparr>" by auto
  have good: "good_level ?leaves" and big: "1 < length ?leaves"
    using assms(1,2) length_pad_level_le [of "map hash data"] by (auto intro!: good_pad_level)
  have i: "i < length ?leaves" using assms(1) length_pad_level_le [of "map hash data"] by simp
  have ev: "even (length ?leaves)" using good big by (auto simp: good_level_def)
  have i2: "i div 2 < length (next_level sha ?leaves)"
    using ev i by (rule next_level_position)
  have "treeList t ! 1 = next_level sha ?leaves"
    by (cases "length (next_level sha ?leaves) \<le> 1")
      (simp_all add: eqs mlevels_big [OF big] mlevels_small mlevels_big not_le)
  moreover have "tl p = mproof sha (next_level sha ?leaves) (i div 2)"
    using big by (simp add: eqs mproof.simps [of sha ?leaves i])
  moreover have "r = mroot sha (next_level sha ?leaves)"
    using big by (simp add: eqs mroot.simps [of sha ?leaves])
  ultimately show ?thesis
    using verify_loop_mproof [OF good_next_level [OF big] i2] assms(1)
    by (auto simp: mt_verify_def)
qed

theorem merkle_inner_node_accepted_witness:
  "\<exists>t r p. mt_new pad32 h256_fill [1, 2, 3 :: u8] = Some (Ret t) \<and> mt_root t = Ret r \<and>
     mt_proof t 2 = Ret p \<and> mt_verify pad32 r (treeList t ! 1 ! (2 div 2)) (tl p) (2 div 2)
       (length [1, 2, 3 :: u8])"
proof -
  obtain t r p where t: "mt_new pad32 h256_fill [1, 2, 3 :: u8] = Some (Ret t)" "mt_root t = Ret r"
    "mt_proof t 2 = Ret p"
    using merkle_complete_obtain [of 2 "[1, 2, 3 :: u8]" pad32 h256_fill] by auto
  have "mt_verify pad32 r (treeList t ! 1 ! (2 div 2)) (tl p) (2 div 2) (length [1, 2, 3 :: u8])"
    by (rule merkle_inner_node_accepted [OF _ _ t]) simp_all
  with t show ?thesis by blast
qed

end
