(* ===== verification/Control.thy ===== *)
theory Control
  imports Prelude
begin

text \<open>
  The miner and the transaction generator are loops steered by control signals; each module
  has its own signal and state types with the same protocol. The locale \<open>control_loop\<close>
  states that protocol and what a sequence of signals leads to; both modules interpret it.
\<close>

locale control_loop =
  fixes react :: "'o \<Rightarrow> 's \<Rightarrow> 'o"
    and start_sig :: "u64 \<Rightarrow> 's" and update_sig exit_sig :: 's
    and paused :: 'o and running :: "u64 \<Rightarrow> 'o" and shut_down :: 'o
  assumes react_start: "react c (start_sig i) = running i"
    and react_exit: "react c exit_sig = shut_down"
    and react_update: "react c update_sig = c"
    and signal_cases: "s = exit_sig \<or> s = update_sig \<or> (\<exists>i. s = start_sig i)"
    and signal_distinct: "start_sig i \<noteq> exit_sig" "start_sig i \<noteq> update_sig" "exit_sig \<noteq> update_sig"
    and mode_distinct: "running i \<noteq> paused" "running i \<noteq> shut_down" "paused \<noteq> shut_down"
begin

text \<open>A thread that was shut down has left its loop.\<close>

definition obey :: "'o \<Rightarrow> 's \<Rightarrow> 'o" where
  "obey c s = (if c = shut_down then c else react c s)"

lemma obey_simps [simp]:
  "obey c exit_sig = shut_down"
  "obey c update_sig = c"
  "c \<noteq> shut_down \<Longrightarrow> obey c (start_sig i) = running i"
  "obey shut_down s = shut_down"
  by (simp_all add: obey_def react_exit react_update react_start)

lemma obey_halted [simp]: "foldl obey shut_down ss = shut_down"
  by (induction ss) simp_all

lemma obey_shut: "c \<noteq> shut_down \<Longrightarrow> obey c s = shut_down \<longleftrightarrow> s = exit_sig"
  using signal_cases [of s] mode_distinct(2) signal_distinct by auto

lemma obey_shut_iff: "c \<noteq> shut_down \<Longrightarrow> foldl obey c ss = shut_down \<longleftrightarrow> exit_sig \<in> set ss"
proof (induction ss arbitrary: c)
  case (Cons s ss)
  show ?case
  proof (cases "s = exit_sig")
    case False
    with Cons.IH [of "obey c s"] obey_shut [OF Cons.prems, of s] show ?thesis by auto
  qed simp
qed simp

lemma obey_paused: "\<forall>i. start_sig i \<notin> set ss \<Longrightarrow> foldl obey paused ss \<in> {paused, shut_down}"
proof (induction ss)
  case (Cons s ss)
  then have "s = exit_sig \<or> s = update_sig" using signal_cases [of s] by auto
  then show ?case using Cons by auto
qed simp

lemma obey_last_start:
  "c \<noteq> shut_down \<Longrightarrow> exit_sig \<notin> set (ss @ ss') \<Longrightarrow> \<forall>j. start_sig j \<notin> set ss' \<Longrightarrow>
     foldl obey c (ss @ start_sig i # ss') = running i"
proof -
  assume "c \<noteq> shut_down" "exit_sig \<notin> set (ss @ ss')" and no: "\<forall>j. start_sig j \<notin> set ss'"
  then have "foldl obey c ss \<noteq> shut_down" and ne: "exit_sig \<notin> set ss'"
    using obey_shut_iff [of c ss] by simp_all
  then have "obey (foldl obey c ss) (start_sig i) = running i" by simp
  moreover have "foldl obey (running i) ss' = running i"
    using no ne
  proof (induction ss')
    case (Cons s ss')
    then have "s = update_sig" using signal_cases [of s] by auto
    with Cons show ?case by simp
  qed simp
  ultimately show ?thesis by simp
qed

end

end
