(* ===== verification/Miner.thy ===== *)
theory Miner
  imports Merkle Node Control
begin

text \<open>
  \<open>src/src/miner/mod.rs\<close>: the miner thread. A turn of \<open>miner_loop\<close> takes what the
  control channel, the random generator, the clock and the enumeration of the mempool's
  \<open>HashMap\<close> give it, and returns the node, the miner and the block it sent to the
  miner's worker, if any. The locks a turn takes one after the other are one step here.
\<close>

section \<open>The program\<close>

datatype ControlSignal = Start u64 | Update | Exit

datatype OperatingState = Paused | Run u64 | ShutDown

text \<open>The context of the thread and the local variables of its loop.\<close>

record Miner =
  operating_state :: OperatingState
  to_remove :: "H256 list"
  picked :: "SignedTransaction list"
  count :: i32

definition Miner_new :: Miner where
  "Miner_new = \<lparr>operating_state = Paused, to_remove = [], picked = [], count = 0\<rparr>"

text \<open>
  What the surroundings give to one turn: the signal, the nonce, the milliseconds since
  the epoch (\<open>None\<close> when the clock is before it), the order in which the mempool's map is
  iterated, and whether the worker still receives blocks.
\<close>

record MinerInput =
  signal :: "ControlSignal received"
  rnd :: u32
  clock :: "u128 option"
  order :: "(H256 \<times> SignedTransaction) list"
  receiver_alive :: bool

definition miner_react :: "OperatingState \<Rightarrow> ControlSignal \<Rightarrow> OperatingState" where
  "miner_react os s = (case s of Exit \<Rightarrow> ShutDown | Start i \<Rightarrow> Run i | Update \<Rightarrow> os)"

definition block_size :: nat where
  "block_size = 50"

fun select_loop ::
  "(H256 \<times> SignedTransaction) list \<Rightarrow> H256 list \<Rightarrow> SignedTransaction list \<Rightarrow>
     H256 list \<times> SignedTransaction list" where
  "select_loop [] rem txs = (rem, txs)"
| "select_loop ((h, t) # pool) rem txs =
     (if block_size \<le> length rem then (rem, txs)
      else select_loop pool (rem @ [h]) (txs @ [t]))"

definition miner_difficulty :: H256 where
  "miner_difficulty =
     H256 [0x00, 0x0f, 0xf9, 0x3a, 0x75, 0xa7, 0x58, 0x95, 0xa3, 0x51, 0x78, 0x6d, 0xd7, 0xa1, 0x88, 0x51,
           0x51, 0x73, 0xf6, 0x92, 0x8a, 0x8a, 0xf8, 0xc9, 0xba, 0xa4, 0xdc, 0xff, 0x26, 0x8a, 0x4f, 0x0f]"

text \<open>The block of one attempt; \<open>None\<close> would be a Merkle tree that is never finished.\<close>

definition candidate ::
  "Crates \<Rightarrow> SignedTransaction list \<Rightarrow> H256 \<Rightarrow> u32 \<Rightarrow> u128 \<Rightarrow> Block res option" where
  "candidate X txs par n millis =
     map_option (\<lambda>t. bind_res t (\<lambda>tree. bind_res (mt_root tree) (\<lambda>root.
       Ret \<lparr>head = \<lparr>parent = par, nonce = n, difficulty = miner_difficulty,
                     timestamp = millis, merkle_root = root\<rparr>,
            cont = \<lparr>st = txs\<rparr>\<rparr>)))
     (mt_new (sha256 X) (hash_stx X) txs)"

definition remove_mined :: "H256 list \<Rightarrow> Mempool \<Rightarrow> Mempool" where
  "remove_mined hs mp = fold (\<lambda>h mp. mp\<lparr>trans := (trans mp)(h := None)\<rparr>) hs mp"

text \<open>The body of the loop after the control part.\<close>

definition mine_once ::
  "Crates \<Rightarrow> Node \<Rightarrow> Miner \<Rightarrow> MinerInput \<Rightarrow> (Node \<times> Miner \<times> Block option) res option" where
  "mine_once X nd m inp =
     (case clock inp of
        None \<Rightarrow> Some (Panic Explicit)
      | Some millis \<Rightarrow>
          (let sel = (if length (to_remove m) = 0
                      then select_loop (order inp) (to_remove m) (picked m)
                      else (to_remove m, picked m));
               rem = fst sel;
               txs = snd sel
           in case candidate X txs (Blockchain_tip (blockchain nd)) (rnd inp) millis of
                None \<Rightarrow> None
              | Some r \<Rightarrow> Some (bind_res r (\<lambda>block.
                  bind_res
                    (if hash_block X block \<le> miner_difficulty
                     then if receiver_alive inp
                          then Ret (nd\<lparr>mempool := remove_mined rem (mempool nd)\<rparr>,
                                    m\<lparr>to_remove := [], picked := []\<rparr>, Some block)
                          else Panic ChannelClosed
                     else Ret (nd, m\<lparr>to_remove := rem, picked := txs\<rparr>, None))
                    (\<lambda>(nd', m', sent).
                       bind_res (inc_i32 (overflow_checks X) (count m')) (\<lambda>c.
                         Ret (nd', m'\<lparr>count := c\<rparr>, sent)))))))"

text \<open>
  One turn of \<open>miner_loop\<close>. In the paused state the blocking \<open>recv\<close> waits for a signal;
  a thread that was shut down has returned.
\<close>

definition miner_turn ::
  "Crates \<Rightarrow> Node \<Rightarrow> Miner \<Rightarrow> MinerInput \<Rightarrow> (Node \<times> Miner \<times> Block option) res option" where
  "miner_turn X nd m inp =
     (case operating_state m of
        Paused \<Rightarrow>
          (case signal inp of
             Received s \<Rightarrow> Some (Ret (nd, m\<lparr>operating_state := miner_react Paused s\<rparr>, None))
           | Nothing \<Rightarrow> Some (Ret (nd, m, None))
           | Disconnected \<Rightarrow> Some (Panic UnwrapErr))
      | ShutDown \<Rightarrow> Some (Ret (nd, m, None))
      | Run i \<Rightarrow>
          (case signal inp of
             Received s \<Rightarrow>
               (let m' = m\<lparr>operating_state := miner_react (Run i) s\<rparr>
                in if operating_state m' = ShutDown then Some (Ret (nd, m', None))
                   else mine_once X nd m' inp)
           | Nothing \<Rightarrow> mine_once X nd m inp
           | Disconnected \<Rightarrow> Some (Panic Explicit)))"

text \<open>Turns one after the other, with the blocks sent to the worker.\<close>

fun miner_loop ::
  "Crates \<Rightarrow> Node \<Rightarrow> Miner \<Rightarrow> MinerInput list \<Rightarrow> (Node \<times> Miner \<times> Block list) res option" where
  "miner_loop X nd m [] = Some (Ret (nd, m, []))"
| "miner_loop X nd m (inp # inps) =
     (case miner_turn X nd m inp of
        None \<Rightarrow> None
      | Some (Panic e) \<Rightarrow> Some (Panic e)
      | Some (Ret (nd', m', sent)) \<Rightarrow>
          map_option (\<lambda>r. bind_res r (\<lambda>(nd'', m'', bs).
            Ret (nd'', m'', (case sent of None \<Rightarrow> bs | Some b \<Rightarrow> b # bs))))
            (miner_loop X nd' m' inps))"

text \<open>\<open>Handle\<close>: the signals the methods put into the channel.\<close>

definition Handle_exit :: "ControlSignal list \<Rightarrow> ControlSignal list" where
  "Handle_exit chan = chan @ [Exit]"

definition Handle_start :: "ControlSignal list \<Rightarrow> u64 \<Rightarrow> ControlSignal list" where
  "Handle_start chan lambda = chan @ [Start lambda]"

definition Handle_update :: "ControlSignal list \<Rightarrow> ControlSignal list" where
  "Handle_update chan = chan @ [Update]"

text \<open>
  \<open>tx_exist_check\<close>: whether the longest chain lacks a transaction. The loop follows the
  parents while the height is at least one.
\<close>

function exist_loop :: "Crates \<Rightarrow> Blockchain \<Rightarrow> u32 \<Rightarrow> H256 \<Rightarrow> H256 \<Rightarrow> bool res" where
  "exist_loop X c height next_hash tx =
     (if 1 \<le> height
      then bind_res (unwrap (blocks c next_hash)) (\<lambda>e.
             if tx \<in> hash_stx X ` set (st (cont (fst e))) then Ret False
             else exist_loop X c (height - 1) (parent (head (fst e))) tx)
      else Ret True)"
  by pat_completeness auto
termination
  by (relation "measure (\<lambda>(X, c, height, next_hash, tx). unat height)")
    (auto simp: word_le_nat_alt unat_sub)

declare exist_loop.simps [simp del]

definition tx_exist_check :: "Crates \<Rightarrow> Blockchain \<Rightarrow> H256 \<Rightarrow> bool res" where
  "tx_exist_check X c tx =
     bind_res (unwrap (blocks c (tip c))) (\<lambda>e.
       if tx \<in> hash_stx X ` set (st (cont (fst e))) then Ret False
       else exist_loop X c (snd e) (parent (head (fst e))) tx)"

section \<open>Control\<close>

interpretation ml: control_loop miner_react Start Update Exit Paused Run ShutDown
  by unfold_locales (auto simp: miner_react_def intro: ControlSignal.exhaust)

section \<open>One attempt\<close>

lemma miner_difficulty_genesis [simp]: "miner_difficulty = genesis_difficulty"
  by (simp add: miner_difficulty_def genesis_difficulty_def)

lemma candidate_eq:
  "\<exists>root. candidate X txs par n millis =
     Some (Ret \<lparr>head = \<lparr>parent = par, nonce = n, difficulty = genesis_difficulty,
                         timestamp = millis, merkle_root = root\<rparr>,
                cont = \<lparr>st = txs\<rparr>\<rparr>) \<and>
     root = (if txs = [] then h256_fill 0 else mroot (sha256 X) (pad_level (map (hash_stx X) txs)))"
  using mt_new_total [of "sha256 X" "hash_stx X" txs] by (auto simp: candidate_def)

lemma select_loop_eq:
  "length rem \<le> block_size \<Longrightarrow> length rem = length txs \<Longrightarrow>
     select_loop pool rem txs =
       (rem @ map fst (take (block_size - length rem) pool),
        txs @ map snd (take (block_size - length rem) pool))"
proof (induction pool arbitrary: rem txs)
  case (Cons p pool)
  show ?case
  proof (cases "block_size \<le> length rem")
    case False
    with Cons.prems have "length (rem @ [fst p]) \<le> block_size"
      "length (rem @ [fst p]) = length (txs @ [snd p])" by simp_all
    from Cons.IH [OF this] False show ?thesis
      by (cases p) (simp add: Suc_diff_le take_Cons')
  qed (use Cons.prems in \<open>cases p, simp\<close>)
qed simp

lemma trans_remove_mined: "trans (remove_mined hs mp) h = (if h \<in> set hs then None else trans mp h)"
  by (induction hs arbitrary: mp) (auto simp: remove_mined_def)

text \<open>What the attempt works on: the remembered transactions, or the first fifty of the map.\<close>

definition selection :: "Miner \<Rightarrow> MinerInput \<Rightarrow> H256 list \<times> SignedTransaction list" where
  "selection m inp =
     (if length (to_remove m) = 0 then select_loop (order inp) (to_remove m) (picked m)
      else (to_remove m, picked m))"

definition attempt :: "Crates \<Rightarrow> Node \<Rightarrow> Miner \<Rightarrow> MinerInput \<Rightarrow> u128 \<Rightarrow> Block" where
  "attempt X nd m inp millis =
     \<lparr>head = \<lparr>parent = tip (blockchain nd), nonce = rnd inp, difficulty = genesis_difficulty,
              timestamp = millis,
              merkle_root = (if snd (selection m inp) = [] then h256_fill 0
                             else mroot (sha256 X) (pad_level (map (hash_stx X) (snd (selection m inp)))))\<rparr>,
      cont = \<lparr>st = snd (selection m inp)\<rparr>\<rparr>"

lemma mine_once_eq:
  "mine_once X nd m inp =
     (case clock inp of
        None \<Rightarrow> Some (Panic Explicit)
      | Some millis \<Rightarrow>
          (let b = attempt X nd m inp millis
           in if hash_block X b \<le> genesis_difficulty
              then if receiver_alive inp
                   then Some (bind_res (inc_i32 (overflow_checks X) (count m)) (\<lambda>c.
                     Ret (nd\<lparr>mempool := remove_mined (fst (selection m inp)) (mempool nd)\<rparr>,
                          m\<lparr>to_remove := [], picked := [], count := c\<rparr>, Some b)))
                   else Some (Panic ChannelClosed)
              else Some (bind_res (inc_i32 (overflow_checks X) (count m)) (\<lambda>c.
                     Ret (nd, m\<lparr>to_remove := fst (selection m inp), picked := snd (selection m inp),
                                count := c\<rparr>, None)))))"
proof (cases "clock inp")
  case (Some millis)
  have "candidate X (snd (selection m inp)) (Blockchain_tip (blockchain nd)) (rnd inp) millis =
      Some (Ret (attempt X nd m inp millis))"
    using candidate_eq [of X "snd (selection m inp)"] by (simp add: attempt_def Blockchain_tip_def)
  then show ?thesis
    unfolding mine_once_def selection_def [symmetric] using Some by (simp add: Let_def)
qed (simp add: mine_once_def)

definition miner_inv :: "Crates \<Rightarrow> Miner \<Rightarrow> bool" where
  "miner_inv X m \<longleftrightarrow> to_remove m = map (hash_stx X) (picked m) \<and> length (picked m) \<le> block_size"

lemma miner_inv_new: "miner_inv X Miner_new"
  by (simp add: miner_inv_def Miner_new_def)

lemma selection_inv:
  assumes "miner_inv X m" and "enumerates (order inp) (trans (mempool nd))" and "mempool_keyed X (mempool nd)"
  shows "fst (selection m inp) = map (hash_stx X) (snd (selection m inp))"
    and "length (snd (selection m inp)) \<le> block_size"
proof -
  have keyed: "hash_stx X t = h" if "(h, t) \<in> set (order inp)" for h t
    using that assms(2,3) by (auto simp: enumerates_def mempool_keyed_def)
  then have "map fst (take k (order inp)) = map (hash_stx X) (map snd (take k (order inp)))" for k
    by (auto dest: in_set_takeD)
  then show "fst (selection m inp) = map (hash_stx X) (snd (selection m inp))"
    using assms(1) by (auto simp: selection_def miner_inv_def select_loop_eq)
  show "length (snd (selection m inp)) \<le> block_size"
    using assms(1) by (auto simp: selection_def miner_inv_def select_loop_eq)
qed

text \<open>A working turn is an attempt in the running state; other turns send nothing.\<close>

lemma miner_turn_cases:
  obtains (idle) r where "miner_turn X nd m inp = Some r"
      "r = Panic UnwrapErr \<and> signal inp = Disconnected \<or> r = Panic Explicit \<and> signal inp = Disconnected \<or>
       (\<exists>os. r = Ret (nd, m\<lparr>operating_state := os\<rparr>, None))"
  | (work) os i where "operating_state m = Run i" "os \<noteq> ShutDown" "os \<noteq> Paused"
      "miner_turn X nd m inp = mine_once X nd (m\<lparr>operating_state := os\<rparr>) inp"
proof (cases "operating_state m")
  case Paused
  have "\<exists>os. m = m\<lparr>operating_state := os\<rparr>" by (rule exI [of _ "operating_state m"]) simp
  with Paused show ?thesis by (cases "signal inp") (auto simp: miner_turn_def intro!: idle)
next
  case ShutDown
  have "\<exists>os. m = m\<lparr>operating_state := os\<rparr>" by (rule exI [of _ "operating_state m"]) simp
  with ShutDown show ?thesis by (auto simp: miner_turn_def intro!: idle)
next
  case (Run i)
  have same: "m = m\<lparr>operating_state := Run i\<rparr>" using Run by (cases m) simp
  show ?thesis
  proof (cases "signal inp")
    case (Received s)
    show ?thesis
    proof (cases "miner_react (Run i) s = ShutDown")
      case True
      with Run Received show ?thesis by (intro idle) (auto simp: miner_turn_def Let_def)
    next
      case False
      moreover have "miner_react (Run i) s \<noteq> Paused" by (cases s) (simp_all add: miner_react_def)
      ultimately show ?thesis using Run Received by (intro work) (auto simp: miner_turn_def Let_def)
    qed
  next
    case Nothing
    with Run have "miner_turn X nd m inp = mine_once X nd (m\<lparr>operating_state := Run i\<rparr>) inp"
      by (simp add: miner_turn_def same [symmetric])
    with Run show ?thesis by (intro work) simp_all
  next
    case Disconnected
    with Run show ?thesis by (intro idle) (auto simp: miner_turn_def)
  qed
qed

lemma selection_operating [simp]: "selection (m\<lparr>operating_state := os\<rparr>) inp = selection m inp"
  by (simp add: selection_def)

lemma attempt_operating [simp]: "attempt X nd (m\<lparr>operating_state := os\<rparr>) inp ms = attempt X nd m inp ms"
  by (simp add: attempt_def)

lemma miner_turn_sent:
  assumes "miner_turn X nd m inp = Some (Ret (nd', m', Some b))"
  obtains millis where "clock inp = Some millis" "b = attempt X nd m inp millis"
    "hash_block X b \<le> genesis_difficulty"
    "nd' = nd\<lparr>mempool := remove_mined (fst (selection m inp)) (mempool nd)\<rparr>"
    "to_remove m' = []" "picked m' = []" "\<exists>i. operating_state m = Run i"
proof (cases rule: miner_turn_cases [of X nd m inp])
  case (idle r)
  with assms show ?thesis by auto
next
  case (work os i)
  with assms show ?thesis
    by (auto simp: mine_once_eq Let_def res_simps split: option.splits if_splits intro!: that)
qed

lemma miner_turn_mined:
  assumes "miner_turn X nd m inp = Some (Ret (nd', m', Some b))"
  shows "hash_block X b \<le> genesis_difficulty \<and> difficulty (head b) = genesis_difficulty \<and>
    parent (head b) = tip (blockchain nd)"
  by (rule miner_turn_sent [OF assms]) (simp add: attempt_def)

lemma miner_turn_frame:
  assumes "miner_turn X nd m inp = Some (Ret (nd', m', sent))"
  shows "nd' = nd\<lparr>mempool := mempool nd'\<rparr>"
proof (cases rule: miner_turn_cases [of X nd m inp])
  case (idle r)
  with assms show ?thesis by auto
next
  case (work os i)
  with assms show ?thesis
    by (auto simp: mine_once_eq Let_def res_simps split: option.splits if_splits)
qed

lemma miner_turn_inv:
  assumes "miner_turn X nd m inp = Some (Ret (nd', m', sent))"
    and "miner_inv X m" and "enumerates (order inp) (trans (mempool nd))" and "mempool_keyed X (mempool nd)"
  shows "miner_inv X m' \<and> mempool_keyed X (mempool nd') \<and> blockchain nd' = blockchain nd \<and>
    block_state nd' = block_state nd"
proof (cases rule: miner_turn_cases [of X nd m inp])
  case (idle r)
  with assms show ?thesis by (auto simp: miner_inv_def)
next
  case (work os i)
  note sel = selection_inv [OF assms(2-4)]
  from work(4) assms(1) have "mine_once X nd (m\<lparr>operating_state := os\<rparr>) inp = Some (Ret (nd', m', sent))"
    by simp
  then show ?thesis
    using sel assms(4)
    by (auto simp: mine_once_eq Let_def res_simps miner_inv_def mempool_keyed_def trans_remove_mined
        split: option.splits if_splits)
qed

section \<open>Properties\<close>

text \<open>
  C26: what the miner hands out. A block that a turn sends to the worker has the proof of
  work and the fixed difficulty, extends the tip the turn saw, carries at most fifty
  transactions and the Merkle root of them; the mempool loses exactly those transactions,
  and the loop starts over with an empty selection.
\<close>

theorem mined_block_wellformed:
  assumes "miner_turn X nd m inp = Some (Ret (nd', m', Some b))"
    and "miner_inv X m" and "enumerates (order inp) (trans (mempool nd))" and "mempool_keyed X (mempool nd)"
  shows "hash_block X b \<le> difficulty (head b) \<and> difficulty (head b) = genesis_difficulty \<and>
    parent (head b) = tip (blockchain nd) \<and> length (st (cont b)) \<le> 50 \<and>
    (\<exists>t. mt_new (sha256 X) (hash_stx X) (st (cont b)) = Some (Ret t) \<and>
         mt_root t = Ret (merkle_root (head b))) \<and>
    trans (mempool nd') = (\<lambda>h. if h \<in> hash_stx X ` set (st (cont b)) then None else trans (mempool nd) h) \<and>
    to_remove m' = [] \<and> picked m' = []"
  using assms(1)
proof (cases rule: miner_turn_sent)
  case (1 millis)
  note sel = selection_inv [OF assms(2-4)]
  have "\<exists>t. mt_new (sha256 X) (hash_stx X) (st (cont b)) = Some (Ret t) \<and>
      mt_root t = Ret (merkle_root (head b))"
    using mt_new_total [of "sha256 X" "hash_stx X" "st (cont b)"] 1(2) by (auto simp: attempt_def)
  with 1 sel show ?thesis
    by (auto simp: attempt_def trans_remove_mined fun_eq_iff block_size_def)
qed

definition demo_miner_input :: "ControlSignal received \<Rightarrow> MinerInput" where
  "demo_miner_input s = \<lparr>signal = s, rnd = 1, clock = Some 0, order = [], receiver_alive = True\<rparr>"

definition demo_miner :: "i32 \<Rightarrow> Miner" where
  "demo_miner c = \<lparr>operating_state = Run 0, to_remove = [], picked = [], count = c\<rparr>"

lemma demo_attempt:
  "attempt (demo_crates chk) (init_node (demo_crates chk)) (demo_miner c) (demo_miner_input s) 0 =
     demo_block 1 (pad32 [0, 1, 0]) []"
  by (simp add: attempt_def selection_def demo_miner_def demo_miner_input_def Blockchain_new_def Let_def
      demo_block_def)

lemma demo_miner_turn:
  "\<exists>nd' m'. miner_turn (demo_crates chk) (init_node (demo_crates chk)) (demo_miner 0)
     (demo_miner_input Nothing) = Some (Ret (nd', m', Some (demo_block 1 (pad32 [0, 1, 0]) [])))"
proof -
  have "miner_turn (demo_crates chk) (init_node (demo_crates chk)) (demo_miner 0) (demo_miner_input Nothing) =
      mine_once (demo_crates chk) (init_node (demo_crates chk)) (demo_miner 0) (demo_miner_input Nothing)"
    by (simp add: miner_turn_def demo_miner_def demo_miner_input_def)
  moreover have "clock (demo_miner_input Nothing) = Some 0" "receiver_alive (demo_miner_input Nothing)"
    "count (demo_miner 0) = 0"
    by (simp_all add: demo_miner_input_def demo_miner_def)
  ultimately show ?thesis
    by (auto simp: mine_once_eq demo_attempt demo_pow inc_i32_def Let_def)
qed

theorem mined_block_wellformed_witness:
  "\<exists>nd' m' b. miner_turn (demo_crates True) (init_node (demo_crates True)) (demo_miner 0)
     (demo_miner_input Nothing) = Some (Ret (nd', m', Some b)) \<and>
     hash_block (demo_crates True) b \<le> difficulty (head b) \<and> parent (head b) = pad32 [0, 1, 0]"
proof -
  obtain nd' m' where t: "miner_turn (demo_crates True) (init_node (demo_crates True)) (demo_miner 0)
      (demo_miner_input Nothing) = Some (Ret (nd', m', Some (demo_block 1 (pad32 [0, 1, 0]) [])))"
    using demo_miner_turn by blast
  have "miner_inv (demo_crates True) (demo_miner 0)" by (simp add: miner_inv_def demo_miner_def)
  moreover have "enumerates (order (demo_miner_input Nothing)) (trans (mempool (init_node (demo_crates True))))"
    by (simp add: enumerates_def demo_miner_input_def Mempool_new_def)
  moreover have "mempool_keyed (demo_crates True) (mempool (init_node (demo_crates True)))"
    by (simp add: mempool_keyed_def Mempool_new_def)
  ultimately have "hash_block (demo_crates True) (demo_block 1 (pad32 [0, 1, 0]) [])
      \<le> difficulty (head (demo_block 1 (pad32 [0, 1, 0]) [])) "
    using mined_block_wellformed [OF t] by blast
  with t show ?thesis by (intro exI conjI) (assumption, assumption, simp)
qed

definition signals :: "MinerInput list \<Rightarrow> ControlSignal list" where
  "signals inps = concat (map (\<lambda>i. case signal i of Received s \<Rightarrow> [s] | _ \<Rightarrow> []) inps)"

lemma miner_turn_obeys:
  assumes "miner_turn X nd m inp = Some (Ret (nd', m', sent))"
  shows "operating_state m' = foldl ml.obey (operating_state m) (signals [inp])"
    and "operating_state m \<in> {Paused, ShutDown} \<Longrightarrow> sent = None \<and> nd' = nd"
  using assms
  by (auto simp: miner_turn_def signals_def ml.obey_def miner_react_def mine_once_eq Let_def res_simps
      split: OperatingState.splits received.splits ControlSignal.splits option.splits if_splits)

lemma signals_Cons: "signals (inp # inps) = signals [inp] @ signals inps"
  by (simp add: signals_def)

lemma miner_loop_obeys:
  "miner_loop X nd m inps = Some (Ret (nd', m', bs)) \<Longrightarrow>
     operating_state m' = foldl ml.obey (operating_state m) (signals inps) \<and>
     (operating_state m \<in> {Paused, ShutDown} \<and> (\<forall>i. Start i \<notin> set (signals inps)) \<longrightarrow>
       bs = [] \<and> nd' = nd)"
proof (induction inps arbitrary: nd m nd' m' bs)
  case Nil
  then show ?case by (simp add: signals_def)
next
  case (Cons inp inps)
  from Cons.prems obtain nd1 m1 sent bs1 where
    t: "miner_turn X nd m inp = Some (Ret (nd1, m1, sent))" and
    l: "miner_loop X nd1 m1 inps = Some (Ret (nd', m', bs1))" and
    bs: "bs = (case sent of None \<Rightarrow> bs1 | Some b \<Rightarrow> b # bs1)"
    by (auto simp: res_simps split: option.splits res.splits prod.splits)
  note o = miner_turn_obeys [OF t]
  note IH = Cons.IH [OF l]
  have "foldl ml.obey (operating_state m) (signals [inp]) \<in> {Paused, ShutDown}"
    if "operating_state m \<in> {Paused, ShutDown}" "\<forall>i. Start i \<notin> set (signals [inp])"
    using that ml.obey_paused [of "signals [inp]"] by auto
  with o IH bs show ?case by (auto simp: signals_Cons [of inp inps])
qed

text \<open>
  The miner obeys its handle. As long as no \<open>Start\<close> arrives, a miner that begins
  paused sends no block and does not touch the node; an \<open>Exit\<close> signal ends it for good.
\<close>

theorem miner_obeys_handle:
  assumes "miner_loop X nd Miner_new inps = Some (Ret (nd', m', bs))"
  shows "(operating_state m' = ShutDown \<longleftrightarrow> Exit \<in> set (signals inps)) \<and>
    ((\<exists>i. Start i \<in> set (signals inps)) \<or> bs = [] \<and> nd' = nd)"
  using miner_loop_obeys [OF assms] ml.obey_shut_iff [of Paused "signals inps"]
  by (auto simp: Miner_new_def)

theorem miner_obeys_handle_witness:
  "\<exists>m'. miner_loop (demo_crates True) (init_node (demo_crates True)) Miner_new
      [demo_miner_input (Received Update), demo_miner_input (Received Exit)] =
      Some (Ret (init_node (demo_crates True), m', [])) \<and> operating_state m' = ShutDown"
proof -
  have l: "\<exists>m'. miner_loop (demo_crates True) (init_node (demo_crates True)) Miner_new
      [demo_miner_input (Received Update), demo_miner_input (Received Exit)] =
      Some (Ret (init_node (demo_crates True), m', []))"
    by (simp add: miner_turn_def Miner_new_def demo_miner_input_def miner_react_def)
  then obtain m' where m': "miner_loop (demo_crates True) (init_node (demo_crates True)) Miner_new
      [demo_miner_input (Received Update), demo_miner_input (Received Exit)] =
      Some (Ret (init_node (demo_crates True), m', []))" by blast
  from miner_obeys_handle [OF m'] m' show ?thesis
    by (auto simp: signals_def demo_miner_input_def)
qed

text \<open>
  A turn always ends: the Merkle tree is built, and the only panics are a gone channel
  (control or worker side), a clock before the epoch, and the overflow of the turn counter
  in a build with overflow checks after \<open>2 ^ 31 - 1\<close> turns.
\<close>

theorem miner_turn_total:
  "\<exists>r. miner_turn X nd m inp = Some r \<and>
     (case r of
        Ret _ \<Rightarrow> True
      | Panic e \<Rightarrow> signal inp = Disconnected \<and> (e = UnwrapErr \<or> e = Explicit) \<or>
          clock inp = None \<and> e = Explicit \<or> receiver_alive inp = False \<and> e = ChannelClosed \<or>
          overflow_checks X \<and> sint (count m) = 2 ^ 31 - 1 \<and> e = ArithmeticOverflow)"
proof (cases rule: miner_turn_cases [of X nd m inp])
  case (idle r)
  then show ?thesis by auto
next
  case (work os i)
  then show ?thesis
    by (auto simp: mine_once_eq Let_def inc_i32_def split: option.splits res.splits)
qed

text \<open>
  The turn counter. It is an \<open>i32\<close> that every working turn increments and nothing
  reads: a miner in a build with overflow checks panics on the turn after \<open>2 ^ 31 - 1\<close>
  turns, even if that turn found a block.
\<close>

theorem miner_counter_overflow:
  assumes "overflow_checks X" and "sint (count m) = 2 ^ 31 - 1" and "operating_state m = Run i"
    and "signal inp = Nothing" and "clock inp = Some millis" and "receiver_alive inp"
  shows "miner_turn X nd m inp = Some (Panic ArithmeticOverflow)"
  using assms by (simp add: miner_turn_def mine_once_eq inc_i32_def Let_def)

theorem miner_counter_overflow_witness:
  "miner_turn (demo_crates True) (init_node (demo_crates True)) (demo_miner 2147483647)
     (demo_miner_input Nothing) = Some (Panic ArithmeticOverflow)"
  by (rule miner_counter_overflow [where i = 0 and millis = 0])
    (simp_all add: demo_miner_def demo_miner_input_def)

text \<open>
  \<open>tx_exist_check\<close> answers, without a panic, whether no block of the longest chain
  contains a transaction with the given hash.
\<close>

definition chain_txs :: "Crates \<Rightarrow> Blockchain \<Rightarrow> H256 list \<Rightarrow> H256 set" where
  "chain_txs X c hs = (\<Union>h\<in>set hs. case blocks c h of
     Some (b, _) \<Rightarrow> hash_stx X ` set (st (cont b)) | None \<Rightarrow> {})"

lemma chain_txs_simps [simp]:
  "chain_txs X c [] = {}"
  "chain_txs X c (hs @ hs') = chain_txs X c hs \<union> chain_txs X c hs'"
  "blocks c h = Some (b, n) \<Longrightarrow> chain_txs X c [h] = hash_stx X ` set (st (cont b))"
  by (auto simp: chain_txs_def)

lemma exist_loop_chain:
  assumes tree: "tree_inv X (blocks c)"
  shows "blocks c h = Some (b, n) \<Longrightarrow>
    \<exists>hs. chain_to X c (hs @ [h]) h \<and>
         exist_loop X c n (parent (head b)) tx = Ret (tx \<notin> chain_txs X c hs)"
proof (induction "unat n" arbitrary: h b n)
  case 0
  then have "n = 0" by (simp add: unat_eq_zero)
  with 0 tree_inv_root [OF tree] have "h = genesis_hash X" by blast
  then show ?case using \<open>n = 0\<close>
    by (intro exI [of _ "[]"]) (auto simp: exist_loop.simps intro: chain_root)
next
  case (Suc k)
  have n0: "n \<noteq> 0" using Suc.hyps(2) by auto
  then have ge: "1 \<le> n" by (simp add: word_le_nat_alt unat_gt_0 Suc_leI)
  obtain pb pn where p: "blocks c (parent (head b)) = Some (pb, pn)" "unat n = Suc (unat pn)"
    using tree_inv_parent [OF tree Suc.prems n0] by blast
  have "unat (n - 1) = unat pn" using p(2) ge by (simp add: unat_sub)
  then have pn: "n - 1 = pn" by (simp add: word_unat_eq_iff)
  have hg: "h \<noteq> genesis_hash X" using tree_inv_genesis [OF tree] Suc.prems n0 by auto
  have "k = unat pn" using p(2) Suc.hyps(2) by simp
  from Suc.hyps(1) [OF this p(1)] obtain hs where
    hs: "chain_to X c (hs @ [parent (head b)]) (parent (head b))"
    "exist_loop X c pn (parent (head pb)) tx = Ret (tx \<notin> chain_txs X c hs)" by blast
  have "exist_loop X c n (parent (head b)) tx = Ret (tx \<notin> chain_txs X c (hs @ [parent (head b)]))"
    using ge p(1) hs(2) pn by (simp add: exist_loop.simps [of X c n])
  with chain_step [OF hs(1) Suc.prems hg] show ?case by blast
qed

theorem tx_exist_check_correct:
  assumes "chain_inv X c" and "all_blocks_in_longest_chain c = Ret hs"
  shows "tx_exist_check X c tx = Ret (tx \<notin> chain_txs X c hs)"
proof -
  from assms(1) obtain b n where t: "blocks c (tip c) = Some (b, n)" and tree: "tree_inv X (blocks c)"
    by (auto simp: chain_inv_def tip_inv_def)
  from exist_loop_chain [OF tree t, of tx] obtain hs' where
    hs': "chain_to X c (hs' @ [tip c]) (tip c)"
    "exist_loop X c n (parent (head b)) tx = Ret (tx \<notin> chain_txs X c hs')" by blast
  from assms hs'(1) have "hs = hs' @ [tip c]" using all_blocks_chain chain_to_unique by blast
  with t hs'(2) show ?thesis by (simp add: tx_exist_check_def)
qed

theorem tx_exist_check_correct_witness:
  "tx_exist_check (demo_crates True) (Blockchain_new (demo_crates True)) (h256_fill 3) = Ret True"
proof -
  let ?c = "Blockchain_new (demo_crates True)"
  have "all_blocks_in_longest_chain ?c = Ret [tip ?c]"
    using all_blocks_chain [OF chain_inv_new, of "demo_crates True"] chain_root [of "demo_crates True" ?c]
    by (simp add: Blockchain_new_def Let_def)
  moreover have "chain_txs (demo_crates True) ?c [tip ?c] = {}"
    by (simp add: chain_txs_def Blockchain_new_def Let_def genesis_def)
  ultimately show ?thesis using tx_exist_check_correct [OF chain_inv_new] by simp
qed

end
