(* ===== verification/MinerWorker.thy ===== *)
theory MinerWorker
  imports Arrival Miner
begin

text \<open>
  \<open>src/src/miner/worker.rs\<close>: the thread that inserts the mined blocks and announces
  them. It has its own copy of the validation, \<open>miner_check_tx_state\<close>, written here as
  the nested loops it is; it is shown equal to the network worker's.
\<close>

section \<open>The program\<close>

text \<open>A loop whose body may return early (\<open>None\<close>) or panic.\<close>

fun try_loop :: "('s \<Rightarrow> 'a \<Rightarrow> 's option res) \<Rightarrow> 's \<Rightarrow> 'a list \<Rightarrow> 's option res" where
  "try_loop body s [] = Ret (Some s)"
| "try_loop body s (x # xs) =
     bind_res (body s x) (\<lambda>r. case r of None \<Rightarrow> Ret None | Some s' \<Rightarrow> try_loop body s' xs)"

text \<open>\<open>iter().sum()\<close> over \<open>u32\<close>.\<close>

fun sum_loop :: "bool \<Rightarrow> u32 \<Rightarrow> u32 list \<Rightarrow> u32 res" where
  "sum_loop chk acc [] = Ret acc"
| "sum_loop chk acc (v # vs) = bind_res (add_checked chk acc v) (\<lambda>acc. sum_loop chk acc vs)"

definition miner_check_tx_state ::
  "Crates \<Rightarrow> block_states \<Rightarrow> H256 \<Rightarrow> SignedTransaction list \<Rightarrow> H256 \<Rightarrow> (bool \<times> block_states) res"
  where
  "miner_check_tx_state X block_states parent_hash signed_txs block_hash =
     bind_res (unwrap (block_states parent_hash)) (\<lambda>state.
     bind_res
       (try_loop (\<lambda>state stx.
          let tx = transaction stx;
              owner_public_key = public_key_vector stx
          in if verify_tx X tx owner_public_key (signature_vector stx)
             then bind_res
                    (try_loop (\<lambda>sum_input i.
                       case states state (prev_trans i, index i) of
                         Some (v, recipient) \<Rightarrow>
                           if recipient \<noteq> from_public_key_bytes (sha256 X) owner_public_key then Ret None
                           else bind_res (add_u32 X sum_input v) (\<lambda>s. Ret (Some s))
                       | None \<Rightarrow> Ret None)
                       0 (input tx))
                    (\<lambda>r. case r of
                       None \<Rightarrow> Ret None
                     | Some sum_input \<Rightarrow>
                         bind_res (sum_loop (overflow_checks X) 0 (map amount (output tx))) (\<lambda>sum_output.
                           if sum_input < sum_output then Ret None
                           else let st1 = foldl (\<lambda>m i. m((prev_trans i, index i) := None))
                                            (states state) (input tx);
                                    st2 = foldl (\<lambda>m (ix, out).
                                            m((hash_stx X stx, word_of_nat ix) \<mapsto>
                                                (amount out, recipient_addr out)))
                                            st1 (List.enumerate 0 (output tx))
                                in Ret (Some \<lparr>states = st2\<rparr>)))
             else Ret None)
          state signed_txs)
       (\<lambda>r. case r of
          None \<Rightarrow> Ret (False, block_states)
        | Some state \<Rightarrow> Ret (True, block_states(block_hash \<mapsto> state))))"

text \<open>One finished block: validate, insert, announce.\<close>

definition miner_worker_step :: "Crates \<Rightarrow> Node \<Rightarrow> Block \<Rightarrow> (Node \<times> action list) res" where
  "miner_worker_step X nd block =
     bind_res (miner_check_tx_state X (block_state nd) (parent (head block)) (st (cont block))
                 (hash_block X block)) (\<lambda>(ok, bs).
       let nd = nd\<lparr>block_state := bs\<rparr>
       in if ok
          then bind_res (Blockchain_insert X (blockchain nd) block) (\<lambda>c.
                 Ret (nd\<lparr>blockchain := c\<rparr>, [Broadcast (NewBlockHashes [hash_block X block])]))
          else Ret (nd, []))"

section \<open>The two validators agree\<close>

lemma sum_loop_outputs: "sum_loop (overflow_checks X) acc (map amount outs) = sum_outputs X outs acc"
  by (induction outs arbitrary: acc) simp_all

lemma try_loop_inputs:
  "try_loop (\<lambda>sum_input i. case states s (prev_trans i, index i) of
       Some (v, recipient) \<Rightarrow>
         if recipient \<noteq> from_public_key_bytes (sha256 X) pk then Ret None
         else bind_res (add_u32 X sum_input v) (\<lambda>s. Ret (Some s))
     | None \<Rightarrow> Ret None) acc ins = sum_inputs X s pk ins acc"
proof (induction ins arbitrary: acc)
  case (Cons i ins)
  show ?case
  proof (cases "states s (prev_trans i, index i)")
    case (Some e)
    show ?thesis using Some Cons
      by (cases e; cases "add_u32 X acc (fst e)") auto
  qed simp
qed simp

lemma try_loop_check_txs:
  assumes "\<And>s x. body s x = check_tx X s x"
  shows "try_loop body s txs = check_txs X s txs"
proof (induction txs arbitrary: s)
  case (Cons stx txs)
  then show ?case by (simp add: assms cong: option.case_cong)
qed simp

lemma miner_check_tx_state_eq: "miner_check_tx_state X bs p txs h = check_tx_state X bs p txs h"
proof -
  show ?thesis
    unfolding miner_check_tx_state_def check_tx_state_def
    by (subst try_loop_check_txs)
      (simp_all add: check_tx_def try_loop_inputs [unfolded case_prod_unfold] sum_loop_outputs foldl_conv_fold Let_def
        case_prod_unfold cong: if_cong option.case_cong)
qed

interpretation mw: block_acceptor contains_block "Blockchain_insert X" tip "hash_block X"
  "\<lambda>b. parent (head b)" "overflow_checks X"
  "\<lambda>bs b. miner_check_tx_state X bs (parent (head b)) (st (cont b)) (hash_block X b)" state_known
  for X
  unfolding miner_check_tx_state_eq
  by unfold_locales (rule nw.check_panic, assumption, erule nw.check_known)

lemma miner_worker_step_acceptor:
  "miner_worker_step X nd b =
     bind_res (mw.accept X (blockchain nd) (block_state nd) b)
       (\<lambda>(ok, c, bs). Ret (nd\<lparr>blockchain := c, block_state := bs\<rparr>,
          if ok then [Broadcast (NewBlockHashes [hash_block X b])] else []))"
proof (cases "miner_check_tx_state X (block_state nd) (parent (head b)) (st (cont b)) (hash_block X b)")
  case (Ret r)
  then show ?thesis
    by (cases r; cases "Blockchain_insert X (blockchain nd) b")
      (auto simp: miner_worker_step_def mw.accept_def)
qed (simp add: miner_worker_step_def mw.accept_def)

text \<open>So a mined block is accepted as a received one is.\<close>

lemma miner_worker_step_accept:
  "miner_worker_step X nd b =
     bind_res (accept_block X nd b (hash_block X b))
       (\<lambda>(ok, nd'). Ret (nd', if ok then [Broadcast (NewBlockHashes [hash_block X b])] else []))"
  unfolding miner_worker_step_acceptor accept_block_acceptor miner_check_tx_state_eq
  by (simp add: bind_res_assoc case_prod_unfold)

lemma miner_worker_step_panic:
  "node_safe nd \<Longrightarrow> blocks (blockchain nd) (parent (head b)) \<noteq> None \<Longrightarrow>
     only_overflow (overflow_checks X) (miner_worker_step X nd b)"
  unfolding miner_worker_step_acceptor node_safe_def miner_check_tx_state_eq [symmetric]
  by (auto intro!: only_overflow_intros mw.accept_panic simp: contains_block_def)

section \<open>Properties\<close>

text \<open>
  The two copies of the validation compute the same function.
\<close>

theorem validators_agree:
  "miner_check_tx_state X bs parent_hash txs block_hash = check_tx_state X bs parent_hash txs block_hash"
  by (rule miner_check_tx_state_eq)

text \<open>
  A mined block extends the chain. When the worker gets a block that extends the
  current tip and whose transactions are valid after the tip's state, it inserts it, the
  longest chain becomes the old one followed by it, its state is recorded, and its hash is
  announced to all peers.
\<close>

theorem mined_block_extends_chain:
  assumes "chain_inv X (blockchain nd)" and "height_room X (blockchain nd)"
    and "all_blocks_in_longest_chain (blockchain nd) = Ret hs"
    and "blocks (blockchain nd) (tip (blockchain nd)) = Some (tb, tn)" and "unat tn + 1 < 2 ^ 32"
    and "parent (head b) = tip (blockchain nd)" and "blocks (blockchain nd) (hash_block X b) = None"
    and "block_state nd (parent (head b)) = Some s" and "check_txs X s (st (cont b)) = Ret (Some s')"
  shows "\<exists>nd'. miner_worker_step X nd b = Ret (nd', [Broadcast (NewBlockHashes [hash_block X b])]) \<and>
    all_blocks_in_longest_chain (blockchain nd') = Ret (hs @ [hash_block X b]) \<and>
    tip (blockchain nd') = hash_block X b \<and> mempool nd' = mempool nd \<and>
    block_state nd' (hash_block X b) = Some s'"
proof -
  let ?c = "blockchain nd"
  obtain c where ins: "Blockchain_insert X ?c b = Ret c"
    using assms(4-6) by (simp add: Blockchain_insert_def add_checked_no_overflow Let_def)
  have path: "chain_to X ?c hs (tip ?c)" using assms(1,3) all_blocks_chain by blast
  obtain pb pn tb' tn' n where i: "blocks ?c (parent (head b)) = Some (pb, pn)"
    "blocks ?c (tip ?c) = Some (tb', tn')" "unat n = Suc (unat pn)"
    "blocks c = (blocks ?c)(hash_block X b \<mapsto> (b, n))" "tip c = (if tn' < n then hash_block X b else tip ?c)"
    using Blockchain_insert_Ret [OF ins assms(2)] .
  have ok: "insertable X ?c b" using assms(7) by (simp add: insertable_def)
  have "tip c = hash_block X b" using i assms(6) by (simp add: word_less_nat_alt)
  moreover have "hash_block X b \<noteq> genesis_hash X"
    using assms(1,7) tree_inv_genesis by (fastforce simp: chain_inv_def)
  moreover have "chain_to X c hs (parent (head b))"
    using chain_to_insert [OF assms(1) ins ok assms(2) path] assms(6) by simp
  ultimately have "chain_to X c (hs @ [hash_block X b]) (tip c)" using chain_step i(4) by simp
  moreover have "chain_inv X c" by (rule chain_inv_insert [OF assms(1) ins ok assms(2)])
  ultimately have "all_blocks_in_longest_chain c = Ret (hs @ [hash_block X b])"
    using all_blocks_chain by blast
  with \<open>tip c = hash_block X b\<close> show ?thesis
    using ins assms(8,9)
    by (simp add: miner_worker_step_def miner_check_tx_state_eq check_tx_state_def Let_def)
qed

theorem mined_block_extends_chain_witness:
  "\<exists>nd'. miner_worker_step (demo_crates True) (init_node (demo_crates True)) demo_b1 =
      Ret (nd', [Broadcast (NewBlockHashes [pad32 [0, 2, 1]])]) \<and>
    all_blocks_in_longest_chain (blockchain nd') = Ret [pad32 [0, 1, 0], pad32 [0, 2, 1]]"
proof -
  let ?X = "demo_crates True" and ?nd = "init_node (demo_crates True)"
  have path: "all_blocks_in_longest_chain (blockchain ?nd) = Ret [pad32 [0, 1, 0]]"
    using all_blocks_chain [OF chain_inv_new, of ?X] chain_root [of ?X "Blockchain_new ?X"]
    by (simp add: Blockchain_new_def Let_def)
  have "\<exists>nd'. miner_worker_step ?X ?nd demo_b1 = Ret (nd', [Broadcast (NewBlockHashes [hash_block ?X demo_b1])]) \<and>
    all_blocks_in_longest_chain (blockchain nd') = Ret ([pad32 [0, 1, 0]] @ [hash_block ?X demo_b1]) \<and>
    tip (blockchain nd') = hash_block ?X demo_b1 \<and> mempool nd' = mempool ?nd \<and>
    block_state nd' (hash_block ?X demo_b1) = Some (State_new ?X (all_public_keys ! 0))"
    by (rule mined_block_extends_chain [OF _ _ path, where tb = genesis and tn = 0
        and s = "State_new ?X (all_public_keys ! 0)"])
      (simp_all add: chain_inv_new height_room_def, simp_all add: Blockchain_new_def Let_def)
  then show ?thesis by auto
qed

text \<open>
  C39: one invalid transaction costs the whole batch. The miner takes its transactions out
  of the mempool when it has found a block, without validating them; if the worker then
  rejects the block, no block is inserted, nothing is announced, and all transactions of
  the block are gone from the mempool.
\<close>

theorem rejected_block_loses_transactions:
  assumes "miner_turn X nd m inp = Some (Ret (nd', m', Some b))"
    and "miner_inv X m" and "enumerates (order inp) (trans (mempool nd))" and "mempool_keyed X (mempool nd)"
    and "block_state nd (tip (blockchain nd)) = Some s" and "check_txs X s (st (cont b)) = Ret None"
  shows "miner_worker_step X nd' b = Ret (nd', []) \<and> blockchain nd' = blockchain nd \<and>
    (\<forall>t\<in>set (st (cont b)). trans (mempool nd') (hash_stx X t) = None)"
  using assms(1)
proof (cases rule: miner_turn_sent)
  case (1 millis)
  note sel = selection_inv [OF assms(2-4)]
  have par: "parent (head b) = tip (blockchain nd)" "st (cont b) = snd (selection m inp)"
    using 1(2) by (simp_all add: attempt_def)
  have "miner_worker_step X nd' b = Ret (nd', [])"
    using assms(5,6) 1(4) par(1)
    by (simp add: miner_worker_step_def miner_check_tx_state_eq check_tx_state_def Let_def)
  with 1(4) sel(1) par(2) show ?thesis by (simp add: trans_remove_mined)
qed

theorem rejected_block_loses_transactions_witness:
  "\<exists>nd' m' b t. trans (mempool nd') (hash_stx (demo_crates True) t) = None \<and> t \<in> set (st (cont b)) \<and>
     miner_worker_step (demo_crates True) nd' b = Ret (nd', [])"
proof -
  let ?X = "demo_crates True"
  define t where "t = demo_tx [] [\<lparr>recipient_addr = demo_addr, amount = 5\<rparr>]"
  define h where "h = hash_stx ?X t"
  let ?nd = "(init_node ?X)\<lparr>mempool := \<lparr>trans = [h \<mapsto> t]\<rparr>\<rparr>"
  let ?inp = "(demo_miner_input Nothing)\<lparr>order := [(h, t)]\<rparr>"
  have sel: "selection (demo_miner 0) ?inp = ([h], [t])"
    by (simp add: selection_def demo_miner_def block_size_def)
  let ?b = "attempt ?X ?nd (demo_miner 0) ?inp 0"
  have hash: "hash_block ?X ?b = pad32 [0, 2, 1]"
    unfolding demo_hash_block
    by (simp add: attempt_def Blockchain_new_def Let_def demo_miner_input_def)
  have "miner_turn ?X ?nd (demo_miner 0) ?inp = mine_once ?X ?nd (demo_miner 0) ?inp"
    by (simp add: miner_turn_def demo_miner_def demo_miner_input_def)
  moreover have "clock ?inp = Some 0" "receiver_alive ?inp" "count (demo_miner 0) = 0"
    by (simp_all add: demo_miner_input_def demo_miner_def)
  ultimately obtain nd' m' where
    turn: "miner_turn ?X ?nd (demo_miner 0) ?inp = Some (Ret (nd', m', Some ?b))"
    by (auto simp: mine_once_eq Let_def hash demo_pow inc_i32_def)
  have "check_tx ?X s t = Ret None" for s
    by (simp add: check_tx_cases t_def add_checked_def)
  then have "check_txs ?X s (st (cont ?b)) = Ret None" for s by (simp add: attempt_def sel)
  then have "miner_worker_step ?X nd' ?b = Ret (nd', []) \<and> blockchain nd' = blockchain ?nd \<and>
      (\<forall>t\<in>set (st (cont ?b)). trans (mempool nd') (hash_stx ?X t) = None)"
    by (intro rejected_block_loses_transactions [OF turn])
      (simp_all add: miner_inv_def demo_miner_def enumerates_def mempool_keyed_def h_def
        Blockchain_new_def Let_def eq_commute)
  moreover have "t \<in> set (st (cont ?b))" by (simp add: attempt_def sel)
  ultimately show ?thesis by blast
qed

end
