(* ===== verification/TxGenerator.thy ===== *)
theory TxGenerator
  imports Arrival Control
begin

text \<open>
  \<open>src/src/generator/tx_generator.rs\<close>: the thread that spends the node's own unspent
  outputs to its two peers. A turn of \<open>generator_loop\<close> takes the control signal and the
  iteration order of the state's \<open>HashMap\<close>, and returns the node, the generator and
  what it broadcasts.
\<close>

section \<open>The program\<close>

datatype ControlSignal = Start u64 | Update | Exit

datatype OperatingState = Paused | Run u64 | ShutDown

definition generator_react :: "OperatingState \<Rightarrow> ControlSignal \<Rightarrow> OperatingState" where
  "generator_react os s = (case s of Exit \<Rightarrow> ShutDown | Start i \<Rightarrow> Run i | Update \<Rightarrow> os)"

text \<open>\<open>public_key_gen\<close>; the pairs of the literals are valid, so the \<open>unwrap\<close>s return.\<close>

definition public_key_gen :: "nat \<Rightarrow> KeyPair res" where
  "public_key_gen ix =
     (if ix = 0 then
        Ret \<lparr>seed = [0xaa, 0xc6, 0xa0, 0x37, 0x15, 0xd7, 0x53, 0xa0, 0xda, 0x99, 0x68, 0xa1, 0xab, 0x2e, 0xe7, 0x10,
              0x73, 0x95, 0x99, 0x9d, 0x92, 0xbb, 0x02, 0x8d, 0x8a, 0xf4, 0x37, 0x44, 0x47, 0x4e, 0x04, 0x01],
             public_key = [0xa7, 0x76, 0xf2, 0xf7, 0x6b, 0xa3, 0x58, 0x60, 0xd0, 0x4c, 0xfb, 0x61, 0x23, 0xdd, 0x7d, 0xd4,
              0x19, 0xf8, 0xf0, 0xdc, 0x38, 0xc6, 0xcf, 0x42, 0x2f, 0xbc, 0xd5, 0x38, 0x20, 0x81, 0x39, 0x74]\<rparr>
      else if ix = 1 then
        Ret \<lparr>seed = [0x7f, 0xa1, 0x54, 0x4a, 0x36, 0x14, 0xbf, 0x76, 0xfe, 0x63, 0x67, 0x17, 0x81, 0xc6, 0x49, 0x0e,
              0x21, 0xa9, 0x7e, 0xd2, 0x12, 0x43, 0x71, 0x08, 0x7b, 0x62, 0x45, 0xaa, 0xb4, 0x72, 0xdc, 0xc6],
             public_key = [0xbd, 0x74, 0x20, 0x3c, 0x7a, 0x28, 0xd7, 0xde, 0x63, 0xe0, 0x2e, 0x4b, 0xdb, 0x7c, 0xba, 0x4f,
              0xe0, 0x33, 0x45, 0x6e, 0xfc, 0xe8, 0x62, 0x48, 0x1e, 0xdf, 0x65, 0xf2, 0x33, 0xc0, 0x67, 0xcc]\<rparr>
      else if ix = 2 then
        Ret \<lparr>seed = [0xe8, 0x58, 0xbc, 0xc3, 0x13, 0x8b, 0x3c, 0x7d, 0x95, 0x2c, 0x17, 0x47, 0xbb, 0xa1, 0x8c, 0xf2,
              0x7f, 0x86, 0x07, 0xe7, 0xba, 0xe5, 0xc7, 0x95, 0x2b, 0x5a, 0x49, 0x4d, 0xf1, 0x6a, 0x82, 0x53],
             public_key = [0x25, 0x81, 0xc9, 0xf5, 0x1b, 0x37, 0x40, 0xdd, 0x7c, 0xac, 0xbb, 0x69, 0x1e, 0x41, 0x98, 0x95,
              0x05, 0xdf, 0x86, 0xe0, 0xa2, 0x2d, 0x93, 0xcb, 0xd9, 0xf5, 0x27, 0xc4, 0x3b, 0xd7, 0x02, 0xd6]\<rparr>
      else Panic Unimplemented)"

text \<open>The fields of \<open>GeneLoop\<close> that the loop uses, and the two variables of the loop.\<close>

record GeneLoop =
  operating_state :: OperatingState
  own_key :: KeyPair
  addr :: Address
  peer_addrs :: "Address \<times> Address"

record Generator = GeneLoop +
  prev_tip :: H256
  local_state :: State

fun peer_loop :: "Crates \<Rightarrow> nat \<Rightarrow> nat list \<Rightarrow> Address list \<Rightarrow> Address list res" where
  "peer_loop X pub_key_index [] peer_addr = Ret peer_addr"
| "peer_loop X pub_key_index (i # is) peer_addr =
     (if i \<noteq> pub_key_index
      then bind_res (public_key_gen i) (\<lambda>k.
             peer_loop X pub_key_index is
               (peer_addr @ [from_public_key_bytes (sha256 X) (public_key k)]))
      else peer_loop X pub_key_index is peer_addr)"

definition TxGenerator_new :: "Crates \<Rightarrow> nat \<Rightarrow> GeneLoop res" where
  "TxGenerator_new X pub_key_index =
     bind_res (public_key_gen pub_key_index) (\<lambda>pub_key.
       let self_addr = from_public_key_bytes (sha256 X) (public_key pub_key);
           node_count = 3
       in bind_res (peer_loop X pub_key_index [0..<node_count] []) (\<lambda>peer_addr.
          bind_res (slice_index peer_addr 0) (\<lambda>p0.
          bind_res (slice_index peer_addr 1) (\<lambda>p1.
            Ret \<lparr>operating_state = Paused, own_key = pub_key, addr = self_addr, peer_addrs = (p0, p1)\<rparr>))))"

text \<open>The start of \<open>generator_loop\<close>: the tip and its state.\<close>

definition generator_start :: "Node \<Rightarrow> GeneLoop \<Rightarrow> Generator res" where
  "generator_start nd g =
     (let prev_tip = Blockchain_tip (blockchain nd)
      in bind_res (unwrap (block_state nd prev_tip)) (\<lambda>state.
           Ret (GeneLoop.extend g (Generator.fields prev_tip state))))"

text \<open>The first entry of the iteration that pays to the node, as the only input.\<close>

fun get_tx_balance ::
  "Crates \<Rightarrow> Address \<Rightarrow> (outpoint \<times> u32 \<times> Address) list \<Rightarrow> (Input list \<times> u32) res" where
  "get_tx_balance X self_addr [] = Ret ([], 0)"
| "get_tx_balance X self_addr (((tx_hash, ix), (v, address)) # entries) =
     (if address = self_addr
      then bind_res (add_u32 X 0 v) (\<lambda>balance.
             Ret ([\<lparr>prev_trans = tx_hash, index = ix\<rparr>], balance))
      else get_tx_balance X self_addr entries)"

record GeneratorInput =
  gen_signal :: "ControlSignal received"
  entries :: "(outpoint \<times> u32 \<times> Address) list"

text \<open>The state a turn works on: the local one, refreshed when the tip has changed.\<close>

definition refresh :: "Node \<Rightarrow> Generator \<Rightarrow> Generator res" where
  "refresh nd g =
     (let tip = Blockchain_tip (blockchain nd)
      in if prev_tip g = tip then Ret g
         else bind_res (unwrap (block_state nd tip)) (\<lambda>s.
                Ret (g\<lparr>local_state := s, prev_tip := tip\<rparr>)))"

definition generate_once ::
  "Crates \<Rightarrow> Node \<Rightarrow> Generator \<Rightarrow> GeneratorInput \<Rightarrow> (Node \<times> Generator \<times> action list) res" where
  "generate_once X nd g inp =
     bind_res (refresh nd g) (\<lambda>g.
     bind_res (get_tx_balance X (addr g) (entries inp)) (\<lambda>(inputs, balance).
       if balance = 0 then Ret (nd, g, [])
       else bind_res (Transaction_pass_check X inputs balance (peer_addrs g)) (\<lambda>new_transaction.
         let stx = \<lparr>transaction = new_transaction,
                    signature_vector = sign X new_transaction (own_key g),
                    public_key_vector = public_key (own_key g)\<rparr>;
             tx_hash = hash_stx X stx;
             mp = (if trans (mempool nd) tx_hash = None
                   then (mempool nd)\<lparr>trans := (trans (mempool nd))(tx_hash \<mapsto> stx)\<rparr>
                   else mempool nd);
             removed = fold (\<lambda>i m. m((prev_trans i, index i) := None))
                         (input (transaction stx)) (states (local_state g));
             inserted = fold (\<lambda>(ix, out) m.
                            m((tx_hash, word_of_nat ix) \<mapsto> (amount out, recipient_addr out)))
                          (List.enumerate 0 (output (transaction stx))) removed
         in Ret (nd\<lparr>mempool := mp\<rparr>, g\<lparr>local_state := \<lparr>states = inserted\<rparr>\<rparr>,
                 [Broadcast (NewTransactionHashes [tx_hash])]))))"

definition generator_turn ::
  "Crates \<Rightarrow> Node \<Rightarrow> Generator \<Rightarrow> GeneratorInput \<Rightarrow> (Node \<times> Generator \<times> action list) res" where
  "generator_turn X nd g inp =
     (case operating_state g of
        Paused \<Rightarrow>
          (case gen_signal inp of
             Received s \<Rightarrow> Ret (nd, g\<lparr>operating_state := generator_react Paused s\<rparr>, [])
           | Nothing \<Rightarrow> Ret (nd, g, [])
           | Disconnected \<Rightarrow> Panic UnwrapErr)
      | ShutDown \<Rightarrow> Ret (nd, g, [])
      | Run i \<Rightarrow>
          (case gen_signal inp of
             Received s \<Rightarrow>
               (let g' = g\<lparr>operating_state := generator_react (Run i) s\<rparr>
                in if operating_state g' = ShutDown then Ret (nd, g', [])
                   else generate_once X nd g' inp)
           | Nothing \<Rightarrow> generate_once X nd g inp
           | Disconnected \<Rightarrow> Panic Explicit))"

definition TxGenerator_start :: "ControlSignal list \<Rightarrow> u64 \<Rightarrow> ControlSignal list" where
  "TxGenerator_start chan theta = chan @ [Start theta]"

interpretation gl: control_loop generator_react Start Update Exit Paused Run ShutDown
  by unfold_locales (auto simp: generator_react_def intro: ControlSignal.exhaust)

section \<open>The generated transaction\<close>

text \<open>The balance is the first entry that pays to the node, as its only input.\<close>

lemma get_tx_balance_Ret:
  "\<exists>r. get_tx_balance X a es = Ret r \<and>
     (r = ([], 0) \<and> (\<forall>k v. (k, (v, a)) \<notin> set es) \<or>
      (\<exists>h k v. ((h, k), (v, a)) \<in> set es \<and> r = ([\<lparr>prev_trans = h, index = k\<rparr>], v)))"
proof (induction es)
  case (Cons e es)
  obtain h k v a' where e: "e = ((h, k), (v, a'))" by (cases e) auto
  show ?case
  proof (cases "a' = a")
    case True
    then show ?thesis using e by auto
  next
    case False
    with Cons e show ?thesis by auto
  qed
qed simp

text \<open>The law of the signature scheme: what a key pair signs, its public key verifies.\<close>

definition signs :: "Crates \<Rightarrow> KeyPair \<Rightarrow> bool" where
  "signs X k \<longleftrightarrow> (\<forall>msg. ed25519_verify X (public_key k) msg (ed25519_sign X k msg))"

definition generator_inv :: "Crates \<Rightarrow> Generator \<Rightarrow> bool" where
  "generator_inv X g \<longleftrightarrow> addr g = from_public_key_bytes (sha256 X) (public_key (own_key g))"

definition payment :: "Crates \<Rightarrow> Generator \<Rightarrow> Transaction \<Rightarrow> SignedTransaction" where
  "payment X g t =
     \<lparr>transaction = t, signature_vector = sign X t (own_key g),
      public_key_vector = public_key (own_key g)\<rparr>"

lemma payment_simps [simp]:
  "transaction (payment X g t) = t"
  "signs X (own_key g) \<Longrightarrow> signature_ok X (payment X g t)"
  "generator_inv X g \<Longrightarrow> signer X (payment X g t) = addr g"
  by (simp_all add: payment_def signature_ok_def verify_tx_def sign_def signs_def signer_def
      generator_inv_def Let_def)

text \<open>A working turn after the refresh, in terms of \<open>State_update\<close>.\<close>

lemma generate_once_cases:
  assumes "refresh nd g = Ret g1"
  obtains (poor) r where "generate_once X nd g inp = Ret (nd, g1, [])"
      "get_tx_balance X (addr g1) (entries inp) = Ret r" "snd r = 0"
  | (pays) h k v t where "((h, k), (v, addr g1)) \<in> set (entries inp)" "v \<noteq> 0"
      "input t = [\<lparr>prev_trans = h, index = k\<rparr>]" "outputs_value (output t) = unat v"
      "length (output t) \<le> 3"
      "generate_once X nd g inp =
        Ret (nd\<lparr>mempool := (if trans (mempool nd) (hash_stx X (payment X g1 t)) = None
                  then (mempool nd)\<lparr>trans := (trans (mempool nd))(hash_stx X (payment X g1 t) \<mapsto> payment X g1 t)\<rparr>
                  else mempool nd)\<rparr>,
             g1\<lparr>local_state := State_update X (local_state g1) (payment X g1 t)\<rparr>,
             [Broadcast (NewTransactionHashes [hash_stx X (payment X g1 t)])])"
proof -
  obtain r where r: "get_tx_balance X (addr g1) (entries inp) = Ret r"
    "r = ([], 0) \<or> (\<exists>h k v. ((h, k), (v, addr g1)) \<in> set (entries inp) \<and> r = ([\<lparr>prev_trans = h, index = k\<rparr>], v))"
    using get_tx_balance_Ret [of X "addr g1" "entries inp"] by blast
  show thesis
  proof (cases "snd r = 0")
    case True
    with r assms show thesis by (intro poor) (auto simp: generate_once_def case_prod_unfold)
  next
    case False
    with r obtain h k v where e: "((h, k), (v, addr g1)) \<in> set (entries inp)"
      "r = ([\<lparr>prev_trans = h, index = k\<rparr>], v)" "v \<noteq> 0" by auto
    obtain outs where o: "Output_pass_check X v (peer_addrs g1) = Ret outs"
      "outputs_value outs = unat v" "length outs \<le> 3"
      using Output_pass_check_Ret [of X v "peer_addrs g1"] by blast
    let ?t = "\<lparr>input = [\<lparr>prev_trans = h, index = k\<rparr>], output = outs\<rparr>"
    have upd: "\<lparr>states = fold (\<lambda>(ix, out) m. m((hash_stx X (payment X g1 ?t), word_of_nat ix) \<mapsto>
          (amount out, recipient_addr out))) (List.enumerate 0 outs)
          (fold (\<lambda>i m. m((prev_trans i, index i) := None)) [\<lparr>prev_trans = h, index = k\<rparr>]
             (states (local_state g1)))\<rparr> = State_update X (local_state g1) (payment X g1 ?t)"
      using check_tx_updates [of X "payment X g1 ?t" "local_state g1"] by (simp add: State_eta)
    show thesis
      using pays [OF e(1,3), of ?t] o assms r(1) e(2,3) upd
      by (simp add: generate_once_def Transaction_pass_check_def Let_def payment_def [symmetric])
  qed
qed

text \<open>The payment is valid after the state the turn works on.\<close>

lemma payment_check_tx:
  assumes "signs X (own_key g)" and "generator_inv X g"
    and "enumerates es (states s)" and "((h, k), (v, addr g)) \<in> set es"
    and "input t = [\<lparr>prev_trans = h, index = k\<rparr>]" and "outputs_value (output t) = unat v"
  shows "check_tx X s (payment X g t) = Ret (Some (State_update X s (payment X g t)))"
proof -
  have e: "states s (h, k) = Some (v, addr g)" using assms(3,4) by (simp add: enumerates_def)
  then have iv: "inputs_value s (input t) = unat v"
    using assms(5) by (simp add: input_value_def outpoint_of_def)
  then have "sums_fit s (payment X g t)"
    using assms(6) unat_u32_bound [of v] by (simp add: sums_fit_def)
  moreover have "valid_tx X s (payment X g t)"
    using assms(1,2,5,6) e iv by (simp add: valid_tx_def owns_def outpoint_of_def)
  ultimately show ?thesis by (simp add: check_tx_fit)
qed

section \<open>Turns\<close>

lemma refresh_fields:
  "refresh nd g = Ret g1 \<Longrightarrow> own_key g1 = own_key g"
  "refresh nd g = Ret g1 \<Longrightarrow> addr g1 = addr g"
  "refresh nd g = Ret g1 \<Longrightarrow> prev_tip g1 = tip (blockchain nd)"
  by (auto simp: refresh_def Let_def Blockchain_tip_def res_simps split: if_splits)

lemma refresh_total: "node_safe nd \<Longrightarrow> \<exists>g1. refresh nd g = Ret g1"
proof -
  assume "node_safe nd"
  then obtain s where "block_state nd (tip (blockchain nd)) = Some s"
    unfolding node_safe_iff by blast
  then show ?thesis by (simp add: refresh_def Let_def Blockchain_tip_def)
qed

lemma refresh_operating:
  "refresh nd (g\<lparr>operating_state := os\<rparr>) =
     bind_res (refresh nd g) (\<lambda>g1. Ret (g1\<lparr>operating_state := os\<rparr>))"
  by (cases "block_state nd (Blockchain_tip (blockchain nd))")
    (simp_all add: refresh_def Let_def)

lemma payment_operating [simp]: "payment X (g\<lparr>operating_state := os\<rparr>) t = payment X g t"
  by (simp add: payment_def)

text \<open>A turn idles, or pays with a transaction that is valid after the state it works on.\<close>

lemma generator_turn_cases:
  assumes turn: "generator_turn X nd g inp = Ret (nd', g', out)" and r: "refresh nd g = Ret g1"
    and "signs X (own_key g)" and "generator_inv X g" and en: "enumerates (entries inp) (states (local_state g1))"
  obtains (idle) "out = []" "nd' = nd" "local_state g' = local_state g \<and> prev_tip g' = prev_tip g \<or>
        local_state g' = local_state g1 \<and> prev_tip g' = prev_tip g1"
      "own_key g' = own_key g" "addr g' = addr g"
  | (paid) stx where "check_tx X (local_state g1) stx = Ret (Some (local_state g'))"
      "out = [Broadcast (NewTransactionHashes [hash_stx X stx])]" "prev_tip g' = prev_tip g1"
      "nd' = nd\<lparr>mempool := (if trans (mempool nd) (hash_stx X stx) = None
         then (mempool nd)\<lparr>trans := (trans (mempool nd))(hash_stx X stx \<mapsto> stx)\<rparr> else mempool nd)\<rparr>"
      "own_key g' = own_key g" "addr g' = addr g" "length (output (transaction stx)) \<le> 3"
proof -
  have work: thesis if g2: "generate_once X nd (g\<lparr>operating_state := os\<rparr>) inp = Ret (nd', g', out)" for os
  proof -
    have r2: "refresh nd (g\<lparr>operating_state := os\<rparr>) = Ret (g1\<lparr>operating_state := os\<rparr>)"
      using r by (simp add: refresh_operating)
    from r2 show thesis
    proof (cases rule: generate_once_cases [where X = X and inp = inp])
      case (poor b)
      with g2 have "g' = g1\<lparr>operating_state := os\<rparr>" "nd' = nd" "out = []" by simp_all
      then show thesis by (intro idle) (simp_all add: refresh_fields [OF r])
    next
      case (pays h k v t)
      have "generator_inv X g1" "signs X (own_key g1)"
        using assms(3,4) by (simp_all add: generator_inv_def refresh_fields [OF r])
      from payment_check_tx [OF this(2,1) en _ pays(3,4)] pays(1)
      have "check_tx X (local_state g1) (payment X g1 t) =
          Ret (Some (State_update X (local_state g1) (payment X g1 t)))" by simp
      with pays(5,6) g2 show thesis
        by (intro paid [of "payment X g1 t"]) (simp_all add: refresh_fields [OF r])
    qed
  qed
  have same: "g = g\<lparr>operating_state := operating_state g\<rparr>" by simp
  show thesis
  proof (cases "\<exists>os. generate_once X nd (g\<lparr>operating_state := os\<rparr>) inp = Ret (nd', g', out)")
    case True
    with work show thesis by blast
  next
    case False
    moreover from False have "generate_once X nd g inp \<noteq> Ret (nd', g', out)"
      using same by metis
    ultimately have "nd' = nd \<and> out = [] \<and> (\<exists>os. g' = g\<lparr>operating_state := os\<rparr>)"
      using turn same
      by (auto simp: generator_turn_def Let_def split: OperatingState.splits received.splits if_splits
          intro: exI [of _ "operating_state g"])
    then show thesis by (intro idle) auto
  qed
qed

section \<open>Properties\<close>

text \<open>
  The generator's payments are valid. When a turn broadcasts anything, it announces the
  hash of one transaction that \<open>check_tx\<close> accepts after the state of the current tip (or
  the local continuation of it), the local state becomes the state after that transaction,
  and the mempool has an entry for the hash. The law of the signature scheme and the
  iteration order of the state are hypotheses.
\<close>

theorem generated_payment_valid:
  assumes "generator_turn X nd g inp = Ret (nd', g', out)" and "out \<noteq> []"
    and "signs X (own_key g)" and "generator_inv X g" and "refresh nd g = Ret g1"
    and "enumerates (entries inp) (states (local_state g1))"
  shows "\<exists>stx. out = [Broadcast (NewTransactionHashes [hash_stx X stx])] \<and>
    check_tx X (local_state g1) stx = Ret (Some (local_state g')) \<and>
    trans (mempool nd') (hash_stx X stx) \<noteq> None \<and> blockchain nd' = blockchain nd"
  using assms(1,5,3,4,6)
proof (cases rule: generator_turn_cases)
  case idle
  with assms(2) show ?thesis by simp
next
  case (paid stx)
  then show ?thesis by (intro exI [of _ stx]) simp
qed

definition demo_generator :: Generator where
  "demo_generator =
     \<lparr>operating_state = Run 0, own_key = demo_key, addr = demo_addr,
      peer_addrs = (address_fill 1, address_fill 2), prev_tip = pad32 [0, 1, 0],
      local_state = demo_state\<rparr>"

definition demo_generator_input :: GeneratorInput where
  "demo_generator_input = \<lparr>gen_signal = Nothing, entries = [((h256_fill 0, 0), (100, demo_addr))]\<rparr>"

lemma demo_generator_facts:
  "signs (demo_crates chk) (own_key demo_generator)"
  "generator_inv (demo_crates chk) demo_generator"
  "refresh (init_node (demo_crates chk)) demo_generator = Ret demo_generator"
  "enumerates (entries demo_generator_input) (states (local_state demo_generator))"
  by (simp_all add: signs_def demo_verify_def demo_sign_def generator_inv_def demo_generator_def
      demo_key_def demo_addr_def refresh_def Blockchain_tip_def Blockchain_new_def Let_def
      enumerates_def demo_generator_input_def demo_state_def)
    auto

lemma demo_generator_turn:
  "\<exists>nd' g' h. generator_turn (demo_crates chk) (init_node (demo_crates chk)) demo_generator
     demo_generator_input = Ret (nd', g', [Broadcast (NewTransactionHashes [h])])"
proof -
  have "generator_turn (demo_crates chk) (init_node (demo_crates chk)) demo_generator demo_generator_input =
      generate_once (demo_crates chk) (init_node (demo_crates chk)) demo_generator demo_generator_input"
    by (simp add: generator_turn_def demo_generator_def demo_generator_input_def)
  moreover from demo_generator_facts(3) [of chk] have
    "\<exists>nd' g' h. generate_once (demo_crates chk) (init_node (demo_crates chk)) demo_generator
       demo_generator_input = Ret (nd', g', [Broadcast (NewTransactionHashes [h])])"
  proof (cases rule: generate_once_cases [where X = "demo_crates chk" and inp = demo_generator_input])
    case (poor r)
    then show ?thesis by (auto simp: demo_generator_def demo_generator_input_def)
  qed auto
  ultimately show ?thesis by simp
qed

theorem generated_payment_valid_witness:
  "\<exists>nd' g' stx. generator_turn (demo_crates True) (init_node (demo_crates True)) demo_generator
     demo_generator_input = Ret (nd', g', [Broadcast (NewTransactionHashes [hash_stx (demo_crates True) stx])]) \<and>
     check_tx (demo_crates True) demo_state stx = Ret (Some (local_state g'))"
proof -
  obtain nd' g' h where t: "generator_turn (demo_crates True) (init_node (demo_crates True)) demo_generator
      demo_generator_input = Ret (nd', g', [Broadcast (NewTransactionHashes [h])])"
    using demo_generator_turn by blast
  have ls: "local_state demo_generator = demo_state" by (simp add: demo_generator_def)
  from generated_payment_valid [OF t _ demo_generator_facts] t show ?thesis
    unfolding ls by fastforce
qed

inductive generator_runs ::
  "Crates \<Rightarrow> Node \<Rightarrow> Generator \<Rightarrow> Node \<Rightarrow> Generator \<Rightarrow> action list \<Rightarrow> bool" for X nd g where
  runs_done: "generator_runs X nd g nd g []"
| runs_turn: "generator_runs X nd g nd1 g1 out \<Longrightarrow> refresh nd1 g1 = Ret gr \<Longrightarrow>
     enumerates (entries inp) (states (local_state gr)) \<Longrightarrow>
     generator_turn X nd1 g1 inp = Ret (nd2, g2, out2) \<Longrightarrow>
     generator_runs X nd g nd2 g2 (out @ out2)"

lemma generator_runs_payments:
  assumes "signs X (own_key g)" and "generator_inv X g" and "prev_tip g = tip (blockchain nd)"
  shows "generator_runs X nd g nd' g' out \<Longrightarrow>
    own_key g' = own_key g \<and> addr g' = addr g \<and> prev_tip g' = prev_tip g \<and> blockchain nd' = blockchain nd \<and>
    (\<exists>stxs. out = map (\<lambda>s. Broadcast (NewTransactionHashes [hash_stx X s])) stxs \<and>
       check_txs X (local_state g) stxs = Ret (Some (local_state g')))"
proof (induction rule: generator_runs.induct)
  case runs_done
  show ?case by (auto intro: exI [of _ "[]"])
next
  case (runs_turn nd1 g1 out gr inp nd2 g2 out2)
  then obtain stxs where stxs: "out = map (\<lambda>s. Broadcast (NewTransactionHashes [hash_stx X s])) stxs"
    "check_txs X (local_state g) stxs = Ret (Some (local_state g1))" by auto
  have gr: "gr = g1"
    using runs_turn.IH runs_turn.hyps(2) assms(3) by (simp add: refresh_def Let_def Blockchain_tip_def)
  have "signs X (own_key g1)" "generator_inv X g1"
    using runs_turn.IH assms by (simp_all add: generator_inv_def)
  from runs_turn.hyps(4,2) this runs_turn.hyps(3) show ?case
  proof (cases rule: generator_turn_cases)
    case idle
    with runs_turn.IH stxs gr show ?thesis by auto
  next
    case (paid stx)
    have "out @ out2 = map (\<lambda>s. Broadcast (NewTransactionHashes [hash_stx X s])) (stxs @ [stx])"
      using stxs(1) paid(2) by simp
    moreover have "check_txs X (local_state g) (stxs @ [stx]) = Ret (Some (local_state g2))"
      using check_txs_snoc [OF stxs(2)] paid(1) gr by simp
    ultimately have "\<exists>stxs. out @ out2 = map (\<lambda>s. Broadcast (NewTransactionHashes [hash_stx X s])) stxs \<and>
        check_txs X (local_state g) stxs = Ret (Some (local_state g2))" by blast
    with runs_turn.IH paid gr show ?thesis by simp
  qed
qed

text \<open>
  C31: the generator's pending payments form a valid block. All transactions it generates
  while the tip stays the same, taken in the order they were generated, are accepted by
  the block validation after the local state the generator started from.
\<close>

theorem pending_payments_form_block:
  assumes "generator_runs X nd g nd' g' out" and "signs X (own_key g)" and "generator_inv X g"
    and "prev_tip g = tip (blockchain nd)"
  shows "\<exists>stxs. out = map (\<lambda>s. Broadcast (NewTransactionHashes [hash_stx X s])) stxs \<and>
    check_txs X (local_state g) stxs = Ret (Some (local_state g'))"
  using generator_runs_payments [OF assms(2-4,1)] by blast

theorem pending_payments_form_block_witness:
  "\<exists>nd' g' stx. generator_runs (demo_crates True) (init_node (demo_crates True)) demo_generator nd' g'
      [Broadcast (NewTransactionHashes [hash_stx (demo_crates True) stx])] \<and>
    check_txs (demo_crates True) demo_state [stx] = Ret (Some (local_state g'))"
proof -
  let ?X = "demo_crates True" and ?nd = "init_node (demo_crates True)"
  obtain nd' g' h where t: "generator_turn ?X ?nd demo_generator
      demo_generator_input = Ret (nd', g', [Broadcast (NewTransactionHashes [h])])"
    using demo_generator_turn by blast
  have r: "generator_runs ?X ?nd demo_generator nd' g' [Broadcast (NewTransactionHashes [h])]"
    using runs_turn [OF runs_done demo_generator_facts(3,4) t] by simp
  have "prev_tip demo_generator = tip (blockchain ?nd)"
    by (simp add: demo_generator_def Blockchain_new_def Let_def)
  from pending_payments_form_block [OF r demo_generator_facts(1,2) this] obtain stxs where
    "[Broadcast (NewTransactionHashes [h])] = map (\<lambda>s. Broadcast (NewTransactionHashes [hash_stx ?X s])) stxs"
    "check_txs ?X (local_state demo_generator) stxs = Ret (Some (local_state g'))"
    by (elim exE conjE) (rule that)
  moreover from this(1) obtain stx where "stxs = [stx]" "h = hash_stx ?X stx" by (cases stxs) auto
  moreover have "local_state demo_generator = demo_state" by (simp add: demo_generator_def)
  ultimately show ?thesis using r by metis
qed

definition node_addr :: "Crates \<Rightarrow> nat \<Rightarrow> Address" where
  "node_addr X i = from_public_key_bytes (sha256 X) (public_key (all_public_keys ! i))"

lemma TxGenerator_new_eq:
  "TxGenerator_new X i =
     (if i < 3
      then Ret \<lparr>operating_state = Paused, own_key = all_public_keys ! i, addr = node_addr X i,
                peer_addrs = (if i = 0 then (node_addr X 1, node_addr X 2)
                              else if i = 1 then (node_addr X 0, node_addr X 2)
                              else (node_addr X 0, node_addr X 1))\<rparr>
      else Panic Unimplemented)"
proof (cases "i < 3")
  case True
  have upt: "[0..<3] = [0, 1, 2 :: nat]" by (simp add: upt_rec)
  from True consider "i = 0" | "i = 1" | "i = 2" by linarith
  then show ?thesis
    by cases (simp_all add: TxGenerator_new_def upt public_key_gen_def all_public_keys_def node_addr_def)
next
  case False
  then show ?thesis by (simp add: TxGenerator_new_def public_key_gen_def)
qed

lemma TxGenerator_key: "TxGenerator_new X i = Ret g \<Longrightarrow> own_key g \<in> set all_public_keys"
  by (auto simp: TxGenerator_new_eq all_public_keys_def split: if_splits)

text \<open>
  \<open>TxGenerator::new\<close> works for the three known nodes: the generator starts paused
  with the node's own key and address and the addresses of the two other nodes in order;
  any other index hits \<open>unimplemented!()\<close>. The keys are those of \<open>main\<close>.
\<close>

theorem TxGenerator_new_three_nodes:
  "TxGenerator_new X i =
     (if i < 3
      then Ret \<lparr>operating_state = Paused, own_key = all_public_keys ! i, addr = node_addr X i,
                peer_addrs = (if i = 0 then (node_addr X 1, node_addr X 2)
                              else if i = 1 then (node_addr X 0, node_addr X 2)
                              else (node_addr X 0, node_addr X 1))\<rparr>
      else Panic Unimplemented)"
  by (rule TxGenerator_new_eq)

text \<open>
  The generator does not panic while the node's states are in sync with its tree,
  except that its control channel is gone; in particular its sums never overflow.
\<close>

theorem generator_turn_panics:
  assumes "node_safe nd" and "generator_turn X nd g inp = Panic e"
  shows "gen_signal inp = Disconnected \<and> (e = UnwrapErr \<or> e = Explicit)"
proof -
  have "\<exists>r. generate_once X nd g inp = Ret r" for g
  proof -
    obtain g1 where "refresh nd g = Ret g1" using refresh_total [OF assms(1)] by blast
    then show ?thesis by (cases rule: generate_once_cases [where X = X and inp = inp]) auto
  qed
  then have "generate_once X nd g inp \<noteq> Panic e" for g by (metis res.distinct(1))
  with assms(2) show ?thesis
    by (auto simp: generator_turn_def Let_def split: OperatingState.splits received.splits if_splits)
qed

theorem generator_turn_panics_witness:
  "generator_turn (demo_crates True) (init_node (demo_crates True)) demo_generator
     (demo_generator_input\<lparr>gen_signal := Disconnected\<rparr>) = Panic Explicit \<and>
   gen_signal (demo_generator_input\<lparr>gen_signal := Disconnected\<rparr>) = Disconnected"
proof -
  have p: "generator_turn (demo_crates True) (init_node (demo_crates True)) demo_generator
     (demo_generator_input\<lparr>gen_signal := Disconnected\<rparr>) = Panic Explicit"
    by (simp add: generator_turn_def demo_generator_def)
  with generator_turn_panics [OF init_node_safe p] show ?thesis by blast
qed

end
