(* ===== verification/Api.thy ===== *)
theory Api
  imports Arrival
begin

text \<open>
  \<open>src/src/api/mod.rs\<close>: the HTTP interface. A request is what the crates \<open>url\<close> and
  \<open>tiny_http\<close> make of it: an error, or the path and the query pairs; a response is what
  the handler answers before it is rendered as JSON. Integers in queries are parsed as
  \<open>str::parse\<close> does.
\<close>

section \<open>Numbers as text\<close>

datatype ParseIntError = Empty | InvalidDigit | PosOverflow

definition parse_error_text :: "ParseIntError \<Rightarrow> string" where
  "parse_error_text e = (case e of
     Empty \<Rightarrow> ''cannot parse integer from empty string''
   | InvalidDigit \<Rightarrow> ''invalid digit found in string''
   | PosOverflow \<Rightarrow> ''number too large to fit in target type'')"

definition digit_of :: "char \<Rightarrow> nat option" where
  "digit_of c = (let n = of_char c in if 48 \<le> n \<and> n \<le> 57 then Some (n - 48) else None)"

fun parse_digits :: "nat \<Rightarrow> string \<Rightarrow> nat \<Rightarrow> ParseIntError + nat" where
  "parse_digits limit [] acc = Inr acc"
| "parse_digits limit (c # cs) acc =
     (case digit_of c of
        None \<Rightarrow> Inl InvalidDigit
      | Some x \<Rightarrow>
          (if limit \<le> acc * 10 then Inl PosOverflow
           else if limit \<le> acc * 10 + x then Inl PosOverflow
           else parse_digits limit cs (acc * 10 + x)))"

text \<open>\<open>parse::<uN>\<close> with \<open>limit = 2 ^ N\<close>: an optional plus sign, then digits.\<close>

definition parse_uint :: "nat \<Rightarrow> string \<Rightarrow> ParseIntError + nat" where
  "parse_uint limit s =
     (case s of
        [] \<Rightarrow> Inl Empty
      | c # cs \<Rightarrow>
          (if (c = CHR ''+'' \<or> c = CHR ''-'') \<and> cs = [] then Inl InvalidDigit
           else if c = CHR ''+'' then parse_digits limit cs 0
           else parse_digits limit s 0))"

text \<open>\<open>to_string\<close> of an unsigned integer.\<close>

fun decimal :: "nat \<Rightarrow> string" where
  "decimal n = (if n < 10 then [char_of (48 + n)] else decimal (n div 10) @ [char_of (48 + n mod 10)])"

declare decimal.simps [simp del]

section \<open>The program\<close>

datatype ApiRequest =
    BadUrl string
  | Url string "(string \<times> string) list"

datatype ApiResponse =
    Result bool string
  | LongestChain "string list"
  | LongestChainTx "string list list"
  | StateDump "(string \<times> string \<times> string \<times> string) list"
  | NotFound string

datatype ApiEffect =
    MinerStart u64
  | GeneratorStart u64
  | NetworkBroadcast Message

text \<open>\<open>collect\<close> of the query pairs into a \<open>HashMap\<close>: a later pair replaces an earlier one.\<close>

definition params_of :: "(string \<times> string) list \<Rightarrow> (string \<rightharpoonup> string)" where
  "params_of pairs = map_of (rev pairs)"

definition api_longest_chain :: "Blockchain \<Rightarrow> ApiResponse res" where
  "api_longest_chain c =
     bind_res (all_blocks_in_longest_chain c) (\<lambda>v. Ret (LongestChain (map (H256_display None) v)))"

definition tx_strings :: "Crates \<Rightarrow> Block \<Rightarrow> string list" where
  "tx_strings X b = map (\<lambda>t. H256_display None (hash_stx X t)) (st (cont b))"

function chain_tx_loop ::
  "Crates \<Rightarrow> Blockchain \<Rightarrow> u32 \<Rightarrow> H256 \<Rightarrow> string list list \<Rightarrow> string list list res" where
  "chain_tx_loop X c height next_hash hashes_string =
     (if 1 \<le> height
      then bind_res (unwrap (blocks c next_hash)) (\<lambda>e.
             chain_tx_loop X c (height - 1) (parent (head (fst e))) (hashes_string @ [tx_strings X (fst e)]))
      else Ret hashes_string)"
  by pat_completeness auto
termination
  by (relation "measure (\<lambda>(X, c, height, next_hash, hashes_string). unat height)")
    (auto simp: word_le_nat_alt unat_sub)

declare chain_tx_loop.simps [simp del]

definition api_longest_chain_tx :: "Crates \<Rightarrow> Blockchain \<Rightarrow> ApiResponse res" where
  "api_longest_chain_tx X c =
     bind_res (unwrap (blocks c (Blockchain_tip c))) (\<lambda>e.
     bind_res (chain_tx_loop X c (snd e) (parent (head (fst e))) [tx_strings X (fst e)]) (\<lambda>hs.
       Ret (LongestChainTx (rev hs))))"

text \<open>The walk back to the block at a height; \<open>block\<close> is the one of \<open>next_hash\<close>.\<close>

function block_at_loop :: "Blockchain \<Rightarrow> u32 \<Rightarrow> u32 \<Rightarrow> Block \<Rightarrow> H256 \<Rightarrow> H256 res" where
  "block_at_loop c block_index height block next_hash =
     (if block_index < height
      then let next_hash = parent (head block)
           in bind_res (unwrap (blocks c next_hash)) (\<lambda>e.
                block_at_loop c block_index (height - 1) (fst e) next_hash)
      else Ret next_hash)"
  by pat_completeness auto
termination
  by (relation "measure (\<lambda>(c, block_index, height, block, next_hash). unat height)")
    (auto intro: unat_pred(2))

declare block_at_loop.simps [simp del]

definition state_rows :: "(outpoint \<times> u32 \<times> Address) list \<Rightarrow> (string \<times> string \<times> string \<times> string) list" where
  "state_rows es =
     map (\<lambda>((k1, k2), (v1, v2)).
       (H256_display None k1, decimal (unat k2), decimal (unat v1), Address_display None v2)) es"

text \<open>The state query; \<open>order\<close> gives the iteration order of the state's map.\<close>

definition api_state ::
  "Node \<Rightarrow> (State \<Rightarrow> (outpoint \<times> u32 \<times> Address) list) \<Rightarrow> u32 \<Rightarrow> ApiResponse res" where
  "api_state nd order block_index =
     (let c = blockchain nd;
          tip = Blockchain_tip c
      in bind_res (unwrap (blocks c tip)) (\<lambda>e.
         bind_res (block_at_loop c block_index (snd e) (fst e) tip) (\<lambda>next_hash.
         bind_res (unwrap (block_state nd next_hash)) (\<lambda>s.
           Ret (StateDump (state_rows (order s)))))))"

text \<open>The query parameter \<open>name\<close> as an integer, or the response that refuses it.\<close>

definition query_uint :: "nat \<Rightarrow> string \<Rightarrow> string \<Rightarrow> string \<Rightarrow> (string \<times> string) list \<Rightarrow> ApiResponse + nat" where
  "query_uint limit name missing parsing pairs =
     (case params_of pairs name of
        None \<Rightarrow> Inl (Result False missing)
      | Some v \<Rightarrow>
          (case parse_uint limit v of
             Inl e \<Rightarrow> Inl (Result False (parsing @ parse_error_text e))
           | Inr n \<Rightarrow> Inr n))"

text \<open>
  What a request is answered and what else it does; whether the answer can be sent is
  decided after that. A lookup that fails would panic; on a well-formed tree none does.
\<close>

definition api_handle ::
  "Crates \<Rightarrow> Node \<Rightarrow> (State \<Rightarrow> (outpoint \<times> u32 \<times> Address) list) \<Rightarrow> ApiRequest \<Rightarrow>
     (ApiResponse \<times> ApiEffect list) res" where
  "api_handle X nd order req =
     (case req of
        BadUrl e \<Rightarrow> Ret (Result False (''error parsing url: '' @ e), [])
      | Url path pairs \<Rightarrow>
          (if path = ''/miner/start'' then
             (case query_uint (2 ^ 64) ''lambda'' ''missing lambda'' ''error parsing lambda: '' pairs of
                Inl r \<Rightarrow> Ret (r, [])
              | Inr lambda \<Rightarrow> Ret (Result True ''ok'', [MinerStart (word_of_nat lambda)]))
           else if path = ''/tx-generator/start'' then
             (case query_uint (2 ^ 64) ''theta'' ''missing theta'' ''error parsing theta: '' pairs of
                Inl r \<Rightarrow> Ret (r, [])
              | Inr theta \<Rightarrow> Ret (Result True ''ok!'', [GeneratorStart (word_of_nat theta)]))
           else if path = ''/network/ping'' then
             Ret (Result True ''ok'', [NetworkBroadcast (Ping ''Test ping'')])
           else if path = ''/blockchain/longest-chain'' then
             bind_res (api_longest_chain (blockchain nd)) (\<lambda>r. Ret (r, []))
           else if path = ''/blockchain/longest-chain-tx'' then
             bind_res (api_longest_chain_tx X (blockchain nd)) (\<lambda>r. Ret (r, []))
           else if path = ''/blockchain/longest-chain-tx-count'' then
             Ret (Result False ''unimplemented!'', [])
           else if path = ''/blockchain/state'' then
             (case query_uint (2 ^ 32) ''block'' ''missing block no.'' ''error parsing block no: '' pairs of
                Inl r \<Rightarrow> Ret (r, [])
              | Inr n \<Rightarrow> bind_res (api_state nd order (word_of_nat n)) (\<lambda>r. Ret (r, [])))
           else Ret (NotFound ''endpoint not found'', [])))"

text \<open>
  The macros that answer end in \<open>req.respond(resp).unwrap()\<close>: when the connection fails, the
  thread of the request panics, after the effects of the request. The thread of
  \<open>/blockchain/longest-chain\<close> still holds the lock of the block tree then, so its panic
  poisons the lock; this is the last component. The other threads hold no lock there.
\<close>

definition respond :: "bool \<Rightarrow> ApiResponse \<Rightarrow> ApiResponse res" where
  "respond sent resp = (if sent then Ret resp else Panic UnwrapErr)"

definition answers_locked :: "ApiRequest \<Rightarrow> bool" where
  "answers_locked req \<longleftrightarrow> (case req of BadUrl e \<Rightarrow> False | Url path pairs \<Rightarrow> path = ''/blockchain/longest-chain'')"

definition api_serve ::
  "Crates \<Rightarrow> Node \<Rightarrow> (State \<Rightarrow> (outpoint \<times> u32 \<times> Address) list) \<Rightarrow> bool \<Rightarrow> ApiRequest \<Rightarrow>
     (ApiResponse res \<times> ApiEffect list \<times> bool) res" where
  "api_serve X nd order sent req =
     bind_res (api_handle X nd order req) (\<lambda>(resp, effects).
       Ret (respond sent resp, effects, \<not> sent \<and> answers_locked req))"

lemma api_serve_locked:
  "api_serve X nd order sent req = Ret (r, effects, True) \<Longrightarrow>
     effects = [] \<and> r = Panic UnwrapErr \<and> (\<exists>pairs. req = Url ''/blockchain/longest-chain'' pairs)"
  by (auto simp: api_serve_def answers_locked_def respond_def api_handle_def res_simps split: ApiRequest.splits)

section \<open>Parsing what is printed\<close>

lemma digit_of_char [simp]: "n < 10 \<Longrightarrow> digit_of (char_of (48 + n)) = Some n"
  by (simp add: digit_of_def Let_def)

lemma parse_digits_append:
  "parse_digits limit (xs @ ys) acc =
     (case parse_digits limit xs acc of Inl e \<Rightarrow> Inl e | Inr a \<Rightarrow> parse_digits limit ys a)"
  by (induction xs arbitrary: acc) (auto split: option.splits)

lemma parse_digits_decimal:
  assumes "10 \<le> limit"
  shows "parse_digits limit (decimal n) 0 = (if n < limit then Inr n else Inl PosOverflow)"
proof (induction n rule: decimal.induct)
  case (1 n)
  show ?case
  proof (cases "n < 10")
    case True
    with assms show ?thesis by (simp add: decimal.simps [of n])
  next
    case False
    have n: "n div 10 * 10 + n mod 10 = n" by simp
    then have "n div 10 * 10 \<le> n" "n div 10 \<le> n" by linarith+
    with 1 [OF False] False n show ?thesis
      by (auto simp: decimal.simps [of n] parse_digits_append)
  qed
qed

lemma decimal_digits: "c \<in> set (decimal n) \<Longrightarrow> digit_of c \<noteq> None"
proof (induction n rule: decimal.induct)
  case (1 n)
  then show ?case by (subst (asm) (2) decimal.simps) (auto split: if_splits)
qed

lemma decimal_nonempty: "decimal n \<noteq> []"
  by (subst decimal.simps) simp

lemma parse_uint_decimal:
  assumes "10 \<le> limit"
  shows "parse_uint limit (decimal n) = (if n < limit then Inr n else Inl PosOverflow)"
proof -
  obtain c cs where d: "decimal n = c # cs" using decimal_nonempty by (cases "decimal n") auto
  with decimal_digits [of c n] have "c \<noteq> CHR ''+''" "c \<noteq> CHR ''-''"
    by (auto simp: digit_of_def)
  then have "parse_uint limit (decimal n) = parse_digits limit (decimal n) 0"
    by (simp add: parse_uint_def d)
  with parse_digits_decimal [OF assms] show ?thesis by simp
qed

section \<open>Walks along the longest chain\<close>

lemma chain_tx_loop_longest:
  "longest_loop c n h acc = Ret (acc @ anc) \<Longrightarrow>
     chain_tx_loop X c n h txs = Ret (txs @ map (\<lambda>h. tx_strings X (fst (the (blocks c h)))) anc)"
proof (induction "unat n" arbitrary: n h acc anc txs)
  case 0
  then have "n = 0" by (simp add: unat_eq_zero)
  with 0 show ?case by (simp add: longest_loop.simps chain_tx_loop.simps)
next
  case (Suc k)
  then have n: "0 < n" "1 \<le> n" by (simp_all add: word_less_nat_alt word_le_nat_alt)
  from Suc.prems n(2) obtain e where e: "blocks c h = Some e"
    "longest_loop c (n - 1) (parent (head (fst e))) (acc @ [h]) = Ret (acc @ anc)"
    by (auto simp: longest_loop.simps [of c n] res_simps)
  obtain anc' where a: "anc = h # anc'"
    using longest_loop_extends [OF e(2)] by (metis append_assoc append_Cons append_Nil same_append_eq)
  have "k = unat (n - 1)" using unat_pred(1) [OF n(1)] Suc.hyps(2) by simp
  from Suc.hyps(1) [OF this, of "parent (head (fst e))" "acc @ [h]" anc' "txs @ [tx_strings X (fst e)]"]
  show ?case using e n(2) a by (simp add: chain_tx_loop.simps [of X c n])
qed

lemma block_at_loop_chain:
  assumes inv: "chain_inv X c"
  shows "chain_to X c hs h \<Longrightarrow> blocks c h = Some (b, n) \<Longrightarrow>
    block_at_loop c k n b h = Ret (hs ! min (unat k) (unat n))"
proof (induction arbitrary: b n rule: chain_to.induct)
  case chain_root
  then have "n = 0" using inv tree_inv_genesis by (fastforce simp: chain_inv_def)
  then show ?case by (simp add: block_at_loop.simps)
next
  case (chain_step hs b1 h n1)
  then have b: "b1 = b" "n1 = n" by simp_all
  have tree: "tree_inv X (blocks c)" using inv by (simp add: chain_inv_def)
  have "n \<noteq> 0" using tree_inv_root [OF tree] chain_step by blast
  then have n0: "0 < n" by (simp add: word_neq_0_conv)
  from tree_inv_parent [OF tree chain_step.prems \<open>n \<noteq> 0\<close>] obtain pb pn where
    p: "blocks c (parent (head b)) = Some (pb, pn)" "unat n = Suc (unat pn)" by blast
  have "unat (n - 1) = unat pn" using unat_pred(1) [OF n0] p(2) by simp
  then have pn: "n - 1 = pn" by (simp add: word_unat_eq_iff)
  have len: "length hs = unat n"
    using chain_to_height [OF inv chain_step.hyps(1)] p b by auto
  show ?case
  proof (cases "k < n")
    case True
    then have "unat k \<le> unat pn" "unat k < length hs" using p(2) len by (simp_all add: word_less_nat_alt)
    moreover have "block_at_loop c k pn pb (parent (head b)) = Ret (hs ! min (unat k) (unat pn))"
      using chain_step.IH p(1) b by simp
    ultimately show ?thesis
      using True p pn by (simp add: block_at_loop.simps [of c k n] nth_append)
  next
    case False
    then have "unat n \<le> unat k" by (simp add: word_less_nat_alt)
    with False len show ?thesis by (simp add: block_at_loop.simps [of c k n] nth_append)
  qed
qed

section \<open>Properties\<close>

text \<open>
  Integers in queries. The parser inverts the decimal rendering for both widths the
  routes use, and reports an overflow exactly for the numbers that do not fit.
\<close>

theorem parse_decimal:
  "parse_uint (2 ^ 64) (decimal n) = (if n < 2 ^ 64 then Inr n else Inl PosOverflow) \<and>
   parse_uint (2 ^ 32) (decimal n) = (if n < 2 ^ 32 then Inr n else Inl PosOverflow)"
  by (simp add: parse_uint_decimal del: power_eq_if)

lemma longest_chain_tx_Ret:
  assumes "all_blocks_in_longest_chain c = Ret hs"
  shows "api_longest_chain_tx X c =
    Ret (LongestChainTx (map (\<lambda>h. tx_strings X (fst (the (blocks c h)))) hs))"
proof -
  from assms obtain e v where e: "blocks c (tip c) = Some e"
    "longest_loop c (snd e) (parent (head (fst e))) [tip c] = Ret v" "hs = rev v"
    by (auto simp: all_blocks_in_longest_chain_def res_simps)
  from longest_loop_extends [OF e(2)] obtain anc where v: "v = [tip c] @ anc" by blast
  from chain_tx_loop_longest [OF e(2) [unfolded v], of X "[tx_strings X (fst e)]"] e v show ?thesis
    by (simp add: api_longest_chain_tx_def Blockchain_tip_def rev_map)
qed

text \<open>
  \<open>/blockchain/longest-chain-tx\<close> lists, without a panic, the transaction hashes of the
  blocks of the longest chain, from the genesis block to the tip.
\<close>

theorem longest_chain_tx_lists_chain:
  assumes "chain_inv X (blockchain nd)"
  shows "\<exists>hs. all_blocks_in_longest_chain (blockchain nd) = Ret hs \<and>
    api_handle X nd order (Url ''/blockchain/longest-chain-tx'' pairs) =
      Ret (LongestChainTx (map (\<lambda>h. tx_strings X (fst (the (blocks (blockchain nd) h)))) hs), [])"
proof -
  from longest_chain_tip [OF assms] obtain hs where "all_blocks_in_longest_chain (blockchain nd) = Ret hs" .
  then show ?thesis by (simp add: api_handle_def longest_chain_tx_Ret)
qed

theorem longest_chain_tx_lists_chain_witness:
  "api_handle (demo_crates True) (init_node (demo_crates True)) (\<lambda>_. [])
     (Url ''/blockchain/longest-chain-tx'' []) = Ret (LongestChainTx [[]], [])"
proof -
  let ?X = "demo_crates True"
  have inv: "chain_inv ?X (blockchain (init_node ?X))" by (simp add: chain_inv_new)
  have "all_blocks_in_longest_chain (Blockchain_new ?X) = Ret [pad32 [0, 1, 0]]"
    using all_blocks_chain [OF chain_inv_new, of ?X] chain_root [of ?X "Blockchain_new ?X"]
    by (simp add: Blockchain_new_def Let_def)
  moreover have "tx_strings ?X (fst (the (blocks (Blockchain_new ?X) (pad32 [0, 1, 0])))) = []"
    by (simp add: Blockchain_new_def Let_def tx_strings_def) (simp add: genesis_def)
  ultimately show ?thesis
    using longest_chain_tx_lists_chain [OF inv, of "\<lambda>_. []" "[]"] by auto
qed

text \<open>
  C32: the state query. \<open>/blockchain/state?block=k\<close> dumps the recorded state of the block
  at position \<open>k\<close> of the longest chain; for a \<open>k\<close> beyond the tip it dumps the tip's
  state instead of reporting an error.
\<close>

theorem state_query_correct:
  assumes "chain_inv X (blockchain nd)" and "node_safe nd"
    and "all_blocks_in_longest_chain (blockchain nd) = Ret hs" and "k < 2 ^ 32"
  shows "\<exists>s. block_state nd (hs ! min k (length hs - 1)) = Some s \<and>
    api_handle X nd order (Url ''/blockchain/state'' [(''block'', decimal k)]) =
      Ret (StateDump (state_rows (order s)), [])"
proof -
  have path: "chain_to X (blockchain nd) hs (tip (blockchain nd))"
    using assms(1,3) all_blocks_chain by blast
  from chain_to_height [OF assms(1) path] obtain b n where
    t: "blocks (blockchain nd) (tip (blockchain nd)) = Some (b, n)" "length hs = Suc (unat n)" by blast
  have k: "unat (word_of_nat k :: u32) = k" using assms(4) by (simp add: unat_of_nat take_bit_nat_eq_self)
  have walk: "block_at_loop (blockchain nd) (word_of_nat k) n b (tip (blockchain nd)) =
      Ret (hs ! min k (length hs - 1))"
    using block_at_loop_chain [OF assms(1) path t(1), of "word_of_nat k"] k t(2) by simp
  have "\<exists>s. block_state nd (hs ! min k (length hs - 1)) = Some s"
  proof -
    have "hs ! min k (length hs - 1) \<in> set hs" using t(2) by (intro nth_mem) simp
    from chain_to_known [OF assms(1) path this] assms(2) show ?thesis by (auto simp: node_safe_iff)
  qed
  then obtain s where s: "block_state nd (hs ! min k (length hs - 1)) = Some s" by blast
  have "query_uint (2 ^ 32) ''block'' ''missing block no.'' ''error parsing block no: ''
      [(''block'', decimal k)] = Inr k"
    using assms(4) parse_uint_decimal [of "2 ^ 32" k] by (simp add: query_uint_def params_of_def)
  then have "api_handle X nd order (Url ''/blockchain/state'' [(''block'', decimal k)]) =
      Ret (StateDump (state_rows (order s)), [])"
    unfolding api_handle_def using t(1) walk s
    by (simp add: api_state_def Blockchain_tip_def)
  with s show ?thesis by blast
qed

theorem state_query_correct_witness:
  "api_handle (demo_crates True) (init_node (demo_crates True)) (\<lambda>_. [])
     (Url ''/blockchain/state'' [(''block'', decimal 7)]) = Ret (StateDump [], [])"
proof -
  let ?X = "demo_crates True"
  have inv: "chain_inv ?X (blockchain (init_node ?X))" by (simp add: chain_inv_new)
  have "all_blocks_in_longest_chain (blockchain (init_node ?X)) = Ret [pad32 [0, 1, 0]]"
    using all_blocks_chain [OF chain_inv_new, of ?X] chain_root [of ?X "Blockchain_new ?X"]
    by (simp add: Blockchain_new_def Let_def)
  from state_query_correct [OF inv init_node_safe this, of 7 "\<lambda>_. []"] show ?thesis
    by (auto simp: state_rows_def)
qed

text \<open>
  No lookup of a request panics: on a node whose tree and states are in order, there is a
  response to every request; only the two \<open>start\<close> routes and \<open>ping\<close> have an effect.
\<close>

theorem api_total:
  assumes "chain_inv X (blockchain nd)" and "node_safe nd"
  shows "\<exists>r es. api_handle X nd order req = Ret (r, es) \<and> length es \<le> 1"
proof -
  from longest_chain_tip [OF assms(1)] obtain hs where
    hs: "all_blocks_in_longest_chain (blockchain nd) = Ret hs" by blast
  have "\<exists>s. api_state nd order k = Ret s" for k
  proof -
    have path: "chain_to X (blockchain nd) hs (tip (blockchain nd))"
      using assms(1) hs all_blocks_chain by blast
    from chain_to_height [OF assms(1) path] obtain b n where
      t: "blocks (blockchain nd) (tip (blockchain nd)) = Some (b, n)" "length hs = Suc (unat n)" by blast
    have "hs ! min (unat k) (unat n) \<in> set hs" using t(2) by (intro nth_mem) simp
    from chain_to_known [OF assms(1) path this] assms(2) obtain s where
      "block_state nd (hs ! min (unat k) (unat n)) = Some s" by (auto simp: node_safe_iff)
    with block_at_loop_chain [OF assms(1) path t(1), of k] t(1) show ?thesis
      by (simp add: api_state_def Blockchain_tip_def)
  qed
  then have st: "\<exists>r es. bind_res (api_state nd order k) (\<lambda>r. Ret (r, [])) = Ret (r, es) \<and> length es \<le> 1" for k
    by (auto simp: res_simps)
  have lc: "api_longest_chain (blockchain nd) = Ret (LongestChain (map (H256_display None) hs))"
    by (simp add: api_longest_chain_def hs)
  show ?thesis
    unfolding api_handle_def
    by (cases req) (use st in \<open>auto simp: lc longest_chain_tx_Ret [OF hs] split: sum.splits\<close>)
qed

theorem api_total_witness:
  "\<exists>r es. api_handle (demo_crates True) (init_node (demo_crates True)) (\<lambda>_. [])
     (Url ''/network/ping'' []) = Ret (r, es) \<and> length es \<le> 1"
  by (rule api_total) (simp_all add: chain_inv_new)

end
