(* ===== verification/Locks.thy ===== *)
theory Locks
  imports MinerWorker TxGenerator Api
begin

text \<open>
  Block processing at the granularity of the locks. A handler of theory \<open>NetWorker\<close> is
  one step; here the \<open>Blocks\<close> arm of \<open>src/src/network/worker.rs\<close> and the miner's worker
  of \<open>src/src/miner/worker.rs\<close> are taken apart at every \<open>lock().unwrap()\<close> on the block
  tree and on the ledger states. A position of a thread is what it does next; between two
  positions lies at most one lock section. A thread run on its own does what the handlers
  do.
\<close>

section \<open>The program\<close>

text \<open>The variables of the arm; \<open>todo\<close> are the blocks of the message still to come.\<close>

record Local =
  todo :: "Block list"
  orphan_blocks :: "Block list"
  new_blocks :: "H256 list"
  pos_n :: nat
  pos_i :: nat
  out_msgs :: "action list"

text \<open>Where a block under validation comes from, which decides where the thread goes on.\<close>

datatype Origin = Received | Released | Mined

datatype Position =
    NextBlock
  | CheckKnown Block
  | CheckParent Block
  | CheckDifficulty Block
  | ReadState Origin Block
  | WriteState Origin Block State
  | InsertBlock Origin Block
  | NewBlocksLoop
  | OrphanLoop
  | OrphanDifficulty Block
  | Idle
  | Stopped panic

definition after_check :: "Crates \<Rightarrow> Origin \<Rightarrow> Block \<Rightarrow> bool \<Rightarrow> Local \<Rightarrow> Position \<times> Local" where
  "after_check X origin b ok l =
     (case origin of
        Received \<Rightarrow> (NewBlocksLoop, if ok then l\<lparr>new_blocks := new_blocks l @ [hash_block X b]\<rparr> else l)
      | Released \<Rightarrow> (OrphanLoop, if ok then l\<lparr>new_blocks := new_blocks l @ [hash_block X b]\<rparr> else l)
      | Mined \<Rightarrow> (Idle, if ok then l\<lparr>out_msgs := [Broadcast (NewBlockHashes [hash_block X b])]\<rparr> else l))"

fun block_lock_step :: "Crates \<Rightarrow> Node \<Rightarrow> Position \<times> Local \<Rightarrow> Node \<times> Position \<times> Local" where
  "block_lock_step X nd (NextBlock, l) =
     (case todo l of
        [] \<Rightarrow> (nd, Idle, l\<lparr>out_msgs := out_msgs l @
                (if 0 < length (new_blocks l) then [Broadcast (NewBlockHashes (new_blocks l))] else [])\<rparr>)
      | b # bs \<Rightarrow> (nd, if hash_block X b \<le> difficulty (head b) then CheckKnown b else NextBlock,
                   l\<lparr>todo := bs\<rparr>))"
| "block_lock_step X nd (CheckKnown b, l) =
     (nd, if blocks (blockchain nd) (hash_block X b) = None then CheckParent b else NextBlock, l)"
| "block_lock_step X nd (CheckParent b, l) =
     (if blocks (blockchain nd) (parent (head b)) \<noteq> None then (nd, CheckDifficulty b, l)
      else (nd, NextBlock, l\<lparr>orphan_blocks := orphan_blocks l @ [b],
                             out_msgs := out_msgs l @ [Reply (GetBlocks [parent (head b)])]\<rparr>))"
| "block_lock_step X nd (CheckDifficulty b, l) =
     (case blocks (blockchain nd) (parent (head b)) of
        None \<Rightarrow> (nd, Stopped UnwrapNone, l)
      | Some e \<Rightarrow> (nd, if difficulty (head b) = difficulty (head (fst e))
                      then ReadState Received b else NewBlocksLoop, l))"
| "block_lock_step X nd (ReadState origin b, l) =
     (case block_state nd (parent (head b)) of
        None \<Rightarrow> (nd, Stopped UnwrapNone, l)
      | Some s \<Rightarrow>
          (case check_txs X s (st (cont b)) of
             Panic e \<Rightarrow> (nd, Stopped e, l)
           | Ret None \<Rightarrow> (nd, after_check X origin b False l)
           | Ret (Some s') \<Rightarrow> (nd, WriteState origin b s', l)))"
| "block_lock_step X nd (WriteState origin b s, l) =
     (nd\<lparr>block_state := (block_state nd)(hash_block X b \<mapsto> s)\<rparr>, InsertBlock origin b, l)"
| "block_lock_step X nd (InsertBlock origin b, l) =
     (case Blockchain_insert X (blockchain nd) b of
        Panic e \<Rightarrow> (nd, Stopped e, l)
      | Ret c \<Rightarrow> (nd\<lparr>blockchain := c\<rparr>, after_check X origin b True l))"
| "block_lock_step X nd (NewBlocksLoop, l) =
     (nd, if length (new_blocks l) \<le> pos_n l then (NextBlock, l) else (OrphanLoop, l\<lparr>pos_i := 0\<rparr>))"
| "block_lock_step X nd (OrphanLoop, l) =
     (if length (orphan_blocks l) \<le> pos_i l then (nd, NewBlocksLoop, l\<lparr>pos_n := pos_n l + 1\<rparr>)
      else let b = orphan_blocks l ! pos_i l
           in if parent (head b) = new_blocks l ! pos_n l
              then (nd, OrphanDifficulty b, l\<lparr>orphan_blocks := remove_at (pos_i l) (orphan_blocks l)\<rparr>)
              else (nd, OrphanLoop, l\<lparr>pos_i := pos_i l + 1\<rparr>))"
| "block_lock_step X nd (OrphanDifficulty b, l) =
     (case blocks (blockchain nd) (new_blocks l ! pos_n l) of
        None \<Rightarrow> (nd, Stopped UnwrapNone, l)
      | Some e \<Rightarrow> (nd, if difficulty (head b) = difficulty (head (fst e))
                      then ReadState Released b else OrphanLoop, l))"
| "block_lock_step X nd (Idle, l) = (nd, Idle, l)"
| "block_lock_step X nd (Stopped e, l) = (nd, Stopped e, l)"

text \<open>
  The two mutexes. A thread that finds its lock poisoned panics in \<open>lock().unwrap()\<close>; a
  thread that panics while it holds the lock poisons it. In \<open>ReadState\<close> the lock is released
  before the transactions are checked.
\<close>

datatype Lock = BlockchainLock | BlockStateLock

record Shared =
  sh_node :: Node
  sh_poisoned :: "Lock set"

definition lock_of :: "Position \<Rightarrow> Lock option" where
  "lock_of p =
     (case p of
        CheckKnown _ \<Rightarrow> Some BlockchainLock
      | CheckParent _ \<Rightarrow> Some BlockchainLock
      | CheckDifficulty _ \<Rightarrow> Some BlockchainLock
      | ReadState _ _ \<Rightarrow> Some BlockStateLock
      | WriteState _ _ _ \<Rightarrow> Some BlockStateLock
      | InsertBlock _ _ \<Rightarrow> Some BlockchainLock
      | OrphanDifficulty _ \<Rightarrow> Some BlockchainLock
      | _ \<Rightarrow> None)"

definition stopped :: "Position \<Rightarrow> bool" where
  "stopped p \<longleftrightarrow> (case p of Stopped _ \<Rightarrow> True | _ \<Rightarrow> False)"

definition panics_locked :: "Node \<Rightarrow> Position \<Rightarrow> bool" where
  "panics_locked nd p \<longleftrightarrow> (case p of ReadState _ b \<Rightarrow> block_state nd (parent (head b)) = None | _ \<Rightarrow> True)"

definition lock_step :: "Crates \<Rightarrow> Shared \<Rightarrow> Position \<times> Local \<Rightarrow> Shared \<times> Position \<times> Local" where
  "lock_step X sh t =
     (let (nd, t') = block_lock_step X (sh_node sh) t
      in case lock_of (fst t) of
           None \<Rightarrow> (sh\<lparr>sh_node := nd\<rparr>, t')
         | Some k \<Rightarrow>
             (if k \<in> sh_poisoned sh then (sh, Stopped UnwrapErr, snd t)
              else (sh\<lparr>sh_node := nd,
                       sh_poisoned := (if stopped (fst t') \<and> panics_locked (sh_node sh) (fst t)
                                       then insert k (sh_poisoned sh) else sh_poisoned sh)\<rparr>, t')))"

text \<open>
  The threads that read: the generator takes the tip, and the state of the tip when it has
  changed; the interface's state query walks from the tip to a height, with the lock
  released between the blocks.
\<close>

datatype Reader =
    GenTip
  | GenState H256
  | GenHas H256 State
  | ApiTip u32
  | ApiBlock u32 H256
  | ApiWalk u32 H256 Block u32 H256
  | ApiState u32 H256 H256
  | ApiAnswer u32 H256 State
  | ReaderStopped panic

definition locked_read :: "Lock \<Rightarrow> Shared \<Rightarrow> Reader res \<Rightarrow> Shared \<times> Reader" where
  "locked_read k sh r =
     (if k \<in> sh_poisoned sh then (sh, ReaderStopped UnwrapErr)
      else case r of
             Ret r' \<Rightarrow> (sh, r')
           | Panic e \<Rightarrow> (sh\<lparr>sh_poisoned := insert k (sh_poisoned sh)\<rparr>, ReaderStopped e))"

fun reader_step :: "Shared \<Rightarrow> Reader \<Rightarrow> Shared \<times> Reader" where
  "reader_step sh GenTip =
     locked_read BlockchainLock sh (Ret (GenState (Blockchain_tip (blockchain (sh_node sh)))))"
| "reader_step sh (GenState t) =
     locked_read BlockStateLock sh
       (bind_res (unwrap (block_state (sh_node sh) t)) (\<lambda>s. Ret (GenHas t s)))"
| "reader_step sh (GenHas prev s) =
     locked_read BlockchainLock sh
       (let t = Blockchain_tip (blockchain (sh_node sh))
        in Ret (if prev = t then GenHas prev s else GenState t))"
| "reader_step sh (ApiTip i) =
     locked_read BlockchainLock sh (Ret (ApiBlock i (Blockchain_tip (blockchain (sh_node sh)))))"
| "reader_step sh (ApiBlock i t) =
     locked_read BlockchainLock sh
       (bind_res (unwrap (blocks (blockchain (sh_node sh)) t)) (\<lambda>e. Ret (ApiWalk i t (fst e) (snd e) t)))"
| "reader_step sh (ApiWalk i t block height next_hash) =
     (if i < height
      then locked_read BlockchainLock sh
             (bind_res (unwrap (blocks (blockchain (sh_node sh)) (parent (head block))))
               (\<lambda>e. Ret (ApiWalk i t (fst e) (height - 1) (parent (head block)))))
      else (sh, ApiState i t next_hash))"
| "reader_step sh (ApiState i t h) =
     locked_read BlockStateLock sh
       (bind_res (unwrap (block_state (sh_node sh) h)) (\<lambda>s. Ret (ApiAnswer i t s)))"
| "reader_step sh (ApiAnswer i t s) = (sh, ApiAnswer i t s)"
| "reader_step sh (ReaderStopped e) = (sh, ReaderStopped e)"

text \<open>A step of a thread of either kind.\<close>

datatype Thread = Worker Position Local | Reading Reader

fun thread_lock_step :: "Crates \<Rightarrow> Shared \<Rightarrow> Thread \<Rightarrow> Shared \<times> Thread" where
  "thread_lock_step X sh (Worker p l) = (let (sh', p', l') = lock_step X sh (p, l) in (sh', Worker p' l'))"
| "thread_lock_step X sh (Reading r) = (let (sh', r') = reader_step sh r in (sh', Reading r'))"

section \<open>A thread on its own\<close>

definition runs ::
  "Crates \<Rightarrow> Node \<times> Position \<times> Local \<Rightarrow> Node \<times> Position \<times> Local \<Rightarrow> bool" where
  "runs X u v \<longleftrightarrow> (\<exists>k. ((\<lambda>(nd, t). block_lock_step X nd t) ^^ k) u = v)"

lemma runs_refl: "runs X u u"
  unfolding runs_def by (rule exI [of _ 0]) simp

lemma runs_step:
  assumes "runs X (block_lock_step X nd t) v"
  shows "runs X (nd, t) v"
proof -
  from assms obtain k where "((\<lambda>(nd, t). block_lock_step X nd t) ^^ k) (block_lock_step X nd t) = v"
    by (auto simp: runs_def)
  then show ?thesis unfolding runs_def
    by (intro exI [of _ "Suc k"]) (simp add: funpow_Suc_right del: funpow.simps)
qed

lemma runs_trans: "runs X u v \<Longrightarrow> runs X v w \<Longrightarrow> runs X u w"
proof -
  assume "runs X u v" "runs X v w"
  then obtain j k where "((\<lambda>(nd, t). block_lock_step X nd t) ^^ j) u = v"
    "((\<lambda>(nd, t). block_lock_step X nd t) ^^ k) v = w" by (auto simp: runs_def)
  then have "((\<lambda>(nd, t). block_lock_step X nd t) ^^ (k + j)) u = w" by (simp add: funpow_add)
  then show ?thesis unfolding runs_def by blast
qed

lemma runs_accept:
  assumes "accept_block X nd b (hash_block X b) = Ret (ok, nd')"
  shows "runs X (nd, ReadState origin b, l) (nd', after_check X origin b ok l)"
proof -
  from assms obtain s where s: "block_state nd (parent (head b)) = Some s"
    by (auto simp: accept_block_def check_tx_state_def res_simps)
  show ?thesis
  proof (cases ok)
    case True
    with assms obtain c s1 s' where c: "Blockchain_insert X (blockchain nd) b = Ret c"
      "block_state nd (parent (head b)) = Some s1" "check_txs X s1 (st (cont b)) = Ret (Some s')"
      "nd' = nd\<lparr>block_state := (block_state nd)(hash_block X b \<mapsto> s'), blockchain := c\<rparr>"
      by (auto elim: accept_block_accepted)
    show ?thesis
      by (rule runs_step, simp add: c(2,3), rule runs_step, simp, rule runs_step)
        (simp add: c True runs_refl)
  next
    case False
    with assms s have "nd' = nd" "check_txs X s (st (cont b)) = Ret None"
      by (auto simp: accept_block_def check_tx_state_def res_simps Let_def split: option.splits if_splits)
    with s False show ?thesis by (intro runs_step) (simp add: runs_refl)
  qed
qed

lemma runs_unorphan:
  assumes "unorphan_loop X n i nd os nb = Ret r"
  shows "pos_n l = n \<Longrightarrow> pos_i l = i \<Longrightarrow> orphan_blocks l = os \<Longrightarrow> new_blocks l = nb \<Longrightarrow>
    \<exists>i'. runs X (nd, OrphanLoop, l) (fst r, NewBlocksLoop,
      l\<lparr>orphan_blocks := fst (snd r), new_blocks := snd (snd r), pos_n := n + 1, pos_i := i'\<rparr>)"
  using assms
proof (induction arbitrary: l rule: unorphan_induct)
  case (finished i nd os nb)
  then have same: "l\<lparr>orphan_blocks := os, new_blocks := nb, pos_n := n + 1, pos_i := i\<rparr> = l\<lparr>pos_n := n + 1\<rparr>"
    by simp
  have "runs X (nd, OrphanLoop, l) (nd, NewBlocksLoop, l\<lparr>pos_n := n + 1\<rparr>)"
    by (rule runs_step) (use finished in \<open>simp add: runs_refl\<close>)
  then show ?case unfolding fst_conv snd_conv same [symmetric] by blast
next
  case (skip i nd os nb r)
  from skip.IH [of "l\<lparr>pos_i := i + 1\<rparr>"] skip.prems skip.hyps obtain i' where
    "runs X (nd, OrphanLoop, l\<lparr>pos_i := i + 1\<rparr>) (fst r, NewBlocksLoop,
      l\<lparr>orphan_blocks := fst (snd r), new_blocks := snd (snd r), pos_n := n + 1, pos_i := i'\<rparr>)" by auto
  with skip.prems skip.hyps show ?case by (intro exI [of _ i'] runs_step) (simp add: Let_def)
next
  case (drop i nd os nb r e)
  from drop.IH [of "l\<lparr>orphan_blocks := remove_at i os\<rparr>"] drop.prems obtain i' where
    i': "runs X (nd, OrphanLoop, l\<lparr>orphan_blocks := remove_at i os\<rparr>) (fst r, NewBlocksLoop,
      l\<lparr>orphan_blocks := fst (snd r), new_blocks := snd (snd r), pos_n := n + 1, pos_i := i'\<rparr>)" by auto
  show ?case
    by (rule exI [of _ i'], rule runs_step, insert drop.prems drop.hyps, simp add: Let_def,
        rule runs_step) (use i' in simp)
next
  case (accept i nd os nb r e ok nd1)
  let ?b = "os ! i"
  let ?l = "l\<lparr>orphan_blocks := remove_at i os\<rparr>"
  let ?l1 = "if ok then ?l\<lparr>new_blocks := nb @ [hash_block X ?b]\<rparr> else ?l"
  from accept.IH [of ?l1] accept.prems obtain i' where
    i': "runs X (nd1, OrphanLoop, ?l1) (fst r, NewBlocksLoop,
      l\<lparr>orphan_blocks := fst (snd r), new_blocks := snd (snd r), pos_n := n + 1, pos_i := i'\<rparr>)"
    by (cases ok) auto
  have "runs X (nd, ReadState Released ?b, ?l) (nd1, OrphanLoop, ?l1)"
    using runs_accept [OF accept.hyps(5), of Released ?l] accept.prems by (cases ok) (simp_all add: after_check_def)
  from runs_trans [OF this i'] have run: "runs X (nd, ReadState Released ?b, ?l) (fst r, NewBlocksLoop,
      l\<lparr>orphan_blocks := fst (snd r), new_blocks := snd (snd r), pos_n := n + 1, pos_i := i'\<rparr>)" .
  show ?case
    by (rule exI [of _ i'], rule runs_step, insert accept.prems accept.hyps, simp add: Let_def,
        rule runs_step) (use run in simp)
qed

lemma runs_new_blocks:
  "new_blocks_loop X n nd os nb = Ret r \<Longrightarrow> pos_n l = n \<Longrightarrow> orphan_blocks l = os \<Longrightarrow> new_blocks l = nb \<Longrightarrow>
     \<exists>i'. runs X (nd, NewBlocksLoop, l) (fst (snd r), NextBlock,
       l\<lparr>orphan_blocks := fst (snd (snd r)), new_blocks := snd (snd (snd r)), pos_n := fst r, pos_i := i'\<rparr>)"
proof (induction X n nd os nb arbitrary: l rule: new_blocks_loop.induct)
  case (1 X n nd os nb)
  show ?case
  proof (cases "length nb \<le> n")
    case True
    with "1.prems" have r: "r = (n, nd, os, nb)" by (simp add: new_blocks_loop.simps)
    have same: "l\<lparr>orphan_blocks := os, new_blocks := nb, pos_n := n, pos_i := pos_i l\<rparr> = l"
      using "1.prems" by simp
    have "runs X (nd, NewBlocksLoop, l) (nd, NextBlock, l)"
      by (rule runs_step) (use True "1.prems" in \<open>simp add: runs_refl\<close>)
    then have "runs X (nd, NewBlocksLoop, l) (nd, NextBlock,
        l\<lparr>orphan_blocks := os, new_blocks := nb, pos_n := n, pos_i := pos_i l\<rparr>)" by (simp only: same)
    then show ?thesis unfolding r fst_conv snd_conv by blast
  next
    case False
    with "1.prems"(1) obtain r1 where
      u: "unorphan_loop X n 0 nd os nb = Ret r1" and
      rest: "new_blocks_loop X (n + 1) (fst r1) (fst (snd r1)) (snd (snd r1)) = Ret r"
      by (auto simp: new_blocks_loop.simps [of X n nd] res_simps)
    from runs_unorphan [OF u, of "l\<lparr>pos_i := 0\<rparr>"] "1.prems" obtain i1 where
      r1: "runs X (nd, OrphanLoop, l\<lparr>pos_i := 0\<rparr>) (fst r1, NewBlocksLoop,
        l\<lparr>orphan_blocks := fst (snd r1), new_blocks := snd (snd r1), pos_n := n + 1, pos_i := i1\<rparr>)" by auto
    from "1.IH" [OF False u rest, of "l\<lparr>orphan_blocks := fst (snd r1), new_blocks := snd (snd r1),
        pos_n := n + 1, pos_i := i1\<rparr>"] obtain i2 where
      "runs X (fst r1, NewBlocksLoop, l\<lparr>orphan_blocks := fst (snd r1), new_blocks := snd (snd r1),
          pos_n := n + 1, pos_i := i1\<rparr>) (fst (snd r), NextBlock,
       l\<lparr>orphan_blocks := fst (snd (snd r)), new_blocks := snd (snd (snd r)), pos_n := fst r, pos_i := i2\<rparr>)"
      by auto
    from runs_trans [OF r1 this] False "1.prems" show ?thesis
      by (intro exI [of _ i2] runs_step) simp
  qed
qed


text \<open>The variables of the thread that correspond to those of the one-step handler.\<close>

definition local_of :: "Block list \<Rightarrow> BlocksLoop \<Rightarrow> nat \<Rightarrow> Local" where
  "local_of bs s i =
     \<lparr>todo = bs, orphan_blocks = bl_orphans s, new_blocks = bl_new s, pos_n = bl_n s, pos_i = i,
      out_msgs = bl_out s\<rparr>"

lemma runs_process_block:
  assumes "process_block X b s = Ret s'"
  shows "\<exists>i'. runs X (bl_node s, NextBlock, local_of (b # bs) s i) (bl_node s', NextBlock, local_of bs s' i')"
  using assms
proof (cases rule: process_block_cases)
  case ignored
  show ?thesis
  proof (cases "hash_block X b \<le> difficulty (head b)")
    case True
    with ignored show ?thesis
      by (intro exI [of _ i] runs_step, simp add: local_of_def) (intro runs_step, auto simp: runs_refl)
  next
    case False
    with ignored show ?thesis
      by (intro exI [of _ i] runs_step) (simp add: local_of_def runs_refl)
  qed
next
  case orphaned
  then show ?thesis
    by (intro exI [of _ i] runs_step, simp add: local_of_def) (intro runs_step, simp, intro runs_step, simp add: runs_refl)
next
  case (wrong_difficulty pb pn n' nd' os' nb')
  let ?l = "local_of bs s i"
  from runs_new_blocks [OF wrong_difficulty(3), of ?l] obtain i' where
    "runs X (bl_node s, NewBlocksLoop, ?l) (nd', NextBlock,
       ?l\<lparr>orphan_blocks := os', new_blocks := nb', pos_n := n', pos_i := i'\<rparr>)" by (auto simp: local_of_def)
  with wrong_difficulty show ?thesis
    by (intro exI [of _ i'] runs_step, simp add: local_of_def)
      (intro runs_step, simp, intro runs_step, simp, intro runs_step, simp)
next
  case (checked pb pn ok nd1 n' nd' os' nb')
  let ?l = "local_of bs s i"
  let ?nb = "if ok then bl_new s @ [hash_block X b] else bl_new s"
  from runs_new_blocks [OF checked(6), of "?l\<lparr>new_blocks := ?nb\<rparr>"] obtain i' where
    loop: "runs X (nd1, NewBlocksLoop, ?l\<lparr>new_blocks := ?nb\<rparr>) (nd', NextBlock,
       ?l\<lparr>orphan_blocks := os', new_blocks := nb', pos_n := n', pos_i := i'\<rparr>)" by (auto simp: local_of_def)
  have "runs X (bl_node s, ReadState Received b, ?l) (nd1, NewBlocksLoop, ?l\<lparr>new_blocks := ?nb\<rparr>)"
    using runs_accept [OF checked(5), of Received ?l]
    by (cases ok) (simp_all add: after_check_def local_of_def)
  from runs_trans [OF this loop] checked show ?thesis
    by (intro exI [of _ i'] runs_step, simp add: local_of_def)
      (intro runs_step, simp, intro runs_step, simp, intro runs_step, simp)
qed

lemma runs_process_blocks:
  "process_blocks X bs s = Ret s' \<Longrightarrow>
     \<exists>i'. runs X (bl_node s, NextBlock, local_of bs s i) (bl_node s', NextBlock, local_of [] s' i')"
proof (induction bs arbitrary: s i)
  case Nil
  then show ?case by (intro exI [of _ i]) (simp add: runs_refl)
next
  case (Cons b bs)
  from Cons.prems obtain s1 where s1: "process_block X b s = Ret s1" "process_blocks X bs s1 = Ret s'"
    by (auto simp: res_simps)
  from runs_process_block [OF s1(1)] Cons.IH [OF s1(2)] show ?case by (meson runs_trans)
qed

definition fresh_local :: Local where
  "fresh_local = \<lparr>todo = [], orphan_blocks = [], new_blocks = [], pos_n = 0, pos_i = 0, out_msgs = []\<rparr>"

text \<open>What a thread starts with when a message with blocks, or a mined block, arrives.\<close>

definition deliver_blocks :: "Block list \<Rightarrow> Local \<Rightarrow> Position \<times> Local" where
  "deliver_blocks bs l = (NextBlock, l\<lparr>todo := bs, new_blocks := [], pos_n := 0, out_msgs := []\<rparr>)"

definition deliver_mined :: "Block \<Rightarrow> Local \<Rightarrow> Position \<times> Local" where
  "deliver_mined b l = (ReadState Mined b, l\<lparr>out_msgs := []\<rparr>)"

lemma runs_handle_Blocks:
  assumes "handle_Blocks X nd (orphan_blocks l) bs = Ret (nd', os', out)"
  shows "\<exists>l'. runs X (nd, deliver_blocks bs l) (nd', Idle, l') \<and> orphan_blocks l' = os' \<and> out_msgs l' = out"
proof -
  let ?s = "\<lparr>bl_node = nd, bl_orphans = orphan_blocks l, bl_new = [], bl_n = 0, bl_out = []\<rparr>"
  from assms obtain s where s: "process_blocks X bs ?s = Ret s" "nd' = bl_node s" "os' = bl_orphans s"
    "out = bl_out s @ (if 0 < length (bl_new s) then [Broadcast (NewBlockHashes (bl_new s))] else [])"
    by (auto simp: handle_Blocks_def res_simps)
  have "deliver_blocks bs l = (NextBlock, local_of bs ?s (pos_i l))"
    by (simp add: deliver_blocks_def local_of_def)
  with runs_process_blocks [OF s(1), of "pos_i l"] obtain i' where
    r: "runs X (nd, deliver_blocks bs l) (nd', NextBlock, local_of [] s i')" using s(2) by auto
  have "runs X (nd', NextBlock, local_of [] s i') (nd', Idle, (local_of [] s i')\<lparr>out_msgs := out\<rparr>)"
    by (rule runs_step) (simp add: local_of_def s(4) runs_refl)
  from runs_trans [OF r this] s(3) show ?thesis
    by (intro exI [of _ "(local_of [] s i')\<lparr>out_msgs := out\<rparr>"]) (simp add: local_of_def)
qed

lemma runs_miner_worker:
  assumes "miner_worker_step X nd b = Ret (nd', out)"
  shows "runs X (nd, deliver_mined b l) (nd', Idle, l\<lparr>out_msgs := out\<rparr>)"
proof -
  from assms obtain ok where a: "accept_block X nd b (hash_block X b) = Ret (ok, nd')"
    "out = (if ok then [Broadcast (NewBlockHashes [hash_block X b])] else [])"
    by (auto simp: miner_worker_step_accept res_simps)
  from runs_accept [OF a(1), of Mined "l\<lparr>out_msgs := []\<rparr>"] a(2) show ?thesis
    by (cases ok) (simp_all add: deliver_mined_def after_check_def)
qed

text \<open>A run that ends without a panic is a run with the locks, none of them poisoned.\<close>

definition locked_runs ::
  "Crates \<Rightarrow> Node \<times> Position \<times> Local \<Rightarrow> Node \<times> Position \<times> Local \<Rightarrow> bool" where
  "locked_runs X u v \<longleftrightarrow>
     (\<exists>k. ((\<lambda>(sh, t). lock_step X sh t) ^^ k) (\<lparr>sh_node = fst u, sh_poisoned = {}\<rparr>, snd u) =
        (\<lparr>sh_node = fst v, sh_poisoned = {}\<rparr>, snd v))"

lemma stopped_stays: "((\<lambda>(nd, t). block_lock_step X nd t) ^^ k) (nd, Stopped e, l) = (nd, Stopped e, l)"
  by (induction k) simp_all

lemma lock_step_clean:
  assumes "block_lock_step X nd t = (nd', t')" and "\<not> stopped (fst t')"
  shows "lock_step X \<lparr>sh_node = nd, sh_poisoned = {}\<rparr> t = (\<lparr>sh_node = nd', sh_poisoned = {}\<rparr>, t')"
  using assms by (auto simp: lock_step_def split: option.splits)

lemma runs_locked:
  assumes "runs X (nd, t) (nd', Idle, l')"
  shows "locked_runs X (nd, t) (nd', Idle, l')"
proof -
  let ?f = "\<lambda>(nd, t). block_lock_step X nd t" and ?g = "\<lambda>(sh, t). lock_step X sh t"
  have "(?f ^^ k) (nd, t) = (nd', Idle, l') \<Longrightarrow>
      (?g ^^ k) (\<lparr>sh_node = nd, sh_poisoned = {}\<rparr>, t) = (\<lparr>sh_node = nd', sh_poisoned = {}\<rparr>, Idle, l')" for k
  proof (induction k arbitrary: nd t)
    case (Suc k)
    obtain nd1 p1 l1 where s: "block_lock_step X nd t = (nd1, p1, l1)" by (metis surj_pair)
    with Suc.prems have r: "(?f ^^ k) (nd1, p1, l1) = (nd', Idle, l')"
      by (simp add: funpow_Suc_right del: funpow.simps)
    have "\<not> stopped p1" using r by (auto simp: stopped_def stopped_stays split: Position.splits)
    with s have "lock_step X \<lparr>sh_node = nd, sh_poisoned = {}\<rparr> t = (\<lparr>sh_node = nd1, sh_poisoned = {}\<rparr>, p1, l1)"
      by (intro lock_step_clean) simp_all
    with Suc.IH [OF r] show ?case by (simp add: funpow_Suc_right del: funpow.simps)
  qed simp
  with assms show ?thesis by (auto simp: runs_def locked_runs_def)
qed

text \<open>The readers on their own.\<close>

definition reads :: "Shared \<times> Reader \<Rightarrow> Shared \<times> Reader \<Rightarrow> bool" where
  "reads u v \<longleftrightarrow> (\<exists>k. ((\<lambda>(sh, r). reader_step sh r) ^^ k) u = v)"

lemma reads_refl: "reads u u"
  unfolding reads_def by (rule exI [of _ 0]) simp

lemma reads_step:
  assumes "reads (reader_step sh r) v"
  shows "reads (sh, r) v"
proof -
  from assms obtain k where "((\<lambda>(sh, r). reader_step sh r) ^^ k) (reader_step sh r) = v"
    by (auto simp: reads_def)
  then show ?thesis unfolding reads_def
    by (intro exI [of _ "Suc k"]) (simp add: funpow_Suc_right del: funpow.simps)
qed

lemma reads_walk:
  assumes "sh_poisoned sh = {}"
  shows "block_at_loop (blockchain (sh_node sh)) i n b h = Ret h' \<Longrightarrow> block_state (sh_node sh) h' = Some s \<Longrightarrow>
    reads (sh, ApiWalk i t b n h) (sh, ApiAnswer i t s)"
proof (induction "blockchain (sh_node sh)" i n b h rule: block_at_loop.induct)
  case (1 i n b h)
  show ?case
  proof (cases "i < n")
    case True
    with "1.prems"(1) obtain e where e: "blocks (blockchain (sh_node sh)) (parent (head b)) = Some e"
      "block_at_loop (blockchain (sh_node sh)) i (n - 1) (fst e) (parent (head b)) = Ret h'"
      by (auto simp: block_at_loop.simps [of _ i n] Let_def res_simps)
    have "reads (sh, ApiWalk i t (fst e) (n - 1) (parent (head b))) (sh, ApiAnswer i t s)"
      by (rule "1.hyps" [OF True refl _ e(2) "1.prems"(2)]) (simp add: e(1))
    then show ?thesis by (intro reads_step) (use True e assms in \<open>simp add: locked_read_def\<close>)
  next
    case False
    with "1.prems"(1) have h': "h' = h" by (simp add: block_at_loop.simps [of _ i n])
    have "reads (sh, ApiState i t h') (sh, ApiAnswer i t s)"
      by (rule reads_step) (use assms "1.prems"(2) in \<open>simp add: locked_read_def reads_refl\<close>)
    then show ?thesis by (intro reads_step) (use False h' in simp)
  qed
qed

lemma reads_state:
  assumes "api_state nd ord i = Ret r"
  shows "\<exists>s. reads (\<lparr>sh_node = nd, sh_poisoned = {}\<rparr>, ApiTip i)
      (\<lparr>sh_node = nd, sh_poisoned = {}\<rparr>, ApiAnswer i (tip (blockchain nd)) s) \<and> r = StateDump (state_rows (ord s))"
proof -
  let ?sh = "\<lparr>sh_node = nd, sh_poisoned = {}\<rparr>" and ?t = "tip (blockchain nd)"
  from assms obtain e h s where e: "blocks (blockchain nd) ?t = Some e"
    "block_at_loop (blockchain nd) i (snd e) (fst e) ?t = Ret h" "block_state nd h = Some s"
    "r = StateDump (state_rows (ord s))"
    by (auto simp: api_state_def Let_def Blockchain_tip_def res_simps)
  have "reads (?sh, ApiWalk i ?t (fst e) (snd e) ?t) (?sh, ApiAnswer i ?t s)"
    by (rule reads_walk) (use e in simp_all)
  then have "reads (?sh, ApiBlock i ?t) (?sh, ApiAnswer i ?t s)"
    by (intro reads_step) (use e(1) in \<open>simp add: locked_read_def\<close>)
  then have "reads (?sh, ApiTip i) (?sh, ApiAnswer i ?t s)"
    by (intro reads_step) (simp add: locked_read_def Blockchain_tip_def)
  with e(4) show ?thesis by blast
qed

lemma reads_refresh:
  assumes "refresh nd g = Ret g1"
  shows "reads (\<lparr>sh_node = nd, sh_poisoned = {}\<rparr>, GenHas (prev_tip g) (local_state g))
    (\<lparr>sh_node = nd, sh_poisoned = {}\<rparr>, GenHas (prev_tip g1) (local_state g1))"
proof (cases "prev_tip g = tip (blockchain nd)")
  case True
  with assms have "g1 = g" by (simp add: refresh_def Let_def Blockchain_tip_def)
  then show ?thesis using reads_refl by simp
next
  case False
  with assms obtain s where s: "block_state nd (tip (blockchain nd)) = Some s"
    "g1 = g\<lparr>local_state := s, prev_tip := tip (blockchain nd)\<rparr>"
    by (auto simp: refresh_def Let_def Blockchain_tip_def res_simps)
  show ?thesis
    by (rule reads_step, use False s in \<open>simp add: locked_read_def Blockchain_tip_def\<close>)
      (rule reads_step, simp add: locked_read_def reads_refl s)
qed

section \<open>Properties\<close>

text \<open>
  C14: Lock by lock and undisturbed, the threads compute what the one-step definitions
  compute: the \<open>Blocks\<close> arm and the miner's worker the same node, orphan buffer and
  messages, the interface's query the same state, the generator the same tip and state.
\<close>

theorem locks_refine_handlers:
  "(\<forall>l bs nd' os' out. handle_Blocks X nd (orphan_blocks l) bs = Ret (nd', os', out) \<longrightarrow>
      (\<exists>l'. locked_runs X (nd, deliver_blocks bs l) (nd', Idle, l') \<and> orphan_blocks l' = os' \<and> out_msgs l' = out)) \<and>
   (\<forall>l b nd' out. miner_worker_step X nd b = Ret (nd', out) \<longrightarrow>
      locked_runs X (nd, deliver_mined b l) (nd', Idle, l\<lparr>out_msgs := out\<rparr>)) \<and>
   (\<forall>ord i r. api_state nd ord i = Ret r \<longrightarrow>
      (\<exists>s. reads (\<lparr>sh_node = nd, sh_poisoned = {}\<rparr>, ApiTip i)
             (\<lparr>sh_node = nd, sh_poisoned = {}\<rparr>, ApiAnswer i (tip (blockchain nd)) s) \<and>
           r = StateDump (state_rows (ord s)))) \<and>
   (\<forall>g g1. refresh nd g = Ret g1 \<longrightarrow>
      reads (\<lparr>sh_node = nd, sh_poisoned = {}\<rparr>, GenHas (prev_tip g) (local_state g))
        (\<lparr>sh_node = nd, sh_poisoned = {}\<rparr>, GenHas (prev_tip g1) (local_state g1)))"
proof (intro conjI allI impI)
  fix l :: Local and bs nd' os' out assume "handle_Blocks X nd (orphan_blocks l) bs = Ret (nd', os', out)"
  from runs_handle_Blocks [OF this] show "\<exists>l'. locked_runs X (nd, deliver_blocks bs l) (nd', Idle, l') \<and>
      orphan_blocks l' = os' \<and> out_msgs l' = out"
    using runs_locked by blast
qed (rule runs_locked, erule runs_miner_worker, erule reads_state, erule reads_refresh)

theorem locks_refine_handlers_witness:
  "\<exists>nd' l'. locked_runs (demo_crates False) (init_node (demo_crates False), deliver_blocks [demo_b1] fresh_local) (nd', Idle, l') \<and>
     blocks (blockchain nd') (pad32 [0, 2, 1]) \<noteq> None"
proof -
  let ?X = "demo_crates False"
  obtain nd' os' out n where m: "handle_message ?X (init_node ?X) [] (Blocks [demo_b1]) = Ret (nd', os', out)"
    "blocks (blockchain nd') (pad32 [0, 2, 1]) = Some (demo_b1, n)" by (rule demo_b1_received)
  then have "handle_Blocks ?X (init_node ?X) (orphan_blocks fresh_local) [demo_b1] = Ret (nd', os', out)"
    by (simp add: fresh_local_def)
  with conjunct1 [OF locks_refine_handlers [of ?X "init_node ?X"]] obtain l' where
    "locked_runs ?X (init_node ?X, deliver_blocks [demo_b1] fresh_local) (nd', Idle, l')" by blast
  with m(2) show ?thesis by auto
qed

end
