(* ===== verification/System.thy ===== *)
theory System
  imports MinerWorker TxGenerator
begin

text \<open>
  The threads of a node over their shared state: the network workers with their own orphan
  buffers, the miner, the miner's worker behind its channel, and the generator
  (\<open>src/src/main.rs\<close>). A step is one turn of one thread; any interleaving of turns is a
  run. The invariants hold in every reachable state, for every set of blocks on which the
  block hash has no collision.
\<close>

section \<open>The ledger invariant\<close>

text \<open>
  The blocks a node ever handles form a set \<open>U\<close>. \<open>hashes_sound\<close> is about their headers only, for
  the block hash covers nothing else: no two headers in \<open>U\<close> have the same hash, none has
  the all-zero hash, and there are too few of them to exhaust the heights. Blocks with the
  same header and different transactions have the same hash; \<open>one_content\<close> says that \<open>U\<close>
  has no such blocks. It is no law of the hash, and the code does nothing to ensure it.
\<close>

definition hashes_sound :: "Crates \<Rightarrow> Block set \<Rightarrow> bool" where
  "hashes_sound X U \<longleftrightarrow> genesis \<in> U \<and> headers_sound X (head ` U)"

definition one_content :: "Block set \<Rightarrow> bool" where
  "one_content U \<longleftrightarrow> inj_on head U"

definition universe_sound :: "Crates \<Rightarrow> Block set \<Rightarrow> bool" where
  "universe_sound X U \<longleftrightarrow> hashes_sound X U \<and> one_content U"

lemma universe_hashes: "universe_sound X U \<Longrightarrow> hashes_sound X U"
  by (simp add: universe_sound_def)

lemma universe_headers: "universe_sound X U \<Longrightarrow> headers_sound X (head ` U)"
  by (simp add: universe_sound_def hashes_sound_def)

lemma universe_genesis: "universe_sound X U \<Longrightarrow> genesis \<in> U"
  by (simp add: universe_sound_def hashes_sound_def)

lemma same_header: "hashes_sound X U \<Longrightarrow> b \<in> U \<Longrightarrow> b' \<in> U \<Longrightarrow> hash_block X b = hash_block X b' \<Longrightarrow> head b = head b'"
  by (auto simp: hashes_sound_def headers_sound_def hash_block_def dest!: inj_onD)

lemma no_zero_hash: "hashes_sound X U \<Longrightarrow> b \<in> U \<Longrightarrow> hash_block X b \<noteq> h256_fill 0"
  by (auto simp: hashes_sound_def headers_sound_def hash_block_def)

lemma same_hash: "universe_sound X U \<Longrightarrow> b \<in> U \<Longrightarrow> b' \<in> U \<Longrightarrow> hash_block X b = hash_block X b' \<Longrightarrow> b = b'"
  using same_header [of X U b b'] by (auto simp: universe_sound_def one_content_def dest: inj_onD)

text \<open>Together the two say that whole blocks have different hashes.\<close>

lemma universe_sound_iff:
  "universe_sound X U \<longleftrightarrow> genesis \<in> U \<and> inj_on (hash_block X) U \<and>
     (\<forall>b\<in>U. hash_block X b \<noteq> h256_fill 0) \<and> finite U \<and> card U < 2 ^ 32"
proof
  assume u: "universe_sound X U"
  then have "inj_on head U" "headers_sound X (head ` U)" by (simp_all add: universe_sound_def one_content_def universe_headers)
  then have "finite U \<and> card U < 2 ^ 32" by (auto simp: headers_sound_def card_image finite_image_iff)
  with u show "genesis \<in> U \<and> inj_on (hash_block X) U \<and> (\<forall>b\<in>U. hash_block X b \<noteq> h256_fill 0) \<and> finite U \<and> card U < 2 ^ 32"
    using same_hash [OF u] no_zero_hash [OF universe_hashes [OF u]] universe_genesis [OF u] by (auto simp: inj_on_def)
next
  assume u: "genesis \<in> U \<and> inj_on (hash_block X) U \<and> (\<forall>b\<in>U. hash_block X b \<noteq> h256_fill 0) \<and> finite U \<and> card U < 2 ^ 32"
  then have "card (head ` U) < 2 ^ 32" using card_image_le [of U head] by auto
  with u show "universe_sound X U"
    by (auto simp: universe_sound_def hashes_sound_def headers_sound_def one_content_def hash_block_def inj_on_def)
qed

lemma demo_pair_universe:
  assumes "hash_block (demo_crates chk) b = pad32 [0, 2, 1]"
  shows "universe_sound (demo_crates chk) {genesis, b}"
proof -
  have "genesis \<noteq> b" using assms by auto
  moreover have "pad32 [0, a, b] \<noteq> h256_fill 0" if "a \<noteq> 0" for a b
    using that by (auto dest!: arg_cong [where f = "\<lambda>h. h256_bytes h ! 1"])
  ultimately show ?thesis using assms by (auto simp: universe_sound_iff)
qed

lemma demo_universe: "universe_sound (demo_crates chk) {genesis, demo_block 1 (pad32 [0, 1, 0]) txs}"
  by (rule demo_pair_universe) simp

definition blocks_in :: "Block set \<Rightarrow> Blockchain \<Rightarrow> bool" where
  "blocks_in U c \<longleftrightarrow> (\<forall>h b n. blocks c h = Some (b, n) \<longrightarrow> b \<in> U)"

lemma blocks_in_headers: "blocks_in U c \<Longrightarrow> headers_in (head ` U) c"
  by (auto simp: blocks_in_def headers_in_def)

text \<open>The recorded state of a block is its parent's after its transactions.\<close>

definition state_step :: "Crates \<Rightarrow> State \<Rightarrow> Node \<Rightarrow> H256 \<Rightarrow> Block \<Rightarrow> u32 \<Rightarrow> bool" where
  "state_step X s0 nd h b n \<longleftrightarrow>
     (if n = 0 then block_state nd h = Some s0
      else \<exists>sp s. block_state nd (parent (head b)) = Some sp \<and>
             check_txs X sp (st (cont b)) = Ret (Some s) \<and> block_state nd h = Some s)"

definition ledger_inv :: "Crates \<Rightarrow> State \<Rightarrow> Node \<Rightarrow> bool" where
  "ledger_inv X s0 nd \<longleftrightarrow>
     (\<forall>h b n. blocks (blockchain nd) h = Some (b, n) \<longrightarrow> state_step X s0 nd h b n)"

definition node_ok :: "Crates \<Rightarrow> Block set \<Rightarrow> State \<Rightarrow> Node \<Rightarrow> bool" where
  "node_ok X U s0 nd \<longleftrightarrow> chain_inv X (blockchain nd) \<and> blocks_in U (blockchain nd) \<and>
     ledger_inv X s0 nd \<and> pow_inv X (blockchain nd)"

lemma node_ok_safe: "node_ok X U s0 nd \<Longrightarrow> node_safe nd"
  unfolding node_safe_iff node_ok_def chain_inv_def tip_inv_def ledger_inv_def state_step_def
  by (metis not_Some_eq option.distinct(1) surj_pair)

lemma node_ok_mempool [simp]: "node_ok X U s0 (nd\<lparr>mempool := mp\<rparr>) \<longleftrightarrow> node_ok X U s0 nd"
  by (simp add: node_ok_def ledger_inv_def state_step_def)

lemma node_ok_init:
  "universe_sound X U \<Longrightarrow> node_ok X U (State_new X (all_public_keys ! 0)) (init_node X)"
  using pow_inv_new [of X] chain_inv_new [of X]
  universe_genesis [of X U]
  by (auto simp: node_ok_def blocks_in_def ledger_inv_def state_step_def Blockchain_new_def Let_def)

text \<open>
  Accepting a block again, or another block of the same hash, changes no recorded state of
  a known block; so the ledger invariant survives an insertion.
\<close>

lemma known_state_same:
  assumes ok: "node_ok X U s0 nd" and sound: "universe_sound X U" and b: "b \<in> U"
    and ins: "insertable X (blockchain nd) b" and p: "block_state nd (parent (head b)) = Some s"
    and s': "check_txs X s (st (cont b)) = Ret (Some s')" and e: "blocks (blockchain nd) h = Some e1"
  shows "((block_state nd)(hash_block X b \<mapsto> s')) h = block_state nd h"
proof (cases "h = hash_block X b")
  case True
  have tree: "tree_inv X (blocks (blockchain nd))" using ok by (simp add: node_ok_def chain_inv_def)
  obtain b1 n1 where e1: "blocks (blockchain nd) (hash_block X b) = Some (b1, n1)"
    using True e by (cases e1) auto
  have "b1 = b"
    using tree_inv_hash [OF tree e1] ok e1 b sound
    by (auto simp: node_ok_def blocks_in_def universe_sound_iff dest: inj_onD)
  moreover have "n1 \<noteq> 0" using tree_inv_root [OF tree] e1 ins by (auto simp: insertable_def)
  moreover have "state_step X s0 nd (hash_block X b) b1 n1"
    using ok e1 by (simp add: node_ok_def ledger_inv_def)
  ultimately show ?thesis using True p s' by (simp add: state_step_def)
qed simp

lemma ledger_inv_accept:
  assumes ok: "node_ok X U s0 nd" and sound: "universe_sound X U" and b: "b \<in> U"
    and ins: "insertable X (blockchain nd) b" and p: "blocks (blockchain nd) (parent (head b)) = Some pe"
    and s: "block_state nd (parent (head b)) = Some s" "check_txs X s (st (cont b)) = Ret (Some s')"
    and nd': "block_state nd' = (block_state nd)(hash_block X b \<mapsto> s')"
      "blocks (blockchain nd') = (blocks (blockchain nd))(hash_block X b \<mapsto> (b, n))" and n0: "n \<noteq> 0"
  shows "ledger_inv X s0 nd'"
  unfolding ledger_inv_def
proof (intro allI impI)
  fix h b1 n1 assume l: "blocks (blockchain nd') h = Some (b1, n1)"
  note same = known_state_same [OF ok sound b ins s, folded nd'(1)]
  show "state_step X s0 nd' h b1 n1"
  proof (cases "h = hash_block X b")
    case True
    with l n0 same [OF p] s nd' show ?thesis by (simp add: state_step_def)
  next
    case False
    with l nd'(2) have e1: "blocks (blockchain nd) h = Some (b1, n1)" by simp
    with ok have old: "state_step X s0 nd h b1 n1" by (simp add: node_ok_def ledger_inv_def)
    show ?thesis
    proof (cases "n1 = 0")
      case True
      with old same [OF e1] show ?thesis by (simp add: state_step_def)
    next
      case False
      have "tree_inv X (blocks (blockchain nd))" using ok by (simp add: node_ok_def chain_inv_def)
      from tree_inv_parent [OF this e1 False] obtain e2 where
        "blocks (blockchain nd) (parent (head b1)) = Some e2" by blast
      from same [OF this] same [OF e1] old False show ?thesis by (simp add: state_step_def)
    qed
  qed
qed

lemma node_ok_accept:
  assumes ok: "node_ok X U s0 nd" and sound: "universe_sound X U" and b: "b \<in> U"
    and pow: "hash_block X b \<le> difficulty (head b)"
    and p: "blocks (blockchain nd) (parent (head b)) = Some (pb, pn)"
    and d: "difficulty (head b) = difficulty (head pb)"
    and acc: "accept_block X nd b (hash_block X b) = Ret (True, nd')"
  shows "node_ok X U s0 nd'"
proof -
  let ?h = "hash_block X b" and ?c = "blockchain nd"
  have inv: "chain_inv X ?c" and bin: "blocks_in U ?c" and pw: "pow_inv X ?c"
    using ok by (simp_all add: node_ok_def)
  note hs = universe_headers [OF sound] and hin = blocks_in_headers [OF bin]
  have ins: "insertable X ?c b" and room: "height_room X ?c"
    using insertable_header [OF inv hs hin _ p] tree_inv_room [OF inv hs hin] b by auto
  obtain c s s' where c: "Blockchain_insert X ?c b = Ret c" "block_state nd (parent (head b)) = Some s"
    "check_txs X s (st (cont b)) = Ret (Some s')"
    "nd' = nd\<lparr>block_state := (block_state nd)(?h \<mapsto> s'), blockchain := c\<rparr>"
    by (rule accept_block_accepted [OF acc])
  obtain pb' pn' tb tn n where e: "blocks ?c (parent (head b)) = Some (pb', pn')"
    "unat n = Suc (unat pn')" "blocks c = (blocks ?c)(?h \<mapsto> (b, n))"
    using Blockchain_insert_Ret [OF c(1) room] .
  have "n \<noteq> 0" using e(2) by auto
  then have "ledger_inv X s0 nd'"
    using ledger_inv_accept [OF ok sound b ins p c(2,3), of nd' n] c(4) e(3) by simp
  moreover have "blocks_in U (blockchain nd')" using bin b e(3) c(4) by (auto simp: blocks_in_def)
  moreover have "chain_inv X (blockchain nd')" using chain_inv_insert [OF inv c(1) ins room] c(4) by simp
  moreover have "pow_inv X (blockchain nd')" by (rule pow_inv_accept [OF pw pow p d acc])
  ultimately show ?thesis by (simp add: node_ok_def)
qed

definition worker_ok :: "Crates \<Rightarrow> Block set \<Rightarrow> Block list \<Rightarrow> bool" where
  "worker_ok X U os \<longleftrightarrow> set os \<subseteq> U \<and> orphans_pow X os"

lemma block_step_ok:
  assumes step: "block_step X B u v" and sound: "universe_sound X U" and B: "B \<subseteq> U"
    and ok: "node_ok X U s0 (fst u)" and os: "worker_ok X U (fst (snd u))"
  shows "node_ok X U s0 (fst v) \<and> worker_ok X U (fst (snd v))"
proof -
  have "node_ok X U s0 (fst v) \<and> set (fst (snd v)) \<subseteq> U"
    using step
  proof cases
    case (new_accept b nd pb pn nd' os nb)
    with node_ok_accept [OF _ sound _ new_accept(4,6,7,8)] assms show ?thesis
      by (auto simp: worker_ok_def)
  next
    case (new_reject nd b pb pn nd' os nb)
    with assms show ?thesis by (auto dest: accept_block_rejected simp: worker_ok_def)
  next
    case (orphan_push b nd os nb)
    with assms show ?thesis by (auto simp: worker_ok_def)
  next
    case (orphan_drop i os nd pb pn nb)
    with assms set_remove_at [of i os] show ?thesis by (auto simp: worker_ok_def)
  next
    case (orphan_accept i os nd pb pn nd' nb)
    have "os ! i \<in> U" "hash_block X (os ! i) \<le> difficulty (head (os ! i))"
      using assms(5) nth_mem [OF orphan_accept(3)] orphan_accept(1)
      unfolding worker_ok_def orphans_pow_def by auto
    from node_ok_accept [OF _ sound this orphan_accept(4-6)] assms(4,5) orphan_accept(1,2)
      set_remove_at [of i os] show ?thesis by (auto simp: worker_ok_def)
  next
    case (orphan_reject i os nd pb pn nd' nb)
    with assms set_remove_at [of i os] show ?thesis
      by (auto dest!: accept_block_rejected simp: worker_ok_def)
  qed
  with block_step_pow [OF step] ok os show ?thesis by (simp add: worker_ok_def node_ok_def)
qed

lemma block_steps_ok:
  "block_steps X B u v \<Longrightarrow> universe_sound X U \<Longrightarrow> B \<subseteq> U \<Longrightarrow> node_ok X U s0 (fst u) \<Longrightarrow>
     worker_ok X U (fst (snd u)) \<Longrightarrow> node_ok X U s0 (fst v) \<and> worker_ok X U (fst (snd v))"
  by (induction rule: rtranclp_induct) (auto dest: block_step_ok)

section \<open>The mempool\<close>

text \<open>Every pooled transaction is stored under its hash and carries a valid signature.\<close>

definition mempool_ok :: "Crates \<Rightarrow> Mempool \<Rightarrow> bool" where
  "mempool_ok X mp \<longleftrightarrow>
     (\<forall>h t. trans mp h = Some t \<longrightarrow> hash_stx X t = h \<and> signature_ok X t)"

lemma mempool_ok_keyed: "mempool_ok X mp \<Longrightarrow> mempool_keyed X mp"
  by (simp add: mempool_ok_def mempool_keyed_def)

lemma process_transactions_ok:
  "process_transactions X mp ts new = (mp', new') \<Longrightarrow> mempool_ok X mp \<Longrightarrow> mempool_ok X mp'"
proof (induction ts arbitrary: mp new)
  case (Cons t ts)
  have "mempool_ok X (mp\<lparr>trans := (trans mp)(hash_stx X t \<mapsto> t)\<rparr>)" if "signature_ok X t"
    using that Cons.prems(2) by (auto simp: mempool_ok_def)
  with Cons show ?case by (auto simp: signature_ok_def Let_def split: if_splits)
qed simp

lemma handle_message_mempool:
  assumes "handle_message X nd os msg = Ret (nd', os', out)" and "mempool_ok X (mempool nd)"
  shows "mempool_ok X (mempool nd')"
proof (cases "\<exists>ts. msg = Transactions ts")
  case True
  with assms show ?thesis
    by (auto simp: handle_Transactions_def split: prod.splits) (erule (1) process_transactions_ok)
next
  case False
  show ?thesis
  proof (cases "\<exists>bs. msg = Blocks bs")
    case True
    then obtain bs where "handle_Blocks X nd os bs = Ret (nd', os', out)" using assms(1) by auto
    then obtain nb where "block_steps X (set bs) (nd, os, []) (nd', os', nb)"
      by (rule handle_Blocks_steps)
    from block_steps_mempool [OF this] assms(2) show ?thesis by simp
  next
    case no_blocks: False
    with False assms show ?thesis by (cases msg) auto
  qed
qed

lemma generate_once_frame:
  assumes "generate_once X nd g inp = Ret (nd', g', out)"
  shows "own_key g' = own_key g \<and> addr g' = addr g \<and> nd' = nd\<lparr>mempool := mempool nd'\<rparr>"
proof -
  from assms obtain g1 where r: "refresh nd g = Ret g1"
    by (auto simp: generate_once_def res_simps)
  from r show ?thesis
    by (cases rule: generate_once_cases [where X = X and inp = inp])
      (use assms refresh_fields [OF r] in simp_all)
qed

lemma generate_once_mempool:
  assumes "generate_once X nd g inp = Ret (nd', g', out)" and "signs X (own_key g)"
    and "mempool_ok X (mempool nd)"
  shows "mempool_ok X (mempool nd')"
proof -
  from assms(1) obtain g1 where r: "refresh nd g = Ret g1"
    by (auto simp: generate_once_def res_simps)
  have k: "own_key g1 = own_key g" using refresh_fields [OF r] by simp
  from r show ?thesis
  proof (cases rule: generate_once_cases [where X = X and inp = inp])
    case (poor b)
    with assms show ?thesis by simp
  next
    case (pays h kx v t)
    have "signature_ok X (payment X g1 t)" using assms(2) k by simp
    with pays(6) assms show ?thesis by (auto simp: mempool_ok_def)
  qed
qed

lemma generator_turn_mempool:
  assumes "generator_turn X nd g inp = Ret (nd', g', out)" and "signs X (own_key g)"
    and "mempool_ok X (mempool nd)"
  shows "mempool_ok X (mempool nd')"
  using assms generate_once_mempool [of X nd "g\<lparr>operating_state := _\<rparr>" inp nd' g' out]
    generate_once_mempool [of X nd g inp nd' g' out]
  by (auto simp: generator_turn_def Let_def split: TxGenerator.OperatingState.splits received.splits if_splits)

lemma generator_turn_frame:
  assumes "generator_turn X nd g inp = Ret (nd', g', out)"
  shows "own_key g' = own_key g \<and> addr g' = addr g \<and> nd' = nd\<lparr>mempool := mempool nd'\<rparr>"
  using assms generate_once_frame [of X nd "g\<lparr>operating_state := _\<rparr>" inp nd' g' out]
    generate_once_frame [of X nd g inp nd' g' out]
  by (auto simp: generator_turn_def Let_def split: TxGenerator.OperatingState.splits received.splits if_splits)

lemma generator_turn_total:
  assumes "node_safe nd" and "gen_signal inp \<noteq> Disconnected"
  shows "\<exists>r. generator_turn X nd g inp = Ret r"
proof -
  have once: "\<exists>r. generate_once X nd g' inp = Ret r" for g'
  proof -
    obtain g1 where r: "refresh nd g' = Ret g1" using refresh_total [OF assms(1)] by blast
    then show ?thesis by (cases rule: generate_once_cases [where X = X and inp = inp]) auto
  qed
  with assms(2) show ?thesis
    by (auto simp: generator_turn_def Let_def split: TxGenerator.OperatingState.splits received.splits)
qed

lemma miner_turn_mempool:
  assumes "miner_turn X nd m inp = Some (Ret (nd', m', sent))" and "mempool_ok X (mempool nd)"
  shows "mempool_ok X (mempool nd')"
proof (cases rule: miner_turn_cases [of X nd m inp])
  case (idle r)
  with assms show ?thesis by auto
next
  case (work os i)
  with assms show ?thesis
    by (auto simp: mine_once_eq Let_def res_simps mempool_ok_def trans_remove_mined
        split: option.splits if_splits)
qed

section \<open>Threads and their interleaving\<close>

record Sys =
  node :: Node
  orphan_bufs :: "nat \<Rightarrow> Block list"
  finished :: "Block list"
  miner :: Miner
  generator :: Generator

text \<open>
  The start of \<open>main\<close> for the node with a given key index: everything empty, the miner
  and the generator paused.
\<close>

definition sys_start :: "Crates \<Rightarrow> nat \<Rightarrow> Sys res" where
  "sys_start X key_index =
     bind_res (TxGenerator_new X key_index) (\<lambda>g0.
     bind_res (generator_start (init_node X) g0) (\<lambda>g.
       Ret \<lparr>node = init_node X, orphan_bufs = (\<lambda>_. []), finished = [], miner = Miner_new, generator = g\<rparr>))"

fun message_blocks :: "Message \<Rightarrow> Block list" where
  "message_blocks (Blocks bs) = bs"
| "message_blocks _ = []"

text \<open>
  One turn of one thread. Blocks of messages and mined blocks come from \<open>U\<close>; the miner
  enumerates the mempool in some order.
\<close>

inductive sys_step :: "Crates \<Rightarrow> Block set \<Rightarrow> Sys \<Rightarrow> action list \<Rightarrow> Sys \<Rightarrow> bool" for X U where
  net_worker: "handle_message X (node s) (orphan_bufs s k) msg = Ret (nd', os', out) \<Longrightarrow>
     set (message_blocks msg) \<subseteq> U \<Longrightarrow>
     sys_step X U s out (s\<lparr>node := nd', orphan_bufs := (orphan_bufs s)(k := os')\<rparr>)"
| mine: "miner_turn X (node s) (miner s) inp = Some (Ret (nd', m', sent)) \<Longrightarrow>
     enumerates (order inp) (trans (mempool (node s))) \<Longrightarrow> set_option sent \<subseteq> U \<Longrightarrow>
     sys_step X U s [] (s\<lparr>node := nd', miner := m',
       finished := finished s @ (case sent of None \<Rightarrow> [] | Some b \<Rightarrow> [b])\<rparr>)"
| insert_mined: "finished s = b # bs \<Longrightarrow> miner_worker_step X (node s) b = Ret (nd', out) \<Longrightarrow>
     sys_step X U s out (s\<lparr>node := nd', finished := bs\<rparr>)"
| generate: "generator_turn X (node s) (generator s) ginp = Ret (nd', g', out) \<Longrightarrow>
     sys_step X U s out (s\<lparr>node := nd', generator := g'\<rparr>)"

inductive sys_reach :: "Crates \<Rightarrow> Block set \<Rightarrow> nat \<Rightarrow> Sys \<Rightarrow> bool" for X U i where
  sys_init: "sys_start X i = Ret s \<Longrightarrow> sys_reach X U i s"
| sys_turn: "sys_reach X U i s \<Longrightarrow> sys_step X U s out s' \<Longrightarrow> sys_reach X U i s'"

text \<open>A block on its way from the miner to the worker extends a known block.\<close>

definition mined_ok :: "Crates \<Rightarrow> Block set \<Rightarrow> Blockchain \<Rightarrow> Block \<Rightarrow> bool" where
  "mined_ok X U c b \<longleftrightarrow> b \<in> U \<and> hash_block X b \<le> difficulty (head b) \<and>
     difficulty (head b) = genesis_difficulty \<and> blocks c (parent (head b)) \<noteq> None"

definition sys_ok :: "Crates \<Rightarrow> Block set \<Rightarrow> Sys \<Rightarrow> bool" where
  "sys_ok X U s \<longleftrightarrow> node_ok X U (State_new X (all_public_keys ! 0)) (node s) \<and>
     (\<forall>k. worker_ok X U (orphan_bufs s k)) \<and>
     (\<forall>b\<in>set (finished s). mined_ok X U (blockchain (node s)) b)"

lemma handle_message_ok:
  assumes "handle_message X nd os msg = Ret (nd', os', out)" and "universe_sound X U"
    and "set (message_blocks msg) \<subseteq> U" and "node_ok X U s0 nd" and "worker_ok X U os"
  shows "node_ok X U s0 nd' \<and> worker_ok X U os' \<and>
    (\<forall>h. blocks (blockchain nd) h \<noteq> None \<longrightarrow> blocks (blockchain nd') h \<noteq> None)"
  using assms(1)
proof (cases rule: handle_message_cases)
  case (blocks bs nb)
  from block_steps_ok [OF blocks(2) assms(2)] block_steps_grows [OF blocks(2)] assms(3-5) blocks(1)
  show ?thesis by auto
next
  case (transactions mp)
  with assms(4,5) show ?thesis by simp
qed

lemma miner_worker_step_ok:
  assumes st: "miner_worker_step X nd b = Ret (nd', out)" and "universe_sound X U"
    and ok: "node_ok X U s0 nd" and b: "mined_ok X U (blockchain nd) b"
  shows "node_ok X U s0 nd' \<and> (\<forall>h. blocks (blockchain nd) h \<noteq> None \<longrightarrow> blocks (blockchain nd') h \<noteq> None)"
proof -
  from st obtain acc where a: "accept_block X nd b (hash_block X b) = Ret (acc, nd')"
    by (auto simp: miner_worker_step_accept res_simps)
  from b obtain pb pn where p: "blocks (blockchain nd) (parent (head b)) = Some (pb, pn)"
    by (auto simp: mined_ok_def)
  have d: "difficulty (head b) = difficulty (head pb)"
    using ok b p unfolding node_ok_def pow_inv_def mined_ok_def by metis
  have "node_ok X U s0 nd'"
  proof (cases acc)
    case True
    have "b \<in> U" "hash_block X b \<le> difficulty (head b)" using b unfolding mined_ok_def by blast+
    from node_ok_accept [OF ok assms(2) this p d] a True show ?thesis by simp
  next
    case False
    with accept_block_rejected [of X nd b "hash_block X b" nd'] a ok show ?thesis by simp
  qed
  with accept_block_Ret(2) [OF a] show ?thesis by simp
qed

lemma sys_start_ok: "sys_start X i = Ret s \<Longrightarrow> universe_sound X U \<Longrightarrow> sys_ok X U s"
  by (auto simp: sys_start_def res_simps sys_ok_def node_ok_init worker_ok_def orphans_pow_def)

lemma sys_step_ok:
  assumes "sys_step X U s out s'" and sound: "universe_sound X U" and ok: "sys_ok X U s"
    and pool: "mempool_ok X (mempool (node s))" and sg: "signs X (own_key (generator s))"
  shows "sys_ok X U s' \<and> mempool_ok X (mempool (node s')) \<and> own_key (generator s') = own_key (generator s)"
  using assms(1)
proof cases
  case (net_worker k msg nd' os')
  from handle_message_ok [OF net_worker(2) sound net_worker(3)] ok
    handle_message_mempool [OF net_worker(2) pool] net_worker(1)
  show ?thesis unfolding sys_ok_def mined_ok_def by auto
next
  case (mine inp nd' m' sent)
  note mp = miner_turn_mempool [OF mine(3) pool]
  note nd' = miner_turn_frame [OF mine(3)]
  have ok': "node_ok X U (State_new X (all_public_keys ! 0)) nd'" using ok nd'
    by (metis node_ok_mempool sys_ok_def)
  have chain: "blockchain nd' = blockchain (node s)" using nd' by (metis Node.select_convs(1) Node.surjective Node.update_convs(2))
  have "mined_ok X U (blockchain nd') b" if "sent = Some b" for b
  proof -
    have t: "miner_turn X (node s) (miner s) inp = Some (Ret (nd', m', Some b))" using mine(3) that by simp
    obtain t n where "blocks (blockchain (node s)) (tip (blockchain (node s))) = Some (t, n)"
      using ok by (auto simp: sys_ok_def node_ok_def chain_inv_def tip_inv_def)
    with miner_turn_mined [OF t] mine(5) that chain show ?thesis by (simp add: mined_ok_def)
  qed
  with ok ok' mine(1,2) mp chain show ?thesis
    unfolding sys_ok_def by (auto split: option.splits)
next
  case (insert_mined b bs nd')
  have b: "mined_ok X U (blockchain (node s)) b" using ok insert_mined(2) by (simp add: sys_ok_def)
  have "node_ok X U (State_new X (all_public_keys ! 0)) (node s)" using ok by (simp add: sys_ok_def)
  note st = miner_worker_step_ok [OF insert_mined(3) sound this b]
  have "mempool nd' = mempool (node s)"
    using insert_mined(3) accept_block_Ret(3) by (auto simp: miner_worker_step_accept res_simps)
  with st ok pool insert_mined(1,2) show ?thesis
    unfolding sys_ok_def mined_ok_def by auto
next
  case (generate ginp nd' g')
  note mp = generator_turn_mempool [OF generate(2) sg pool] generator_turn_frame [OF generate(2)]
  then have nd': "nd' = (node s)\<lparr>mempool := mempool nd'\<rparr>" by simp
  have ok': "node_ok X U (State_new X (all_public_keys ! 0)) nd'" using ok nd'
    by (metis node_ok_mempool sys_ok_def)
  have "blockchain nd' = blockchain (node s)" using nd' by (metis Node.select_convs(1) Node.surjective Node.update_convs(2))
  with ok ok' mp generate(1) show ?thesis unfolding sys_ok_def by auto
qed

text \<open>What excludes panics needs no assumption about hashes or signatures.\<close>

definition sys_safe :: "Sys \<Rightarrow> bool" where
  "sys_safe s \<longleftrightarrow> node_safe (node s) \<and>
     (\<forall>b\<in>set (finished s). blocks (blockchain (node s)) (parent (head b)) \<noteq> None)"

lemma node_safe_mempool [simp]: "node_safe (nd\<lparr>mempool := mp\<rparr>) \<longleftrightarrow> node_safe nd"
  by (simp add: node_safe_def)

lemma handle_message_grows:
  assumes "handle_message X nd os msg = Ret (nd', os', out)" and "blocks (blockchain nd) h \<noteq> None"
  shows "blocks (blockchain nd') h \<noteq> None"
  using assms(1)
proof (cases rule: handle_message_cases)
  case (blocks bs nb)
  from block_steps_grows [OF blocks(2)] assms(2) show ?thesis by auto
next
  case (transactions mp)
  with assms(2) show ?thesis by simp
qed

lemma sys_safe_mempool:
  assumes "sys_safe s" and "nd' = (node s)\<lparr>mempool := mempool nd'\<rparr>"
    and "set (finished s') \<subseteq> set (finished s) \<union> {b. parent (head b) = tip (blockchain (node s))}"
    and "node s' = nd'"
  shows "sys_safe s'"
proof -
  obtain mp where n: "node s' = (node s)\<lparr>mempool := mp\<rparr>" using assms(2,4) by metis
  moreover have "blocks (blockchain (node s)) (tip (blockchain (node s))) \<noteq> None"
    using assms(1) by (simp add: sys_safe_def node_safe_iff)
  ultimately show ?thesis using assms(1,3) unfolding sys_safe_def by auto
qed

lemma sys_step_safe:
  assumes "sys_step X U s out s'" and ok: "sys_safe s"
  shows "sys_safe s'"
  using assms(1)
proof cases
  case (net_worker k msg nd' os')
  with handle_message_safe [OF net_worker(2)] handle_message_grows [OF net_worker(2)] ok show ?thesis
    by (simp add: sys_safe_def del: not_None_eq)
next
  case (mine inp nd' m' sent)
  have "parent (head b) = tip (blockchain (node s))" if "sent = Some b" for b
    using miner_turn_mined mine(3) that by blast
  with mine(2) show ?thesis
    by (intro sys_safe_mempool [OF ok miner_turn_frame [OF mine(3)]]) (auto split: option.splits)
next
  case (insert_mined b bs nd')
  then obtain acc where a: "accept_block X (node s) b (hash_block X b) = Ret (acc, nd')"
    by (auto simp: miner_worker_step_accept res_simps)
  from accept_block_Ret(1,2) [OF a] ok insert_mined(1,2) show ?thesis
    by (simp add: sys_safe_def del: not_None_eq)
next
  case (generate ginp nd' g')
  from generator_turn_frame [OF generate(2)] generate(1) show ?thesis
    by (intro sys_safe_mempool [OF ok, of nd']) auto
qed

lemma sys_reach_safe: "sys_reach X U i s \<Longrightarrow> sys_safe s"
proof (induction rule: sys_reach.induct)
  case (sys_init s)
  then show ?case by (auto simp: sys_start_def res_simps sys_safe_def)
qed (rule sys_step_safe)

lemma sys_start_pool:
  "sys_start X i = Ret s \<Longrightarrow> mempool_ok X (mempool (node s)) \<and> own_key (generator s) \<in> set all_public_keys"
proof -
  assume st: "sys_start X i = Ret s"
  then obtain g0 where g0: "TxGenerator_new X i = Ret g0" and
    s: "generator s = GeneLoop.extend g0 (Generator.fields (tip (Blockchain_new X)) (State_new X (all_public_keys ! 0)))"
      "node s = init_node X"
    by (auto simp: sys_start_def generator_start_def res_simps Let_def Blockchain_tip_def)
      (auto simp: Blockchain_new_def Let_def)
  from TxGenerator_key [OF g0] s show ?thesis
    by (simp add: mempool_ok_def Mempool_new_def GeneLoop.defs Generator.defs)
qed

lemma sys_reach_ok:
  assumes "universe_sound X U" and "\<forall>k\<in>set all_public_keys. signs X k"
  shows "sys_reach X U i s \<Longrightarrow> sys_ok X U s \<and> mempool_ok X (mempool (node s)) \<and>
    own_key (generator s) \<in> set all_public_keys"
proof (induction rule: sys_reach.induct)
  case (sys_init s)
  with sys_start_ok [OF sys_init assms(1)] sys_start_pool [OF sys_init] show ?case by simp
next
  case (sys_turn s out s')
  then show ?case using sys_step_ok [OF sys_turn.hyps(2) assms(1)] assms(2) by auto
qed

text \<open>The example: its keys sign, and its nodes start.\<close>

lemma demo_signs: "\<forall>k\<in>set all_public_keys. signs (demo_crates chk) k"
  by (simp add: signs_def demo_verify_def demo_sign_def)

lemma demo_start: "i < 3 \<Longrightarrow> \<exists>s. sys_start X i = Ret s \<and> node s = init_node X"
  by (simp add: sys_start_def TxGenerator_new_eq generator_start_def Let_def Blockchain_tip_def)
    (simp add: Blockchain_new_def Let_def)

section \<open>Replay along the chain\<close>

definition path_txs :: "Blockchain \<Rightarrow> H256 list \<Rightarrow> SignedTransaction list" where
  "path_txs c hs = concat (map (\<lambda>h. st (cont (fst (the (blocks c h))))) (tl hs))"

lemma check_txs_append:
  "check_txs X s xs = Ret (Some s1) \<Longrightarrow> check_txs X s (xs @ ys) = check_txs X s1 ys"
proof (induction xs arbitrary: s)
  case (Cons x xs)
  then show ?case by (auto simp: res_simps split: option.splits)
qed simp

lemma ledger_replay:
  assumes ok: "node_ok X U s0 nd"
  shows "chain_to X (blockchain nd) hs h \<Longrightarrow> \<exists>s. block_state nd h = Some s \<and>
    check_txs X s0 (path_txs (blockchain nd) hs) = Ret (Some s)"
proof (induction rule: chain_to.induct)
  case chain_root
  from ok obtain g where "blocks (blockchain nd) (genesis_hash X) = Some (g, 0)"
    by (auto simp: node_ok_def chain_inv_def tree_inv_def)
  with ok have "state_step X s0 nd (genesis_hash X) g 0" by (simp add: node_ok_def ledger_inv_def)
  then show ?case by (simp add: state_step_def path_txs_def)
next
  case (chain_step hs b h n)
  have "n \<noteq> 0"
    using ok chain_step.hyps tree_inv_root [of X "blocks (blockchain nd)" h b]
    by (auto simp: node_ok_def chain_inv_def)
  moreover have "state_step X s0 nd h b n"
    using ok chain_step.hyps(2) by (simp add: node_ok_def ledger_inv_def)
  ultimately obtain sp s where sp: "block_state nd (parent (head b)) = Some sp"
    "check_txs X sp (st (cont b)) = Ret (Some s)" "block_state nd h = Some s"
    by (auto simp: state_step_def)
  have "path_txs (blockchain nd) (hs @ [h]) = path_txs (blockchain nd) hs @ st (cont b)"
    using chain_step.hyps(1,2) chain_to_last [of X "blockchain nd" hs]
    by (cases hs) (auto simp: path_txs_def)
  with chain_step.IH sp check_txs_append show ?case by auto
qed

section \<open>Two nodes\<close>

text \<open>
  Nodes whose blocks come from the same universe agree on a block that both have, on the
  path to it, and on its ledger.
\<close>

lemma same_block:
  assumes "universe_sound X U" and "node_ok X U s0 nd" and "node_ok X U s0 nd'"
    and "blocks (blockchain nd) h = Some (b, n)" and "blocks (blockchain nd') h = Some (b', n')"
  shows "b' = b"
proof -
  have "b \<in> U" "b' \<in> U" using assms(2-5) unfolding node_ok_def blocks_in_def by blast+
  moreover have "hash_block X b = h" "hash_block X b' = h"
    using assms(2-5) tree_inv_hash by (auto simp: node_ok_def chain_inv_def)
  ultimately show ?thesis using assms(1) by (auto simp: universe_sound_iff dest: inj_onD)
qed

lemma same_path:
  assumes "universe_sound X U" and "node_ok X U s0 nd" and "node_ok X U s0 nd'"
  shows "chain_to X (blockchain nd) hs h \<Longrightarrow> blocks (blockchain nd') h \<noteq> None \<Longrightarrow> chain_to X (blockchain nd') hs h"
proof (induction rule: chain_to.induct)
  case chain_root
  show ?case by (rule chain_to.chain_root)
next
  case (chain_step hs b h n)
  then obtain b' n' where e: "blocks (blockchain nd') h = Some (b', n')" by auto
  have b: "b' = b" by (rule same_block [OF assms chain_step.hyps(2) e])
  have tree: "tree_inv X (blocks (blockchain nd'))" using assms(3) by (simp add: node_ok_def chain_inv_def)
  have "n' \<noteq> 0" using tree_inv_root [OF tree] e chain_step.hyps(3) by blast
  from tree_inv_parent [OF tree e this] b obtain pb pn where
    "blocks (blockchain nd') (parent (head b)) = Some (pb, pn)" by blast
  with chain_step.IH e b chain_step.hyps(3) show ?case by (auto intro: chain_to.chain_step)
qed

lemma same_ledger:
  assumes "universe_sound X U" and "node_ok X U s0 nd" and "node_ok X U s0 nd'"
    and "blocks (blockchain nd) h = Some (b, n)" and "blocks (blockchain nd') h = Some (b', n')"
  shows "b' = b \<and> n' = n \<and> block_state nd' h = block_state nd h"
proof -
  let ?c = "blockchain nd" and ?c' = "blockchain nd'"
  have inv: "chain_inv X ?c" "chain_inv X ?c'" using assms(2,3) by (simp_all add: node_ok_def)
  have "tree_inv X (blocks ?c)" using inv(1) by (simp add: chain_inv_def)
  from longest_loop_chain [OF this assms(4)] obtain hs where hs: "chain_to X ?c hs h" by blast
  have hs': "chain_to X ?c' hs h" using same_path [OF assms(1-3) hs] assms(5) by simp
  have "n' = n" using chain_to_height [OF inv(1) hs] chain_to_height [OF inv(2) hs'] assms(4,5)
    by (auto simp: word_unat_eq_iff)
  have "fst (the (blocks ?c' k)) = fst (the (blocks ?c k))" if k: "k \<in> set hs" for k
  proof -
    from chain_to_known [OF inv(1) hs k] obtain b1 n1 where e: "blocks ?c k = Some (b1, n1)" by auto
    from chain_to_known [OF inv(2) hs' k] obtain b2 n2 where e': "blocks ?c' k = Some (b2, n2)" by auto
    from same_block [OF assms(1-3) e e'] e e' show ?thesis by simp
  qed
  moreover have "set (tl hs) \<subseteq> set hs" by (cases hs) auto
  ultimately have "path_txs ?c' hs = path_txs ?c hs"
    unfolding path_txs_def by (intro arg_cong [of _ _ concat] map_cong) auto
  with ledger_replay [OF assms(2) hs] ledger_replay [OF assms(3) hs']
  have "block_state nd' h = block_state nd h" by auto
  with \<open>n' = n\<close> show ?thesis using same_block [OF assms] by simp
qed

end
