(* ===== verification/LockInv.thy ===== *)
theory LockInv
  imports Locks System
begin

text \<open>
  Invariants at the granularity of the locks (theory \<open>Locks\<close>): what holds of the tree and
  the recorded states between any two lock sections, and what a worker or a reader knows
  there. A block whose state is recorded need not be in the tree yet, and another block with
  its header may be there instead, so the invariant of theory \<open>System\<close> is weakened to one
  about recorded states.
\<close>

section \<open>The shared invariant\<close>

text \<open>
  A state is replayed at a hash by a list of blocks if it results from the initial state by
  their transactions, where each block has the hash of the one before as its parent and the
  last one has the given hash. The tree may hold another block under one of these hashes,
  with the same header and other transactions.
\<close>

inductive replayed :: "Crates \<Rightarrow> Block set \<Rightarrow> State \<Rightarrow> H256 \<Rightarrow> Block list \<Rightarrow> State \<Rightarrow> bool" for X U s0 where
  replay_root: "replayed X U s0 (genesis_hash X) [] s0"
| replay_next: "replayed X U s0 (parent (head b)) bs sp \<Longrightarrow> b \<in> U \<Longrightarrow> hash_block X b \<noteq> genesis_hash X \<Longrightarrow>
     check_txs X sp (st (cont b)) = Ret (Some s) \<Longrightarrow> replayed X U s0 (hash_block X b) (bs @ [b]) s"

definition blocks_txs :: "Block list \<Rightarrow> SignedTransaction list" where
  "blocks_txs bs = concat (map (\<lambda>b. st (cont b)) bs)"

lemma replayed_txs: "replayed X U s0 h bs s \<Longrightarrow> check_txs X s0 (blocks_txs bs) = Ret (Some s)"
  by (induction rule: replayed.induct) (simp_all add: blocks_txs_def check_txs_append)

lemma replayed_blocks: "replayed X U s0 h bs s \<Longrightarrow> set bs \<subseteq> U"
  by (induction rule: replayed.induct) simp_all

lemma replayed_unique:
  assumes "universe_sound X U"
  shows "replayed X U s0 h bs s \<Longrightarrow> replayed X U s0 h bs' s' \<Longrightarrow> bs' = bs \<and> s' = s"
proof (induction arbitrary: bs' s' rule: replayed.induct)
  case replay_root
  then show ?case by (cases rule: replayed.cases) simp_all
next
  case (replay_next b bs sp s)
  from replay_next.prems replay_next.hyps(3) obtain b1 bs1 sp1 where
    n: "replayed X U s0 (parent (head b1)) bs1 sp1" "b1 \<in> U" "hash_block X b1 = hash_block X b"
      "check_txs X sp1 (st (cont b1)) = Ret (Some s')" "bs' = bs1 @ [b1]"
    by (cases rule: replayed.cases) simp_all
  have "b1 = b" by (rule same_hash [OF assms n(2) replay_next.hyps(2) n(3)])
  with n replay_next.IH [of bs1 sp1] replay_next.hyps(4) show ?case by simp
qed

text \<open>
  Between the recording of its state and its insertion a block is not in the tree, so the
  invariant speaks about recorded states: each is replayed.
\<close>

definition states_right :: "Crates \<Rightarrow> Block set \<Rightarrow> State \<Rightarrow> Node \<Rightarrow> bool" where
  "states_right X U s0 nd \<longleftrightarrow>
     (\<forall>h. blocks (blockchain nd) h \<noteq> None \<longrightarrow> block_state nd h \<noteq> None) \<and>
     (\<forall>h s. block_state nd h = Some s \<longrightarrow> (\<exists>bs. replayed X U s0 h bs s))"

definition tree_right :: "Crates \<Rightarrow> Block set \<Rightarrow> Blockchain \<Rightarrow> bool" where
  "tree_right X U c \<longleftrightarrow> chain_inv X c \<and> blocks_in U c \<and> pow_inv X c"

text \<open>No thread poisons a lock but one whose response fails, and that holds the tree's.\<close>

definition shared_ok :: "Crates \<Rightarrow> Block set \<Rightarrow> State \<Rightarrow> Shared \<Rightarrow> bool" where
  "shared_ok X U s0 sh \<longleftrightarrow> sh_poisoned sh \<subseteq> {BlockchainLock} \<and> tree_right X U (blockchain (sh_node sh)) \<and>
     states_right X U s0 (sh_node sh)"

text \<open>
  What the steps of the threads leave: the hashes in the tree with header and height, and
  the hashes with a recorded state. Transactions and states may be replaced by those of a
  block with the same header.
\<close>

definition tree_grows :: "(H256 \<rightharpoonup> Block \<times> u32) \<Rightarrow> (H256 \<rightharpoonup> Block \<times> u32) \<Rightarrow> bool" where
  "tree_grows m m' \<longleftrightarrow> (\<forall>h b n. m h = Some (b, n) \<longrightarrow> (\<exists>b'. m' h = Some (b', n) \<and> head b' = head b))"

definition node_grows :: "Node \<Rightarrow> Node \<Rightarrow> bool" where
  "node_grows nd nd' \<longleftrightarrow> tree_grows (blocks (blockchain nd)) (blocks (blockchain nd')) \<and>
     dom (block_state nd) \<subseteq> dom (block_state nd')"

definition shared_grows :: "Shared \<Rightarrow> Shared \<Rightarrow> bool" where
  "shared_grows sh sh' \<longleftrightarrow> node_grows (sh_node sh) (sh_node sh') \<and> sh_poisoned sh \<subseteq> sh_poisoned sh'"

lemma tree_growsD: "tree_grows m m' \<Longrightarrow> m h = Some (b, n) \<Longrightarrow> \<exists>b'. m' h = Some (b', n) \<and> head b' = head b"
  by (simp add: tree_grows_def)

lemma tree_grows_refl [simp]: "tree_grows m m"
  by (simp add: tree_grows_def)

lemma node_grows_refl [simp]: "node_grows nd nd"
  by (simp add: node_grows_def)

lemma shared_grows_refl [simp]: "shared_grows sh sh"
  by (simp add: shared_grows_def)

lemma node_grows_tree: "node_grows nd nd' \<Longrightarrow> tree_grows (blocks (blockchain nd)) (blocks (blockchain nd'))"
  by (simp add: node_grows_def)

lemma node_grows_blocks:
  "node_grows nd nd' \<Longrightarrow> blocks (blockchain nd) h = Some (b, n) \<Longrightarrow>
     \<exists>b'. blocks (blockchain nd') h = Some (b', n) \<and> head b' = head b"
  by (simp add: node_grows_def tree_grows_def)

lemma node_grows_state: "node_grows nd nd' \<Longrightarrow> block_state nd h \<noteq> None \<Longrightarrow> block_state nd' h \<noteq> None"
  by (auto simp: node_grows_def)

lemma states_right_known:
  "states_right X U s0 nd \<Longrightarrow> blocks (blockchain nd) h = Some e \<Longrightarrow> \<exists>s. block_state nd h = Some s"
  unfolding states_right_def by (metis not_Some_eq)

lemma states_right_replayed:
  assumes "states_right X U s0 nd" and "block_state nd h = Some s"
  obtains bs where "replayed X U s0 h bs s"
  using assms unfolding states_right_def by blast

lemma tree_right_block:
  assumes "tree_right X U c" and "blocks c h = Some (b, n)"
  shows "b \<in> U" and "hash_block X b = h"
  using assms tree_inv_hash [of X "blocks c" h b n] by (auto simp: tree_right_def blocks_in_def chain_inv_def)

text \<open>Nothing is in the tree under the zero hash, so the genesis block has no parent there.\<close>

lemma not_genesis_hash:
  assumes "hashes_sound X U" and "tree_right X U c" and "b \<in> U" and "blocks c (parent (head b)) \<noteq> None"
  shows "hash_block X b \<noteq> genesis_hash X"
proof
  assume "hash_block X b = genesis_hash X"
  then have "head b = head genesis" using same_header [OF assms(1,3)] assms(1) by (simp add: hashes_sound_def)
  with assms(4) obtain pb pn where "blocks c (h256_fill 0) = Some (pb, pn)" by (auto simp: genesis_def)
  with tree_right_block [OF assms(2) this] no_zero_hash [OF assms(1)] show False by blast
qed

text \<open>A replay goes along the path to its hash.\<close>

lemma replayed_path:
  assumes sound: "hashes_sound X U" and ok: "tree_right X U c"
  shows "replayed X U s0 h bs s \<Longrightarrow> chain_to X c hs h \<Longrightarrow> map (hash_block X) bs = tl hs"
proof (induction arbitrary: hs rule: replayed.induct)
  case replay_root
  then have "hs = [genesis_hash X]" by (rule chain_to_genesisE)
  then show ?case by simp
next
  case (replay_next b bs sp s)
  from replay_next.prems replay_next.hyps(3) obtain hs1 b1 n where
    p: "hs = hs1 @ [hash_block X b]" "chain_to X c hs1 (parent (head b1))" "blocks c (hash_block X b) = Some (b1, n)"
    by (cases rule: chain_to.cases) auto
  have "head b1 = head b"
    by (rule same_header [OF sound tree_right_block(1) [OF ok p(3)] replay_next.hyps(2) tree_right_block(2) [OF ok p(3)]])
  with p(2) replay_next.IH have "map (hash_block X) bs = tl hs1" by simp
  moreover have "hs1 \<noteq> []" using p(2) by (cases rule: chain_to.cases) simp_all
  ultimately show ?case using p(1) by simp
qed

text \<open>When blocks with the same header are the same, a recorded state is its block's.\<close>

lemma node_ok_shared:
  assumes sound: "universe_sound X U" and ok: "tree_right X U (blockchain nd)" "states_right X U s0 nd"
  shows "node_ok X U s0 nd"
proof -
  have tree: "tree_inv X (blocks (blockchain nd))" using ok(1) by (simp add: tree_right_def chain_inv_def)
  have "state_step X s0 nd h b n" if e: "blocks (blockchain nd) h = Some (b, n)" for h b n
  proof -
    note b = tree_right_block [OF ok(1) e]
    obtain s where s: "block_state nd h = Some s" using states_right_known [OF ok(2) e] ..
    obtain bs where r: "replayed X U s0 h bs s" by (rule states_right_replayed [OF ok(2) s])
    show ?thesis
    proof (cases "n = 0")
      case True
      then have "h = genesis_hash X" using tree_inv_root [OF tree] e by blast
      with r replayed_unique [OF sound replay_root] have "s = s0" by blast
      with s True show ?thesis by (simp add: state_step_def)
    next
      case False
      then obtain pb pn where p: "blocks (blockchain nd) (parent (head b)) = Some (pb, pn)"
        using tree_inv_parent [OF tree e] by blast
      then obtain sp where sp: "block_state nd (parent (head b)) = Some sp" using states_right_known [OF ok(2)] by blast
      obtain bsp where rp: "replayed X U s0 (parent (head b)) bsp sp" by (rule states_right_replayed [OF ok(2) sp])
      have ng: "h \<noteq> genesis_hash X"
        using not_genesis_hash [OF universe_hashes [OF sound] ok(1) b(1)] p b(2) by simp
      with r obtain b1 bs1 sp1 where n: "replayed X U s0 (parent (head b1)) bs1 sp1" "b1 \<in> U" "hash_block X b1 = h"
        "check_txs X sp1 (st (cont b1)) = Ret (Some s)" by (cases rule: replayed.cases) auto
      have "b1 = b" using same_hash [OF sound n(2) b(1)] n(3) b(2) by simp
      with n(1) replayed_unique [OF sound rp] have "sp1 = sp" by blast
      with n(4) \<open>b1 = b\<close> sp s False show ?thesis by (simp add: state_step_def)
    qed
  qed
  with ok(1) show ?thesis by (simp add: node_ok_def tree_right_def ledger_inv_def)
qed

lemma shared_ok_init:
  "hashes_sound X U \<Longrightarrow>
     shared_ok X U (State_new X (all_public_keys ! 0)) \<lparr>sh_node = init_node X, sh_poisoned = {}\<rparr>"
  using pow_inv_new [of X] chain_inv_new [of X]
  by (auto simp: shared_ok_def tree_right_def states_right_def blocks_in_def hashes_sound_def
      Blockchain_new_def Let_def intro: replay_root split: if_splits)

text \<open>Recording a replayed state.\<close>

lemma write_state:
  assumes "states_right X U s0 nd" and "replayed X U s0 h bs s"
    and "nd' = nd\<lparr>block_state := (block_state nd)(h \<mapsto> s)\<rparr>"
  shows "states_right X U s0 nd'" and "node_grows nd nd'"
  using assms by (auto simp: states_right_def node_grows_def)

lemma insert_block:
  assumes sound: "hashes_sound X U" and ok: "tree_right X U c" and b: "b \<in> U"
    and pow: "hash_block X b \<le> difficulty (head b)"
    and p: "blocks c (parent (head b)) = Some (pb, pn)" "difficulty (head b) = difficulty (head pb)"
  obtains c' n where "Blockchain_insert X c b = Ret c'" "tree_right X U c'" "tree_grows (blocks c) (blocks c')"
    "blocks c' = (blocks c)(hash_block X b \<mapsto> (b, n))"
proof -
  have inv: "chain_inv X c" and bin: "blocks_in U c" and pw: "pow_inv X c"
    using ok by (simp_all add: tree_right_def)
  then have tree: "tree_inv X (blocks c)" by (simp add: chain_inv_def)
  have hs: "headers_sound X (head ` U)" using sound by (simp add: hashes_sound_def)
  note hin = blocks_in_headers [OF bin]
  have ins: "insertable X c b" and room: "height_room X c"
    using insertable_header [OF inv hs hin _ p(1)] tree_inv_room [OF inv hs hin] b by auto
  obtain tb tn where t: "blocks c (tip c) = Some (tb, tn)"
    using inv by (auto simp: chain_inv_def tip_inv_def)
  have "unat pn + 1 < 2 ^ 32" by (rule tree_inv_heights_fit [OF inv hs hin p(1)])
  then obtain c' where c': "Blockchain_insert X c b = Ret c'"
    using p t by (simp add: Blockchain_insert_def Let_def add_checked_no_overflow)
  obtain pb' pn' tb' tn' n where e: "blocks c (parent (head b)) = Some (pb', pn')"
    "unat n = Suc (unat pn')" "blocks c' = (blocks c)(hash_block X b \<mapsto> (b, n))"
    using Blockchain_insert_Ret [OF c' room] .
  have "tree_right X U c'"
    using chain_inv_insert [OF inv c' ins room] bin b e(3) pow_inv_insert [OF pw pow p e(3)]
    by (auto simp: tree_right_def blocks_in_def)
  moreover have "head b = head b0 \<and> n = n0" if old: "blocks c (hash_block X b) = Some (b0, n0)" for b0 n0
    using ins old tree_inv_insert_same [OF tree e(1,2) old] by (auto simp: insertable_def)
  then have "tree_grows (blocks c) (blocks c')" by (auto simp: tree_grows_def e(3))
  ultimately show thesis using c' e(3) by (intro that)
qed

section \<open>What a worker knows between its lock sections\<close>

definition good_block :: "Crates \<Rightarrow> Block set \<Rightarrow> Block \<Rightarrow> bool" where
  "good_block X U b \<longleftrightarrow> b \<in> U \<and> hash_block X b \<le> difficulty (head b)"

definition fits :: "Node \<Rightarrow> Block \<Rightarrow> bool" where
  "fits nd b \<longleftrightarrow> (\<exists>pb pn. blocks (blockchain nd) (parent (head b)) = Some (pb, pn) \<and>
     difficulty (head b) = difficulty (head pb))"

definition locals_hold :: "Crates \<Rightarrow> Block set \<Rightarrow> Node \<Rightarrow> Local \<Rightarrow> bool" where
  "locals_hold X U nd l \<longleftrightarrow> set (todo l) \<subseteq> U \<and> worker_ok X U (orphan_blocks l) \<and>
     (\<forall>h\<in>set (new_blocks l). blocks (blockchain nd) h \<noteq> None)"

definition in_loop :: "Origin \<Rightarrow> Local \<Rightarrow> bool" where
  "in_loop origin l \<longleftrightarrow> origin = Released \<longrightarrow> pos_n l < length (new_blocks l)"

fun pos_holds :: "Crates \<Rightarrow> Block set \<Rightarrow> State \<Rightarrow> Node \<Rightarrow> Position \<Rightarrow> Local \<Rightarrow> bool" where
  "pos_holds X U s0 nd (CheckKnown b) l \<longleftrightarrow> good_block X U b"
| "pos_holds X U s0 nd (CheckParent b) l \<longleftrightarrow> good_block X U b"
| "pos_holds X U s0 nd (CheckDifficulty b) l \<longleftrightarrow> good_block X U b \<and> blocks (blockchain nd) (parent (head b)) \<noteq> None"
| "pos_holds X U s0 nd (ReadState origin b) l \<longleftrightarrow> good_block X U b \<and> fits nd b \<and> in_loop origin l"
| "pos_holds X U s0 nd (WriteState origin b s) l \<longleftrightarrow>
     good_block X U b \<and> fits nd b \<and> in_loop origin l \<and> (\<exists>bs. replayed X U s0 (hash_block X b) bs s)"
| "pos_holds X U s0 nd (InsertBlock origin b) l \<longleftrightarrow>
     good_block X U b \<and> fits nd b \<and> in_loop origin l \<and> block_state nd (hash_block X b) \<noteq> None"
| "pos_holds X U s0 nd OrphanLoop l \<longleftrightarrow> pos_n l < length (new_blocks l)"
| "pos_holds X U s0 nd (OrphanDifficulty b) l \<longleftrightarrow>
     good_block X U b \<and> pos_n l < length (new_blocks l) \<and> parent (head b) = new_blocks l ! pos_n l"
| "pos_holds X U s0 nd (Stopped e) l \<longleftrightarrow> overflow_checks X \<and> e = ArithmeticOverflow"
| "pos_holds X U s0 nd _ l \<longleftrightarrow> True"

lemma fits_grows: "node_grows nd nd' \<Longrightarrow> fits nd b \<Longrightarrow> fits nd' b"
  unfolding fits_def using node_grows_blocks by metis

lemma known_grows: "node_grows nd nd' \<Longrightarrow> blocks (blockchain nd) h \<noteq> None \<Longrightarrow> blocks (blockchain nd') h \<noteq> None"
  using node_grows_blocks by fastforce

lemma locals_grow: "node_grows nd nd' \<Longrightarrow> locals_hold X U nd l \<Longrightarrow> locals_hold X U nd' l"
  unfolding locals_hold_def using known_grows by blast

lemma pos_grows: "node_grows nd nd' \<Longrightarrow> pos_holds X U s0 nd p l \<Longrightarrow> pos_holds X U s0 nd' p l"
proof (cases p)
  case (CheckDifficulty b)
  assume g: "node_grows nd nd'" and "pos_holds X U s0 nd p l"
  with CheckDifficulty known_grows [OF g] show ?thesis by (simp del: not_None_eq)
next
  case (InsertBlock origin b)
  assume g: "node_grows nd nd'" and "pos_holds X U s0 nd p l"
  with InsertBlock node_grows_state [OF g] fits_grows [OF g] show ?thesis by (simp del: not_None_eq)
qed (auto intro: fits_grows)

lemma after_check_holds:
  assumes "after_check X origin b ok l = (p', l')" and "locals_hold X U nd l" and "in_loop origin l"
    and "ok \<Longrightarrow> blocks (blockchain nd) (hash_block X b) \<noteq> None"
  shows "locals_hold X U nd l' \<and> pos_holds X U s0 nd p' l' \<and> \<not> stopped p'"
  using assms
  by (cases origin; cases ok) (auto simp: after_check_def locals_hold_def in_loop_def stopped_def)

lemma worker_ok_nth: "worker_ok X U os \<Longrightarrow> i < length os \<Longrightarrow> good_block X U (os ! i)"
  using nth_mem [of i os] unfolding worker_ok_def orphans_pow_def good_block_def by blast

lemma worker_ok_remove: "worker_ok X U os \<Longrightarrow> worker_ok X U (remove_at i os)"
  using set_remove_at [of i os] unfolding worker_ok_def orphans_pow_def by blast

text \<open>A step that neither records a state nor inserts a block.\<close>

definition writes :: "Position \<Rightarrow> bool" where
  "writes p \<longleftrightarrow> (case p of WriteState _ _ _ \<Rightarrow> True | InsertBlock _ _ \<Rightarrow> True | _ \<Rightarrow> False)"

lemma read_step_holds:
  assumes sound: "hashes_sound X U" and tr: "tree_right X U (blockchain nd)" and ok: "states_right X U s0 nd"
    and l: "locals_hold X U nd l" and p: "pos_holds X U s0 nd p l"
    and step: "block_lock_step X nd (p, l) = (nd', p', l')" and w: "\<not> writes p"
  shows "nd' = nd \<and> locals_hold X U nd l' \<and> pos_holds X U s0 nd p' l' \<and>
    (lock_of p = None \<or> \<not> stopped p' \<or> \<not> panics_locked nd p)"
proof (cases p)
  case NextBlock
  with assms show ?thesis
    by (auto simp: locals_hold_def good_block_def lock_of_def split: list.splits if_splits)
next
  case (CheckParent b)
  with assms show ?thesis
    by (auto simp: locals_hold_def good_block_def worker_ok_def orphans_pow_def stopped_def split: if_splits)
next
  case (CheckDifficulty b)
  with assms show ?thesis
    by (auto simp: good_block_def fits_def in_loop_def stopped_def split: if_splits option.splits)
next
  case (ReadState origin b)
  from p ReadState obtain e where e: "blocks (blockchain nd) (parent (head b)) = Some e" by (auto simp: fits_def)
  from states_right_known [OF ok this] obtain s where s: "block_state nd (parent (head b)) = Some s" ..
  show ?thesis
  proof (cases "check_txs X s (st (cont b))")
    case (Panic e)
    with only_overflow_check_txs [of X s "st (cont b)"] s ReadState step l show ?thesis
      by (auto simp: only_overflow_def panics_locked_def)
  next
    case (Ret r)
    show ?thesis
    proof (cases r)
      case None
      then have "after_check X origin b False l = (p', l')" "nd' = nd"
        using step ReadState s Ret by auto
      with after_check_holds [OF this(1) l] p ReadState show ?thesis by auto
    next
      case (Some s')
      obtain bs where bs: "replayed X U s0 (parent (head b)) bs s" by (rule states_right_replayed [OF ok s])
      have b: "b \<in> U" using p ReadState by (simp add: good_block_def)
      have "hash_block X b \<noteq> genesis_hash X" using not_genesis_hash [OF sound tr b] e by simp
      from replay_next [OF bs b this] Ret Some have "replayed X U s0 (hash_block X b) (bs @ [b]) s'" by simp
      with step ReadState s Ret Some p l show ?thesis by (auto simp: stopped_def)
    qed
  qed
next
  case OrphanLoop
  with assms show ?thesis
    by (auto simp: Let_def locals_hold_def worker_ok_nth worker_ok_remove lock_of_def split: if_splits)
next
  case (OrphanDifficulty b)
  with l p have "blocks (blockchain nd) (parent (head b)) \<noteq> None" by (auto simp: locals_hold_def)
  with assms OrphanDifficulty show ?thesis
    by (auto simp: fits_def in_loop_def stopped_def split: if_splits)
qed (use assms in \<open>auto simp: writes_def lock_of_def stopped_def locals_hold_def split: if_splits\<close>)

text \<open>
  Any step of a worker keeps the shared invariant and poisons no lock. A worker that meets
  the poisoned lock of the tree has stopped there.
\<close>

definition worker_holds :: "Crates \<Rightarrow> Block set \<Rightarrow> State \<Rightarrow> Shared \<Rightarrow> Position \<times> Local \<Rightarrow> bool" where
  "worker_holds X U s0 sh t \<longleftrightarrow> locals_hold X U (sh_node sh) (snd t) \<and>
     (pos_holds X U s0 (sh_node sh) (fst t) (snd t) \<or>
      fst t = Stopped UnwrapErr \<and> BlockchainLock \<in> sh_poisoned sh)"

lemma lock_step_unfold:
  assumes "\<forall>k. lock_of (fst t) = Some k \<longrightarrow> k \<notin> sh_poisoned sh" and "block_lock_step X (sh_node sh) t = (nd', p', l')"
    and "lock_of (fst t) = None \<or> \<not> stopped p' \<or> \<not> panics_locked (sh_node sh) (fst t)"
  shows "lock_step X sh t = (sh\<lparr>sh_node := nd'\<rparr>, p', l')"
  using assms by (cases sh) (auto simp: lock_step_def split: option.splits)

lemma lock_step_poisoned:
  "lock_of p = Some k \<Longrightarrow> k \<in> sh_poisoned sh \<Longrightarrow> lock_step X sh (p, l) = (sh, Stopped UnwrapErr, l)"
  by (simp add: lock_step_def case_prod_unfold Let_def)

lemma stopped_worker_stays: "lock_step X sh (Stopped e, l) = (sh, Stopped e, l)"
  by (simp add: lock_step_def lock_of_def)

lemma lock_step_open:
  assumes sound: "hashes_sound X U" and ok: "shared_ok X U s0 sh"
    and l: "locals_hold X U (sh_node sh) l" and p: "pos_holds X U s0 (sh_node sh) p l"
    and free: "\<forall>k. lock_of p = Some k \<longrightarrow> k \<notin> sh_poisoned sh"
    and step: "lock_step X sh (p, l) = (sh', p', l')"
  shows "shared_ok X U s0 sh' \<and> locals_hold X U (sh_node sh') l' \<and> pos_holds X U s0 (sh_node sh') p' l' \<and>
    shared_grows sh sh' \<and> sh_poisoned sh' = sh_poisoned sh"
proof -
  let ?nd = "sh_node sh"
  have c: "sh_poisoned sh \<subseteq> {BlockchainLock}" and tr: "tree_right X U (blockchain ?nd)" and sr: "states_right X U s0 ?nd"
    using ok by (simp_all add: shared_ok_def)
  have free': "\<forall>k. lock_of (fst (p, l)) = Some k \<longrightarrow> k \<notin> sh_poisoned sh" using free by simp
  obtain nd1 p1 l1 where s: "block_lock_step X ?nd (p, l) = (nd1, p1, l1)" by (metis surj_pair)
  consider (records) origin b v where "p = WriteState origin b v" | (inserts) origin b where "p = InsertBlock origin b"
    | (neither) "\<not> writes p" by (cases p) (auto simp: writes_def)
  then show ?thesis
  proof cases
    case records
    from s records have s': "nd1 = ?nd\<lparr>block_state := (block_state ?nd)(hash_block X b \<mapsto> v)\<rparr>"
      "p1 = InsertBlock origin b" "l1 = l" by auto
    have "lock_step X sh (p, l) = (sh\<lparr>sh_node := nd1\<rparr>, p1, l1)"
      by (rule lock_step_unfold [OF free' s]) (simp add: s'(2) stopped_def)
    with step have r: "sh' = sh\<lparr>sh_node := nd1\<rparr>" "p' = p1" "l' = l1" by simp_all
    from p records obtain bs where g: "good_block X U b" "fits ?nd b" "in_loop origin l"
      "replayed X U s0 (hash_block X b) bs v" by auto
    note w = write_state [OF sr g(4) s'(1)]
    have "blockchain nd1 = blockchain ?nd" using s'(1) by simp
    with w(1) tr c have "shared_ok X U s0 sh'" by (simp add: shared_ok_def r(1))
    moreover have "pos_holds X U s0 nd1 p1 l1" using g fits_grows [OF w(2)] s' by simp
    ultimately show ?thesis using r w(2) locals_grow [OF w(2) l] s'(3) by (simp add: shared_grows_def)
  next
    case inserts
    from p inserts obtain pb pn where g: "b \<in> U" "hash_block X b \<le> difficulty (head b)" "in_loop origin l"
      "blocks (blockchain ?nd) (parent (head b)) = Some (pb, pn)" "difficulty (head b) = difficulty (head pb)"
      "block_state ?nd (hash_block X b) \<noteq> None" by (auto simp: good_block_def fits_def)
    from insert_block [OF sound tr g(1,2,4,5)] obtain c' n where
      c': "Blockchain_insert X (blockchain ?nd) b = Ret c'" "tree_right X U c'"
      "tree_grows (blocks (blockchain ?nd)) (blocks c')" "blocks c' = (blocks (blockchain ?nd))(hash_block X b \<mapsto> (b, n))" .
    from s inserts c'(1) have s': "nd1 = ?nd\<lparr>blockchain := c'\<rparr>" "after_check X origin b True l = (p1, l1)" by auto
    have grows: "node_grows ?nd nd1" using c'(3) s'(1) by (simp add: node_grows_def)
    have a: "locals_hold X U nd1 l1 \<and> pos_holds X U s0 nd1 p1 l1 \<and> \<not> stopped p1"
      by (rule after_check_holds [OF s'(2) locals_grow [OF grows l] g(3)]) (simp add: s'(1) c'(4))
    have "lock_step X sh (p, l) = (sh\<lparr>sh_node := nd1\<rparr>, p1, l1)"
      by (rule lock_step_unfold [OF free' s]) (simp add: a)
    with step have r: "sh' = sh\<lparr>sh_node := nd1\<rparr>" "p' = p1" "l' = l1" by simp_all
    have "states_right X U s0 nd1"
      using sr g(6) unfolding states_right_def s'(1) c'(4) by (auto simp: c'(4))
    with c' c have "shared_ok X U s0 sh'" by (simp add: shared_ok_def r(1) s'(1))
    with r grows a show ?thesis by (simp add: shared_grows_def)
  next
    case neither
    note h = read_step_holds [OF sound tr sr l p s neither]
    have "lock_step X sh (p, l) = (sh\<lparr>sh_node := nd1\<rparr>, p1, l1)"
      by (rule lock_step_unfold [OF free' s]) (use h in simp)
    with step h have "sh' = sh" "p' = p1" "l' = l1" by simp_all
    with h ok show ?thesis by simp
  qed
qed

lemma lock_step_holds:
  assumes sound: "hashes_sound X U" and ok: "shared_ok X U s0 sh" and th: "worker_holds X U s0 sh t"
    and step: "lock_step X sh t = (sh', t')"
  shows "shared_ok X U s0 sh' \<and> worker_holds X U s0 sh' t' \<and> shared_grows sh sh' \<and> sh_poisoned sh' = sh_poisoned sh"
proof -
  obtain p l p' l' where t: "t = (p, l)" "t' = (p', l')" by (cases t; cases t')
  consider (halted) "p = Stopped UnwrapErr" | (meets) "lock_of p = Some BlockchainLock" "BlockchainLock \<in> sh_poisoned sh"
    | (unlocked) "pos_holds X U s0 (sh_node sh) p l" "\<forall>k. lock_of p = Some k \<longrightarrow> k \<notin> sh_poisoned sh"
    using ok th t by (auto simp: shared_ok_def worker_holds_def)
  then show ?thesis
  proof cases
    case halted
    with step t ok th show ?thesis by (simp add: stopped_worker_stays)
  next
    case meets
    with step t lock_step_poisoned [OF meets] ok th show ?thesis by (simp add: worker_holds_def)
  next
    case unlocked
    have l: "locals_hold X U (sh_node sh) l" using th t by (simp add: worker_holds_def)
    from lock_step_open [OF sound ok l unlocked] step t show ?thesis by (simp add: worker_holds_def)
  qed
qed

section \<open>What a reader knows between its lock sections\<close>

lemma chain_to_grows: "tree_grows (blocks c) (blocks c') \<Longrightarrow> chain_to X c hs h \<Longrightarrow> chain_to X c' hs h"
proof (rotate_tac, induction rule: chain_to.induct)
  case (chain_step hs b h n)
  from tree_growsD [OF chain_step.prems chain_step.hyps(2)] obtain b' where
    b': "blocks c' h = Some (b', n)" "head b' = head b" by blast
  with chain_to.chain_step [OF _ b'(1) chain_step.hyps(3)] chain_step.IH [OF chain_step.prems] show ?case by simp
qed (rule chain_root)

lemma block_at_loop_grows:
  "block_at_loop c i n b h = Ret r \<Longrightarrow> tree_grows (blocks c) (blocks c') \<Longrightarrow> head b' = head b \<Longrightarrow>
     block_at_loop c' i n b' h = Ret r"
proof (induction c i n b h arbitrary: b' rule: block_at_loop.induct)
  case (1 c i n b h)
  show ?case
  proof (cases "i < n")
    case True
    with "1.prems"(1) obtain b1 n1 where e: "blocks c (parent (head b)) = Some (b1, n1)"
      "block_at_loop c i (n - 1) b1 (parent (head b)) = Ret r"
      by (auto simp: block_at_loop.simps [of c i n] Let_def res_simps)
    from tree_growsD [OF "1.prems"(2) e(1)] obtain b2 where
      b2: "blocks c' (parent (head b)) = Some (b2, n1)" "head b2 = head b1" by blast
    from "1.IH" [OF True refl, of "(b1, n1)" b2] e b2 "1.prems"(2)
    have "block_at_loop c' i (n - 1) b2 (parent (head b)) = Ret r" by simp
    with True b2(1) "1.prems"(3) show ?thesis by (simp add: block_at_loop.simps [of c' i n])
  qed (use "1.prems" in \<open>simp add: block_at_loop.simps [of _ i n]\<close>)
qed

text \<open>The block that a query for height \<open>i\<close> below the tip \<open>t\<close> must answer.\<close>

definition block_below :: "Crates \<Rightarrow> Blockchain \<Rightarrow> H256 \<Rightarrow> u32 \<Rightarrow> H256 \<Rightarrow> bool" where
  "block_below X c t i h \<longleftrightarrow> (\<exists>hs. chain_to X c hs t \<and> h = hs ! min (unat i) (length hs - 1))"

fun reader_holds :: "Crates \<Rightarrow> Block set \<Rightarrow> State \<Rightarrow> Node \<Rightarrow> Reader \<Rightarrow> bool" where
  "reader_holds X U s0 nd GenTip \<longleftrightarrow> True"
| "reader_holds X U s0 nd (GenState t) \<longleftrightarrow> block_state nd t \<noteq> None"
| "reader_holds X U s0 nd (GenHas t s) \<longleftrightarrow> block_state nd t \<noteq> None \<and> (\<exists>bs. replayed X U s0 t bs s)"
| "reader_holds X U s0 nd (ApiTip i) \<longleftrightarrow> True"
| "reader_holds X U s0 nd (ApiBlock i t) \<longleftrightarrow> blocks (blockchain nd) t \<noteq> None"
| "reader_holds X U s0 nd (ApiWalk i t b n h) \<longleftrightarrow>
     (\<exists>h'. block_at_loop (blockchain nd) i n b h = Ret h' \<and> block_below X (blockchain nd) t i h' \<and> block_state nd h' \<noteq> None)"
| "reader_holds X U s0 nd (ApiState i t h) \<longleftrightarrow> block_below X (blockchain nd) t i h \<and> block_state nd h \<noteq> None"
| "reader_holds X U s0 nd (ApiAnswer i t s) \<longleftrightarrow>
     (\<exists>h. block_below X (blockchain nd) t i h \<and> block_state nd h \<noteq> None \<and> (\<exists>bs. replayed X U s0 h bs s))"
| "reader_holds X U s0 nd (ReaderStopped e) \<longleftrightarrow> False"

lemma block_below_grows: "node_grows nd nd' \<Longrightarrow> block_below X (blockchain nd) t i h \<Longrightarrow> block_below X (blockchain nd') t i h"
  unfolding block_below_def using chain_to_grows [OF node_grows_tree] by blast

lemma reader_grows:
  assumes g: "node_grows nd nd'" and r: "reader_holds X U s0 nd r"
  shows "reader_holds X U s0 nd' r"
proof -
  note keep = node_grows_state [OF g] known_grows [OF g] block_below_grows [OF g]
  show ?thesis
  proof (cases r)
    case (ApiWalk i t b n h)
    with r obtain h' where h': "block_at_loop (blockchain nd) i n b h = Ret h'" "block_below X (blockchain nd) t i h'"
      "block_state nd h' \<noteq> None" by (auto simp del: not_None_eq)
    with block_at_loop_grows [OF h'(1) node_grows_tree [OF g] refl] keep ApiWalk show ?thesis
      unfolding ApiWalk reader_holds.simps by blast
  next
    case (ApiAnswer i t s)
    with r keep show ?thesis unfolding ApiAnswer reader_holds.simps by blast
  qed (use r keep in \<open>simp_all del: not_None_eq\<close>)
qed

lemma block_below_query:
  assumes "tree_right X U (blockchain nd)" and sr: "states_right X U s0 nd"
    and e: "blocks (blockchain nd) t = Some (b, n)"
  shows "\<exists>h. block_at_loop (blockchain nd) i n b t = Ret h \<and> block_below X (blockchain nd) t i h \<and>
    block_state nd h \<noteq> None"
proof -
  have inv: "chain_inv X (blockchain nd)" using assms(1) by (simp add: tree_right_def)
  then have "tree_inv X (blocks (blockchain nd))" by (simp add: chain_inv_def)
  from longest_loop_chain [OF this e] obtain hs where hs: "chain_to X (blockchain nd) hs t" by blast
  have len: "length hs = Suc (unat n)" using chain_to_height [OF inv hs] e by auto
  let ?h = "hs ! min (unat i) (length hs - 1)"
  have "?h \<in> set hs" using len by (intro nth_mem) simp
  from chain_to_known [OF inv hs this] obtain e' where "blocks (blockchain nd) ?h = Some e'" by blast
  from states_right_known [OF sr this] have "block_state nd ?h \<noteq> None" by auto
  moreover have "block_at_loop (blockchain nd) i n b t = Ret ?h"
    using block_at_loop_chain [OF inv hs e] len by simp
  moreover have "block_below X (blockchain nd) t i ?h" using hs by (auto simp: block_below_def)
  ultimately show ?thesis by blast
qed

text \<open>A reader stops only at the poisoned lock of the tree.\<close>

lemma reader_step_holds:
  assumes ok: "shared_ok X U s0 sh" and r: "reader_holds X U s0 (sh_node sh) r" and step: "reader_step sh r = (sh', r')"
  shows "sh' = sh \<and> (reader_holds X U s0 (sh_node sh) r' \<or> r' = ReaderStopped UnwrapErr \<and> BlockchainLock \<in> sh_poisoned sh)"
proof -
  let ?nd = "sh_node sh"
  have c: "BlockStateLock \<notin> sh_poisoned sh" and tr: "tree_right X U (blockchain ?nd)" and sr: "states_right X U s0 ?nd"
    using ok by (auto simp: shared_ok_def)
  obtain e where tip: "blocks (blockchain ?nd) (tip (blockchain ?nd)) = Some e"
    using tr by (auto simp: tree_right_def chain_inv_def tip_inv_def)
  note tips = tip states_right_known [OF sr tip]
  show ?thesis
  proof (cases r)
    case (GenState t)
    with r obtain s where s: "block_state ?nd t = Some s" by auto
    obtain bs where "replayed X U s0 t bs s" by (rule states_right_replayed [OF sr s])
    with step c s GenState show ?thesis by (auto simp: locked_read_def)
  next
    case (ApiBlock i t)
    then obtain b n where e: "blocks (blockchain ?nd) t = Some (b, n)" using r by auto
    from block_below_query [OF tr sr e] step c e ApiBlock show ?thesis by (auto simp: locked_read_def split: if_splits)
  next
    case (ApiWalk i t b n h)
    with r obtain h' where h': "block_at_loop (blockchain ?nd) i n b h = Ret h'" "block_below X (blockchain ?nd) t i h'"
      "block_state ?nd h' \<noteq> None" by auto
    show ?thesis
    proof (cases "i < n")
      case True
      with h'(1) obtain e where "blocks (blockchain ?nd) (parent (head b)) = Some e"
        "block_at_loop (blockchain ?nd) i (n - 1) (fst e) (parent (head b)) = Ret h'"
        by (auto simp: block_at_loop.simps [of _ i n] Let_def res_simps)
      with step c h' True ApiWalk show ?thesis by (auto simp: locked_read_def split: if_splits)
    next
      case False
      with h' step ApiWalk show ?thesis by (auto simp: block_at_loop.simps [of _ i n])
    qed
  next
    case (ApiState i t h)
    with r obtain s where s: "block_below X (blockchain ?nd) t i h" "block_state ?nd h = Some s" by auto
    obtain bs where bs: "replayed X U s0 h bs s" by (rule states_right_replayed [OF sr s(2)])
    have "reader_step sh r = (sh, ApiAnswer i t s)" using c s ApiState by (simp add: locked_read_def)
    moreover have "reader_holds X U s0 ?nd (ApiAnswer i t s)" unfolding reader_holds.simps using s bs by blast
    ultimately show ?thesis using step by simp
  next
    case (ApiAnswer i t s)
    with step r show ?thesis by (metis Pair_inject reader_step.simps(8))
  qed (use r step c tips in \<open>auto simp: locked_read_def Let_def Blockchain_tip_def split: if_splits\<close>)
qed

end
