(* ===== verification/Threads.thy ===== *)
theory Threads
  imports Prelude
begin

text \<open>
  Threads that interleave over a shared state. The locale \<open>interference\<close> states the
  method of Owicki and Gries: every thread position carries an assertion about the shared
  state, a step keeps the shared invariant and leads to a position whose assertion holds,
  and no assertion is invalidated by what a step of another thread can change. What a step
  can change is the relation \<open>grows\<close>.
\<close>

locale interference =
  fixes step :: "'g \<Rightarrow> 'l \<Rightarrow> 'g \<times> 'l"
    and inv :: "'g \<Rightarrow> bool"
    and holds :: "'g \<Rightarrow> 'l \<Rightarrow> bool"
    and grows :: "'g \<Rightarrow> 'g \<Rightarrow> bool"
  assumes step_inv: "inv g \<Longrightarrow> holds g l \<Longrightarrow> step g l = (g', l') \<Longrightarrow> inv g'"
    and step_holds: "inv g \<Longrightarrow> holds g l \<Longrightarrow> step g l = (g', l') \<Longrightarrow> holds g' l'"
    and step_grows: "inv g \<Longrightarrow> holds g l \<Longrightarrow> step g l = (g', l') \<Longrightarrow> grows g g'"
    and stable: "holds g l \<Longrightarrow> grows g g' \<Longrightarrow> holds g' l"
begin

definition all_hold :: "'g \<Rightarrow> ('k \<Rightarrow> 'l) \<Rightarrow> bool" where
  "all_hold g ths \<longleftrightarrow> inv g \<and> (\<forall>k. holds g (ths k))"

lemma all_hold_step:
  assumes "all_hold g ths" and "step g (ths k) = (g', l')"
  shows "all_hold g' (ths(k := l'))"
proof -
  have h: "inv g" "holds g (ths k)" "\<And>j. holds g (ths j)" using assms(1) by (simp_all add: all_hold_def)
  have "holds g' (ths j)" for j by (rule stable [OF h(3) step_grows [OF h(1,2) assms(2)]])
  with step_inv [OF h(1,2) assms(2)] step_holds [OF h(1,2) assms(2)] show ?thesis
    by (simp add: all_hold_def)
qed

lemma all_hold_shared:
  "all_hold g ths \<Longrightarrow> inv g' \<Longrightarrow> grows g g' \<Longrightarrow> all_hold g' ths"
  unfolding all_hold_def using stable by blast

lemma all_hold_thread: "all_hold g ths \<Longrightarrow> holds g l \<Longrightarrow> all_hold g (ths(k := l))"
  by (simp add: all_hold_def)

end

end
