(* ===== verification/Interleaving.thy ===== *)
theory Interleaving
  imports LockInv Threads
begin

text \<open>
  The threads of a node, interleaved at every lock section of the block tree and the ledger
  states. Any number of network workers, the miner with its worker, the generator and
  queries of the interface run; between two lock sections of one of them all the others may
  run. The locale \<open>interference\<close> is interpreted on their steps: what a thread knows about
  the shared state between two of its lock sections survives the steps of the others,
  because the hashes of the tree, with their headers and heights, and the hashes with a
  recorded state only grow.
\<close>

section \<open>The program\<close>

text \<open>
  \<open>attempted\<close> is the block the miner has built on the tip it has read, \<open>queue\<close> the
  channel to its worker.
\<close>

record Config =
  shared :: Shared
  threads :: "nat \<Rightarrow> Thread"
  attempted :: "Block option"
  queue :: "Block list"

definition starts :: "Thread \<Rightarrow> bool" where
  "starts th \<longleftrightarrow> (case th of
     Worker p l \<Rightarrow> p = Idle \<and> l = fresh_local
   | Reading GenTip \<Rightarrow> True
   | Reading (ApiTip i) \<Rightarrow> True
   | _ \<Rightarrow> False)"

text \<open>
  A step is a lock section of a thread, or the arrival of a message with blocks at an idle
  worker, of a mined block at the idle miner's worker, of a request at the interface. The
  miner reads the tip when it builds the header of an attempt, and sends the block later,
  if its hash is small enough. A thread of the interface that cannot send the longest chain
  panics with the lock of the tree in its hands, and poisons it. The mempool has its own
  lock and does not matter here: it changes arbitrarily.
\<close>

inductive lock_sys_step :: "Crates \<Rightarrow> Block set \<Rightarrow> Config \<Rightarrow> Config \<Rightarrow> bool" for X U where
  section_step: "thread_lock_step X (shared c) (threads c k) = (sh', th') \<Longrightarrow>
     lock_sys_step X U c (c\<lparr>shared := sh', threads := (threads c)(k := th')\<rparr>)"
| message_arrives: "threads c k = Worker Idle l \<Longrightarrow> set bs \<subseteq> U \<Longrightarrow> deliver_blocks bs l = (p, l') \<Longrightarrow>
     lock_sys_step X U c (c\<lparr>threads := (threads c)(k := Worker p l')\<rparr>)"
| miner_attempt: "BlockchainLock \<notin> sh_poisoned (shared c) \<Longrightarrow> attempt X (sh_node (shared c)) m inp millis \<in> U \<Longrightarrow>
     lock_sys_step X U c (c\<lparr>attempted := Some (attempt X (sh_node (shared c)) m inp millis)\<rparr>)"
| miner_sends: "attempted c = Some b \<Longrightarrow> hash_block X b \<le> genesis_difficulty \<Longrightarrow>
     lock_sys_step X U c (c\<lparr>attempted := None, queue := queue c @ [b]\<rparr>)"
| mined_arrives: "threads c k = Worker Idle l \<Longrightarrow> queue c = b # bs \<Longrightarrow> deliver_mined b l = (p, l') \<Longrightarrow>
     lock_sys_step X U c (c\<lparr>threads := (threads c)(k := Worker p l'), queue := bs\<rparr>)"
| request_arrives: "threads c k = Reading (ApiAnswer i t s) \<Longrightarrow>
     lock_sys_step X U c (c\<lparr>threads := (threads c)(k := Reading (ApiTip j))\<rparr>)"
| response_fails: "api_serve X (sh_node (shared c)) ord sent req = Ret (resp, effects, True) \<Longrightarrow>
     BlockchainLock \<notin> sh_poisoned (shared c) \<Longrightarrow>
     lock_sys_step X U c (c\<lparr>shared := (shared c)\<lparr>sh_poisoned := insert BlockchainLock (sh_poisoned (shared c))\<rparr>\<rparr>)"
| pool_changes: "lock_sys_step X U c (c\<lparr>shared := (shared c)\<lparr>sh_node := (sh_node (shared c))\<lparr>mempool := mp\<rparr>\<rparr>\<rparr>)"

inductive lock_reach :: "Crates \<Rightarrow> Block set \<Rightarrow> Config \<Rightarrow> bool" for X U where
  lock_init: "\<forall>k. starts (ths k) \<Longrightarrow>
     lock_reach X U \<lparr>shared = \<lparr>sh_node = init_node X, sh_poisoned = {}\<rparr>, threads = ths,
                     attempted = None, queue = []\<rparr>"
| lock_next: "lock_reach X U c \<Longrightarrow> lock_sys_step X U c c' \<Longrightarrow> lock_reach X U c'"

section \<open>Interference\<close>

definition thread_holds :: "Crates \<Rightarrow> Block set \<Rightarrow> State \<Rightarrow> Shared \<Rightarrow> Thread \<Rightarrow> bool" where
  "thread_holds X U s0 sh th \<longleftrightarrow>
     (case th of
        Worker p l \<Rightarrow> worker_holds X U s0 sh (p, l)
      | Reading r \<Rightarrow> reader_holds X U s0 (sh_node sh) r \<or>
          r = ReaderStopped UnwrapErr \<and> BlockchainLock \<in> sh_poisoned sh)"

lemma thread_lock_step_holds:
  assumes "hashes_sound X U" and "shared_ok X U s0 sh" and "thread_holds X U s0 sh th"
    and "thread_lock_step X sh th = (sh', th')"
  shows "shared_ok X U s0 sh' \<and> thread_holds X U s0 sh' th' \<and> shared_grows sh sh' \<and> sh_poisoned sh' = sh_poisoned sh"
proof (cases th)
  case (Worker p l)
  with assms(4) obtain p' l' where "lock_step X sh (p, l) = (sh', p', l')" "th' = Worker p' l'"
    by (auto split: prod.splits)
  with lock_step_holds [OF assms(1,2) _ this(1)] assms(3) Worker show ?thesis by (simp add: thread_holds_def)
next
  case (Reading r)
  with assms(4) obtain r' where r': "reader_step sh r = (sh', r')" "th' = Reading r'" by (auto split: prod.splits)
  show ?thesis
  proof (cases "reader_holds X U s0 (sh_node sh) r")
    case True
    with reader_step_holds [OF assms(2) True r'(1)] assms(2) r'(2) show ?thesis by (auto simp: thread_holds_def)
  next
    case False
    with assms(2,3) Reading r' show ?thesis by (auto simp: thread_holds_def)
  qed
qed

lemma thread_grows:
  "thread_holds X U s0 sh th \<Longrightarrow> shared_grows sh sh' \<Longrightarrow> thread_holds X U s0 sh' th"
  by (cases th) (auto simp: thread_holds_def worker_holds_def shared_grows_def intro: locals_grow pos_grows reader_grows)

text \<open>
  The assertions are those of a sound set of blocks; without one nothing is asserted, so
  that the interpretation has no hypothesis.
\<close>

interpretation lk: interference "thread_lock_step X"
  "\<lambda>sh. hashes_sound X U \<and> shared_ok X U s0 sh" "thread_holds X U s0" shared_grows
  for X U s0
  by unfold_locales (use thread_lock_step_holds in blast, use thread_lock_step_holds in blast,
    use thread_lock_step_holds in blast, erule (1) thread_grows)

definition miner_block :: "Block set \<Rightarrow> Node \<Rightarrow> Block \<Rightarrow> bool" where
  "miner_block U nd b \<longleftrightarrow> b \<in> U \<and> difficulty (head b) = genesis_difficulty \<and>
     blocks (blockchain nd) (parent (head b)) \<noteq> None"

definition config_ok :: "Crates \<Rightarrow> Block set \<Rightarrow> State \<Rightarrow> Config \<Rightarrow> bool" where
  "config_ok X U s0 c \<longleftrightarrow> lk.all_hold X U s0 (shared c) (threads c) \<and>
     (\<forall>b\<in>set_option (attempted c). miner_block U (sh_node (shared c)) b) \<and>
     (\<forall>b\<in>set (queue c). miner_block U (sh_node (shared c)) b \<and> hash_block X b \<le> genesis_difficulty)"

lemma miner_block_grows: "node_grows nd nd' \<Longrightarrow> miner_block U nd b \<Longrightarrow> miner_block U nd' b"
  unfolding miner_block_def using known_grows by blast

lemma config_ok_shared: "config_ok X U s0 c \<Longrightarrow> shared_ok X U s0 (shared c)"
  by (simp add: config_ok_def lk.all_hold_def)

lemma config_ok_thread: "config_ok X U s0 c \<Longrightarrow> thread_holds X U s0 (shared c) (threads c k)"
  by (simp add: config_ok_def lk.all_hold_def)

lemma config_ok_deliver:
  "config_ok X U s0 c \<Longrightarrow> thread_holds X U s0 (shared c) th \<Longrightarrow> config_ok X U s0 (c\<lparr>threads := (threads c)(k := th)\<rparr>)"
  unfolding config_ok_def by (auto intro: lk.all_hold_thread simp del: fun_upd_apply)

lemma shared_ok_mempool:
  "shared_ok X U s0 (sh\<lparr>sh_node := (sh_node sh)\<lparr>mempool := mp\<rparr>\<rparr>) \<longleftrightarrow> shared_ok X U s0 sh"
  by (simp add: shared_ok_def states_right_def)

lemma config_ok_grow:
  assumes "config_ok X U s0 c" and "shared_ok X U s0 sh" and "shared_grows (shared c) sh"
  shows "config_ok X U s0 (c\<lparr>shared := sh\<rparr>)"
proof -
  have h: "lk.all_hold X U s0 (shared c) (threads c)" using assms(1) by (simp add: config_ok_def)
  then have "hashes_sound X U \<and> shared_ok X U s0 sh" using assms(2) by (simp add: lk.all_hold_def)
  from lk.all_hold_shared [OF h this assms(3)] have "lk.all_hold X U s0 sh (threads c)" .
  with assms(1,3) show ?thesis by (auto simp: config_ok_def shared_grows_def intro: miner_block_grows)
qed

lemma lock_step_config:
  assumes "lock_sys_step X U c c'" and ok: "config_ok X U s0 c"
  shows "config_ok X U s0 c'"
  using assms(1)
proof cases
  case (section_step k sh' th')
  have h: "lk.all_hold X U s0 (shared c) (threads c)" using ok by (simp add: config_ok_def)
  have "shared_grows (shared c) sh'"
    using h section_step(2) lk.step_grows by (simp add: lk.all_hold_def) blast
  with lk.all_hold_step [OF h section_step(2)] ok section_step(1) show ?thesis
    by (auto simp: config_ok_def shared_grows_def intro: miner_block_grows simp del: fun_upd_apply)
next
  case (message_arrives k l bs p l')
  have "worker_holds X U s0 (shared c) (Idle, l)"
    using config_ok_thread [OF ok, of k] message_arrives(2) by (simp add: thread_holds_def)
  then have "thread_holds X U s0 (shared c) (Worker p l')"
    using message_arrives(3,4) by (auto simp: thread_holds_def worker_holds_def locals_hold_def deliver_blocks_def)
  with config_ok_deliver [OF ok] message_arrives(1) show ?thesis by simp
next
  case (miner_attempt m inp millis)
  obtain e where "blocks (blockchain (sh_node (shared c))) (tip (blockchain (sh_node (shared c)))) = Some e"
    using config_ok_shared [OF ok] by (auto simp: shared_ok_def tree_right_def chain_inv_def tip_inv_def)
  with miner_attempt ok show ?thesis by (simp add: config_ok_def miner_block_def attempt_def)
next
  case (miner_sends b)
  with ok show ?thesis by (auto simp: config_ok_def)
next
  case (mined_arrives k l b bs p l')
  let ?nd = "sh_node (shared c)"
  have b: "miner_block U ?nd b" "hash_block X b \<le> genesis_difficulty"
    using ok mined_arrives(3) by (simp_all add: config_ok_def)
  then obtain pb pn where p: "blocks (blockchain ?nd) (parent (head b)) = Some (pb, pn)"
    by (auto simp: miner_block_def)
  then have "difficulty (head pb) = genesis_difficulty"
    using config_ok_shared [OF ok] by (auto simp: shared_ok_def tree_right_def pow_inv_def)
  with b p have "good_block X U b" "fits ?nd b" by (auto simp: good_block_def fits_def miner_block_def)
  moreover have "worker_holds X U s0 (shared c) (Idle, l)"
    using config_ok_thread [OF ok, of k] mined_arrives(2) by (simp add: thread_holds_def)
  ultimately have "thread_holds X U s0 (shared c) (Worker p l')"
    using mined_arrives(4) by (auto simp: thread_holds_def worker_holds_def locals_hold_def deliver_mined_def in_loop_def)
  with config_ok_deliver [OF ok, of "Worker p l'" k] mined_arrives(1,3) show ?thesis
    by (simp add: config_ok_def)
next
  case (request_arrives k i t s j)
  with config_ok_deliver [OF ok, of "Reading (ApiTip j)" k] show ?thesis by (simp add: thread_holds_def)
next
  case (response_fails ord sent req resp effects)
  let ?sh = "(shared c)\<lparr>sh_poisoned := insert BlockchainLock (sh_poisoned (shared c))\<rparr>"
  have "shared_ok X U s0 ?sh" using config_ok_shared [OF ok] by (simp add: shared_ok_def)
  moreover have "shared_grows (shared c) ?sh" by (auto simp: shared_grows_def)
  ultimately show ?thesis unfolding response_fails(1) by (rule config_ok_grow [OF ok])
next
  case (pool_changes mp)
  let ?sh = "(shared c)\<lparr>sh_node := (sh_node (shared c))\<lparr>mempool := mp\<rparr>\<rparr>"
  have "shared_ok X U s0 ?sh" using config_ok_shared [OF ok] by (simp add: shared_ok_mempool)
  moreover have "shared_grows (shared c) ?sh" by (simp add: shared_grows_def node_grows_def)
  ultimately show ?thesis unfolding pool_changes by (rule config_ok_grow [OF ok])
qed

lemma lock_reach_ok:
  assumes "hashes_sound X U"
  shows "lock_reach X U c \<Longrightarrow> config_ok X U (State_new X (all_public_keys ! 0)) c"
proof (induction rule: lock_reach.induct)
  case (lock_init ths)
  let ?s0 = "State_new X (all_public_keys ! 0)"
  have "thread_holds X U ?s0 \<lparr>sh_node = init_node X, sh_poisoned = {}\<rparr> (ths k)" for k
    using spec [OF lock_init, of k]
    by (auto simp: starts_def thread_holds_def worker_holds_def locals_hold_def worker_ok_def orphans_pow_def
        fresh_local_def split: Thread.splits Reader.splits)
  with assms shared_ok_init [OF assms]
  have "lk.all_hold X U ?s0 \<lparr>sh_node = init_node X, sh_poisoned = {}\<rparr> ths"
    unfolding lk.all_hold_def by blast
  then show ?case by (simp add: config_ok_def)
next
  case (lock_next c c')
  then show ?case by (blast intro: lock_step_config)
qed

lemma lock_reach_right:
  assumes "hashes_sound X U" and "lock_reach X U c"
  shows "tree_right X U (blockchain (sh_node (shared c)))"
    and "states_right X U (State_new X (all_public_keys ! 0)) (sh_node (shared c))"
  using config_ok_shared [OF lock_reach_ok [OF assms]] by (simp_all add: shared_ok_def)

lemma lock_reach_node:
  assumes "universe_sound X U" and "lock_reach X U c"
  shows "node_ok X U (State_new X (all_public_keys ! 0)) (sh_node (shared c))"
  by (rule node_ok_shared [OF assms(1) lock_reach_right [OF universe_hashes [OF assms(1)] assms(2)]])

lemma lock_reach_safe:
  assumes "hashes_sound X U" and "lock_reach X U c"
  shows "chain_inv X (blockchain (sh_node (shared c)))" and "node_safe (sh_node (shared c))"
  using lock_reach_right [OF assms] states_right_known
  by (auto simp: tree_right_def chain_inv_def tip_inv_def node_safe_iff states_right_def)

text \<open>
  The state recorded for a block on whose path the replayed blocks lie; when there is one
  content to a header, they are the blocks of the tree.
\<close>

lemma chain_replay:
  assumes sound: "hashes_sound X U" and reach: "lock_reach X U c" and nd: "nd = sh_node (shared c)"
    and path: "chain_to X (blockchain nd) hs h"
  obtains bs s where "block_state nd h = Some s" "set bs \<subseteq> U" "map (hash_block X) bs = tl hs"
    "check_txs X (State_new X (all_public_keys ! 0)) (blocks_txs bs) = Ret (Some s)"
    "one_content U \<longrightarrow> blocks_txs bs = path_txs (blockchain nd) hs"
proof -
  note tr = lock_reach_right(1) [OF sound reach, folded nd] and sr = lock_reach_right(2) [OF sound reach, folded nd]
  have inv: "chain_inv X (blockchain nd)" using tr by (simp add: tree_right_def)
  obtain e where "blocks (blockchain nd) h = Some e" using chain_to_height [OF inv path] by blast
  then obtain s where s: "block_state nd h = Some s" using states_right_known [OF sr] by blast
  then obtain bs where bs: "replayed X U (State_new X (all_public_keys ! 0)) h bs s" by (rule states_right_replayed [OF sr])
  note hashes = replayed_path [OF sound tr bs path]
  have "blocks_txs bs = path_txs (blockchain nd) hs" if one: "one_content U"
  proof -
    have "fst (the (blocks (blockchain nd) (hash_block X b))) = b" if b: "b \<in> set bs" for b
    proof -
      have "hash_block X b \<in> set (tl hs)" using b hashes by (metis image_eqI list.set_map)
      then have "hash_block X b \<in> set hs" by (cases hs) simp_all
      then obtain b' n where e: "blocks (blockchain nd) (hash_block X b) = Some (b', n)"
        using chain_to_known [OF inv path] by fastforce
      have "b' = b"
        using same_hash [of X U b' b] tree_right_block [OF tr e] replayed_blocks [OF bs] b sound one
        by (auto simp: universe_sound_def)
      with e show ?thesis by simp
    qed
    then show ?thesis unfolding blocks_txs_def path_txs_def hashes [symmetric] map_map
      by (intro arg_cong [where f = concat] map_cong) simp_all
  qed
  with s replayed_blocks [OF bs] hashes replayed_txs [OF bs] show thesis by (intro that) blast+
qed

definition thread_stopped :: "Thread \<Rightarrow> panic option" where
  "thread_stopped th = (case th of Worker (Stopped e) l \<Rightarrow> Some e | Reading (ReaderStopped e) \<Rightarrow> Some e | _ \<Rightarrow> None)"

text \<open>A thread running alone is one of the interleavings.\<close>

lemma lock_reach_run:
  "((\<lambda>(sh, t). lock_step X sh t) ^^ j) (shared c, p, l) = (sh', p', l') \<Longrightarrow> lock_reach X U c \<Longrightarrow>
     threads c k = Worker p l \<Longrightarrow> \<exists>c'. lock_reach X U c' \<and> shared c' = sh' \<and> threads c' = (threads c)(k := Worker p' l')"
proof (induction j arbitrary: c p l)
  case 0
  then have "(threads c)(k := Worker p' l') = threads c" by (simp add: fun_upd_idem)
  with 0 show ?case by (intro exI [of _ c]) simp
next
  case (Suc j)
  obtain sh1 p1 l1 where s: "lock_step X (shared c) (p, l) = (sh1, p1, l1)" by (metis surj_pair)
  let ?c = "c\<lparr>shared := sh1, threads := (threads c)(k := Worker p1 l1)\<rparr>"
  have "lock_sys_step X U c ?c" by (rule section_step) (simp add: Suc.prems(3) s)
  then have "lock_reach X U ?c" using Suc.prems(2) lock_next by blast
  moreover have "((\<lambda>(sh, t). lock_step X sh t) ^^ j) (shared ?c, p1, l1) = (sh', p', l')"
    using Suc.prems(1) s by (simp add: funpow_Suc_right del: funpow.simps)
  moreover have "(threads ?c)(k := Worker p' l') = (threads c)(k := Worker p' l')" by simp
  ultimately show ?case using Suc.IH [of ?c p1 l1] by (metis Config.select_convs(1,2) Config.surjective Config.update_convs(1,2) fun_upd_same)
qed

text \<open>The example: one worker, and readers.\<close>

definition demo_threads :: "nat \<Rightarrow> Thread" where
  "demo_threads k = (if k = 0 then Worker Idle fresh_local else Reading GenTip)"

definition demo_config :: Config where
  "demo_config = \<lparr>shared = \<lparr>sh_node = init_node (demo_crates False), sh_poisoned = {}\<rparr>, threads = demo_threads,
     attempted = None, queue = []\<rparr>"

lemma demo_config_reach: "lock_reach (demo_crates False) U demo_config"
  unfolding demo_config_def by (rule lock_init) (simp add: starts_def demo_threads_def)

lemma demo_lock_received:
  assumes "check_txs (demo_crates False) (State_new (demo_crates False) (all_public_keys ! 0)) txs = Ret (Some s)"
  obtains c n where "lock_reach (demo_crates False) {genesis, demo_block 1 (pad32 [0, 1, 0]) txs} c"
    "blocks (blockchain (sh_node (shared c))) (pad32 [0, 2, 1]) = Some (demo_block 1 (pad32 [0, 1, 0]) txs, n)"
proof -
  let ?X = "demo_crates False" and ?b = "demo_block 1 (pad32 [0, 1, 0]) txs"
  obtain p0 l0 where d: "deliver_blocks [?b] fresh_local = (p0, l0)" by (cases "deliver_blocks [?b] fresh_local")
  let ?c = "demo_config\<lparr>threads := (threads demo_config)(0 := Worker p0 l0)\<rparr>"
  have "lock_sys_step ?X {genesis, ?b} demo_config ?c"
    by (rule message_arrives [OF _ _ d]) (simp_all add: demo_config_def demo_threads_def)
  with demo_config_reach have r: "lock_reach ?X {genesis, ?b} ?c" by (rule lock_next)
  obtain nd' os' out n where m: "handle_message ?X (init_node ?X) [] (Blocks [?b]) = Ret (nd', os', out)"
    "blocks (blockchain nd') (pad32 [0, 2, 1]) = Some (?b, n)" by (rule demo_received [OF assms])
  then have "handle_Blocks ?X (init_node ?X) (orphan_blocks fresh_local) [?b] = Ret (nd', os', out)"
    by (simp add: fresh_local_def)
  from runs_handle_Blocks [OF this] obtain l' where "runs ?X (init_node ?X, p0, l0) (nd', Idle, l')"
    using d by auto
  from runs_locked [OF this] obtain j where
    "((\<lambda>(sh, t). lock_step ?X sh t) ^^ j) (\<lparr>sh_node = init_node ?X, sh_poisoned = {}\<rparr>, p0, l0) =
      (\<lparr>sh_node = nd', sh_poisoned = {}\<rparr>, Idle, l')" by (auto simp: locked_runs_def)
  from lock_reach_run [OF _ r, of j p0 l0 _ _ _ 0] this obtain c' where
    "lock_reach ?X {genesis, ?b} c'" "shared c' = \<lparr>sh_node = nd', sh_poisoned = {}\<rparr>"
    by (auto simp: demo_config_def)
  with m(2) show thesis by (intro that [of c' n]) simp_all
qed

lemma demo_lock_run:
  obtains c n where "lock_reach (demo_crates False) {genesis, demo_b1} c"
    "blocks (blockchain (sh_node (shared c))) (pad32 [0, 2, 1]) = Some (demo_b1, n)"
  by (rule demo_lock_received [of "[]"]) simp_all

section \<open>Properties\<close>

text \<open>
  The ledger survives every interleaving. Whatever the order in which network
  workers, the miner, its worker, the generator and the interface take the locks on the
  block tree and the ledger states: the lock of the states is never poisoned, and the lock
  of the tree at most by a response that fails; a thread panics only at that lock when it is
  poisoned, or by an arithmetic overflow in a build with overflow checks, holding no lock;
  the longest-chain query returns the path to the tip, and the state recorded for the tip is
  the replay of blocks with the hashes of that path.
\<close>

theorem ledger_in_every_interleaving:
  assumes "lock_reach X U c" and "hashes_sound X U" and "nd = sh_node (shared c)"
  shows "sh_poisoned (shared c) \<subseteq> {BlockchainLock} \<and>
    (\<forall>k e. thread_stopped (threads c k) = Some e \<longrightarrow>
       overflow_checks X \<and> e = ArithmeticOverflow \<or> e = UnwrapErr \<and> BlockchainLock \<in> sh_poisoned (shared c)) \<and>
    (\<exists>hs bs s. all_blocks_in_longest_chain (blockchain nd) = Ret hs \<and>
       chain_to X (blockchain nd) hs (tip (blockchain nd)) \<and>
       block_state nd (tip (blockchain nd)) = Some s \<and> set bs \<subseteq> U \<and> map (hash_block X) bs = tl hs \<and>
       check_txs X (State_new X (all_public_keys ! 0)) (blocks_txs bs) = Ret (Some s) \<and>
       (one_content U \<longrightarrow> blocks_txs bs = path_txs (blockchain nd) hs))"
proof -
  note ok = lock_reach_ok [OF assms(2,1)]
  have "sh_poisoned (shared c) \<subseteq> {BlockchainLock}" using config_ok_shared [OF ok] by (simp add: shared_ok_def)
  moreover have "overflow_checks X \<and> e = ArithmeticOverflow \<or> e = UnwrapErr \<and> BlockchainLock \<in> sh_poisoned (shared c)"
    if "thread_stopped (threads c k) = Some e" for k e
    using config_ok_thread [OF ok, of k] that
    by (auto simp: thread_holds_def worker_holds_def thread_stopped_def split: Thread.splits Position.splits Reader.splits)
  moreover obtain hs where hs: "all_blocks_in_longest_chain (blockchain nd) = Ret hs"
    "chain_to X (blockchain nd) hs (tip (blockchain nd))"
    using lock_reach_safe(1) [OF assms(2,1)] assms(3) longest_chain_tip by blast
  moreover obtain bs s where "block_state nd (tip (blockchain nd)) = Some s" "set bs \<subseteq> U" "map (hash_block X) bs = tl hs"
    "check_txs X (State_new X (all_public_keys ! 0)) (blocks_txs bs) = Ret (Some s)"
    "one_content U \<longrightarrow> blocks_txs bs = path_txs (blockchain nd) hs"
    by (rule chain_replay [OF assms(2,1,3) hs(2)])
  ultimately show ?thesis by blast
qed



lemma path_agrees:
  assumes sound: "hashes_sound X U" and ok: "tree_right X U c" "tree_right X U c'"
  shows "chain_to X c hs h \<Longrightarrow> blocks c' h \<noteq> None \<Longrightarrow> chain_to X c' hs h"
proof (induction rule: chain_to.induct)
  case chain_root
  show ?case by (rule chain_to.chain_root)
next
  case (chain_step hs b h n)
  then obtain b' n' where e: "blocks c' h = Some (b', n')" by auto
  have b: "head b' = head b"
    using same_header [OF sound tree_right_block(1) [OF ok(2) e] tree_right_block(1) [OF ok(1) chain_step.hyps(2)]]
      tree_right_block(2) [OF ok(2) e] tree_right_block(2) [OF ok(1) chain_step.hyps(2)] by simp
  have tree: "tree_inv X (blocks c')" using ok(2) by (simp add: tree_right_def chain_inv_def)
  have "n' \<noteq> 0" using tree_inv_root [OF tree] e chain_step.hyps(3) by blast
  from tree_inv_parent [OF tree e this] b have "blocks c' (parent (head b)) \<noteq> None" by auto
  with chain_step.IH b chain_to.chain_step [OF _ e chain_step.hyps(3)] show ?case by simp
qed

text \<open>
  C4: Two nodes agree. If two nodes whose blocks come from the same set, each in an
  interleaving of its own, both have a block of some hash, then they have blocks with the
  same header there, at the same height; if moreover both have it as their tip, their
  longest chains are the same hashes. When no two blocks of the set share a header, they
  have the same block there, with the same recorded ledger; otherwise they need not, since
  the hash does not cover the transactions. The blocks of the set have fewer than \<open>2 ^ 32\<close>
  headers, with different hashes other than zero.
\<close>

theorem nodes_agree:
  assumes "lock_reach X U c" and "lock_reach X U c'" and "hashes_sound X U"
    and "nd = sh_node (shared c)" and "nd' = sh_node (shared c')"
    and "blocks (blockchain nd) h = Some (b, n)" and "blocks (blockchain nd') h = Some (b', n')"
  shows "head b' = head b \<and> n' = n \<and>
    (tip (blockchain nd) = h \<and> tip (blockchain nd') = h \<longrightarrow>
       all_blocks_in_longest_chain (blockchain nd) = all_blocks_in_longest_chain (blockchain nd')) \<and>
    (one_content U \<longrightarrow> b' = b \<and> block_state nd h = block_state nd' h)"
proof -
  note tr = lock_reach_right(1) [OF assms(3,1), folded assms(4)] and tr' = lock_reach_right(1) [OF assms(3,2), folded assms(5)]
  note sr = lock_reach_right(2) [OF assms(3,1), folded assms(4)] and sr' = lock_reach_right(2) [OF assms(3,2), folded assms(5)]
  note e = assms(6,7)
  have inv: "chain_inv X (blockchain nd)" "chain_inv X (blockchain nd')" using tr tr' by (simp_all add: tree_right_def)
  have head: "head b' = head b"
    using same_header [OF assms(3) tree_right_block(1) [OF tr' e(2)] tree_right_block(1) [OF tr e(1)]]
      tree_right_block(2) [OF tr' e(2)] tree_right_block(2) [OF tr e(1)] by simp
  obtain hs where hs: "chain_to X (blockchain nd) hs h"
    using longest_loop_chain [OF conjunct1 [OF inv(1) [unfolded chain_inv_def]] e(1)] by blast
  have hs': "chain_to X (blockchain nd') hs h" using path_agrees [OF assms(3) tr tr' hs] e(2) by simp
  have n: "n' = n" using chain_to_height [OF inv(1) hs] chain_to_height [OF inv(2) hs'] e by (auto simp: word_unat_eq_iff)
  have "all_blocks_in_longest_chain (blockchain nd) = all_blocks_in_longest_chain (blockchain nd')"
    if "tip (blockchain nd) = h" "tip (blockchain nd') = h"
    using all_blocks_chain [OF inv(1), of hs] all_blocks_chain [OF inv(2), of hs] hs hs' that by simp
  moreover have "b' = b \<and> block_state nd h = block_state nd' h" if "one_content U"
  proof -
    have sound: "universe_sound X U" using assms(3) that by (simp add: universe_sound_def)
    have "b' = b" using that head tree_right_block(1) [OF tr' e(2)] tree_right_block(1) [OF tr e(1)]
      by (auto simp: one_content_def dest: inj_onD)
    moreover obtain s s' where s: "block_state nd h = Some s" "block_state nd' h = Some s'"
      using states_right_known [OF sr e(1)] states_right_known [OF sr' e(2)] by blast
    moreover obtain bs bs' where "replayed X U (State_new X (all_public_keys ! 0)) h bs s"
      "replayed X U (State_new X (all_public_keys ! 0)) h bs' s'"
      using states_right_replayed [OF sr s(1)] states_right_replayed [OF sr' s(2)] by metis
    ultimately show ?thesis using replayed_unique [OF sound] by metis
  qed
  ultimately show ?thesis using head n by blast
qed

theorem nodes_agree_witness:
  "\<exists>c c' b n. lock_reach (demo_crates False) {genesis, demo_b1} c \<and> lock_reach (demo_crates False) {genesis, demo_b1} c' \<and>
     blocks (blockchain (sh_node (shared c))) (pad32 [0, 1, 0]) = Some (b, n) \<and>
     blocks (blockchain (sh_node (shared c'))) (pad32 [0, 1, 0]) = Some (b, n) \<and>
     block_state (sh_node (shared c)) (pad32 [0, 1, 0]) = block_state (sh_node (shared c')) (pad32 [0, 1, 0]) \<and>
     blocks (blockchain (sh_node (shared c))) \<noteq> blocks (blockchain (sh_node (shared c')))"
proof -
  let ?X = "demo_crates False" and ?U = "{genesis, demo_b1}" and ?h = "pad32 [0, 1, 0]"
  obtain c n where c: "lock_reach ?X ?U c" "blocks (blockchain (sh_node (shared c))) (pad32 [0, 2, 1]) = Some (demo_b1, n)"
    by (rule demo_lock_run)
  have u: "universe_sound ?X ?U" by (rule demo_universe)
  then have "hashes_sound ?X ?U" "one_content ?U" by (simp_all add: universe_sound_def)
  note sound = this
  have "chain_inv ?X (blockchain (sh_node (shared c)))" by (rule lock_reach_safe(1) [OF sound(1) c(1)])
  then obtain b m where e: "blocks (blockchain (sh_node (shared c))) ?h = Some (b, m)"
    using tree_inv_genesis by (fastforce simp: chain_inv_def)
  have e': "blocks (blockchain (sh_node (shared demo_config))) ?h = Some (genesis, 0)"
    by (simp add: demo_config_def Blockchain_new_def Let_def)
  have "blocks (blockchain (sh_node (shared demo_config))) (pad32 [0, 2, 1]) = None"
    by (simp add: demo_config_def Blockchain_new_def Let_def)
  with c(2) have "blocks (blockchain (sh_node (shared c))) \<noteq> blocks (blockchain (sh_node (shared demo_config)))" by auto
  with nodes_agree [OF c(1) demo_config_reach sound(1) refl refl e e'] sound(2) e e'
    c(1) demo_config_reach show ?thesis by metis
qed



end
