(* ===== verification/MinerLocks.thy ===== *)
theory MinerLocks
  imports Miner
begin

text \<open>
  The miner at the granularity of the locks. A turn of \<open>miner_loop\<close> of
  \<open>src/src/miner/mod.rs\<close> takes the mempool's lock to select transactions, the lock of the
  block tree for the header, and the mempool's again for every transaction it removes. Here
  it is taken apart there; run on its own, the thread does what the one-step turn does.
\<close>

section \<open>The program\<close>

text \<open>
  What the thread does next: react to a signal, select transactions, build the block, hand
  it to the worker, remove a transaction, count the turn; or it has returned or panicked.
\<close>

datatype MinerPos =
    MinerTop
  | MinerSelect
  | MinerBuild u128
  | MinerSend Block
  | MinerRemove "H256 list"
  | MinerCount
  | MinerReturned
  | MinerPanicked panic

text \<open>
  The flags say whether the lock of the tree and the mempool's are poisoned. No section of
  the miner panics while it holds a lock.
\<close>

fun miner_lock_step ::
  "Crates \<Rightarrow> bool \<Rightarrow> bool \<Rightarrow> MinerInput \<Rightarrow> Node \<Rightarrow> MinerPos \<times> Miner \<Rightarrow> Node \<times> (MinerPos \<times> Miner) \<times> Block option" where
  "miner_lock_step X tree_bad pool_bad inp nd (MinerTop, m) =
     (nd, (case operating_state m of
        Paused \<Rightarrow>
          (case signal inp of
             Received s \<Rightarrow> (MinerTop, m\<lparr>operating_state := miner_react Paused s\<rparr>)
           | Nothing \<Rightarrow> (MinerTop, m)
           | Disconnected \<Rightarrow> (MinerPanicked UnwrapErr, m))
      | ShutDown \<Rightarrow> (MinerReturned, m)
      | Run i \<Rightarrow>
          (case signal inp of
             Received s \<Rightarrow>
               (let m' = m\<lparr>operating_state := miner_react (Run i) s\<rparr>
                in (if operating_state m' = ShutDown then MinerReturned else MinerSelect, m'))
           | Nothing \<Rightarrow> (MinerSelect, m)
           | Disconnected \<Rightarrow> (MinerPanicked Explicit, m))), None)"
| "miner_lock_step X tree_bad pool_bad inp nd (MinerSelect, m) =
     (nd, (case clock inp of
        None \<Rightarrow> (MinerPanicked Explicit, m)
      | Some millis \<Rightarrow>
          (if length (to_remove m) = 0
           then if pool_bad then (MinerPanicked UnwrapErr, m)
                else (let (rem, txs) = select_loop (order inp) (to_remove m) (picked m)
                      in (MinerBuild millis, m\<lparr>to_remove := rem, picked := txs\<rparr>))
           else (MinerBuild millis, m))), None)"
| "miner_lock_step X tree_bad pool_bad inp nd (MinerBuild millis, m) =
     (nd, (if tree_bad then (MinerPanicked UnwrapErr, m)
           else case candidate X (picked m) (Blockchain_tip (blockchain nd)) (rnd inp) millis of
                  None \<Rightarrow> (MinerBuild millis, m)
                | Some (Panic e) \<Rightarrow> (MinerPanicked e, m)
                | Some (Ret block) \<Rightarrow>
                    (if hash_block X block \<le> miner_difficulty then MinerSend block else MinerCount, m)), None)"
| "miner_lock_step X tree_bad pool_bad inp nd (MinerSend block, m) =
     (if receiver_alive inp then (nd, (MinerRemove (to_remove m), m), Some block)
      else (nd, (MinerPanicked ChannelClosed, m), None))"
| "miner_lock_step X tree_bad pool_bad inp nd (MinerRemove [], m) =
     (nd, (MinerCount, m\<lparr>to_remove := [], picked := []\<rparr>), None)"
| "miner_lock_step X tree_bad pool_bad inp nd (MinerRemove (h # hs), m) =
     (if pool_bad then (nd, (MinerPanicked UnwrapErr, m), None)
      else (nd\<lparr>mempool := (mempool nd)\<lparr>trans := (trans (mempool nd))(h := None)\<rparr>\<rparr>, (MinerRemove hs, m), None))"
| "miner_lock_step X tree_bad pool_bad inp nd (MinerCount, m) =
     (nd, (case inc_i32 (overflow_checks X) (count m) of
             Ret c \<Rightarrow> (MinerTop, m\<lparr>count := c\<rparr>)
           | Panic e \<Rightarrow> (MinerPanicked e, m)), None)"
| "miner_lock_step X tree_bad pool_bad inp nd (MinerReturned, m) = (nd, (MinerReturned, m), None)"
| "miner_lock_step X tree_bad pool_bad inp nd (MinerPanicked e, m) = (nd, (MinerPanicked e, m), None)"

section \<open>A turn on its own\<close>

text \<open>Steps of the thread with no lock poisoned and the given surroundings; the list is the channel.\<close>

inductive miner_alone ::
  "Crates \<Rightarrow> MinerInput \<Rightarrow> Node \<times> (MinerPos \<times> Miner) \<times> Block list \<Rightarrow> Node \<times> (MinerPos \<times> Miner) \<times> Block list \<Rightarrow> bool"
  for X inp where
  alone_done: "miner_alone X inp u u"
| alone_step: "miner_lock_step X False False inp nd t = (nd1, t1, sent) \<Longrightarrow>
     miner_alone X inp (nd1, t1, bs @ (case sent of None \<Rightarrow> [] | Some b \<Rightarrow> [b])) v \<Longrightarrow> miner_alone X inp (nd, t, bs) v"

lemma alone_silent:
  "miner_lock_step X False False inp nd t = (nd1, t1, None) \<Longrightarrow> miner_alone X inp (nd1, t1, bs) v \<Longrightarrow>
     miner_alone X inp (nd, t, bs) v"
  using alone_step [of X inp nd t nd1 t1 None bs v] by simp

lemma alone_removal:
  "miner_alone X inp (nd\<lparr>mempool := remove_mined hs (mempool nd)\<rparr>, (MinerRemove [], m), bs) v \<Longrightarrow>
     miner_alone X inp (nd, (MinerRemove hs, m), bs) v"
proof (induction hs arbitrary: nd)
  case (Cons h hs)
  let ?nd = "nd\<lparr>mempool := (mempool nd)\<lparr>trans := (trans (mempool nd))(h := None)\<rparr>\<rparr>"
  have "miner_lock_step X False False inp nd (MinerRemove (h # hs), m) = (?nd, (MinerRemove hs, m), None)" by simp
  moreover have "miner_alone X inp (?nd, (MinerRemove hs, m), bs) v"
    by (rule Cons.IH) (use Cons.prems in \<open>simp add: remove_mined_def\<close>)
  ultimately show ?case by (rule alone_silent)
qed (simp add: remove_mined_def)

lemma alone_one:
  "miner_lock_step X False False inp nd t = (nd1, t1, None) \<Longrightarrow> miner_alone X inp (nd, t, bs) (nd1, t1, bs)"
  by (rule alone_silent [OF _ alone_done])

lemma alone_mine_once:
  assumes "mine_once X nd m inp = Some (Ret (nd', m', sent))"
  shows "miner_alone X inp (nd, (MinerSelect, m), []) (nd', (MinerTop, m'), (case sent of None \<Rightarrow> [] | Some b \<Rightarrow> [b]))"
proof -
  let ?sel = "selection m inp" and ?m1 = "m\<lparr>to_remove := fst (selection m inp), picked := snd (selection m inp)\<rparr>"
  from assms obtain millis where ms: "clock inp = Some millis" by (auto simp: mine_once_eq split: option.splits)
  let ?b = "attempt X nd m inp millis"
  have sel: "miner_lock_step X False False inp nd (MinerSelect, m) = (nd, (MinerBuild millis, ?m1), None)"
    by (simp add: ms selection_def case_prod_unfold Let_def)
  have "candidate X (picked ?m1) (Blockchain_tip (blockchain nd)) (rnd inp) millis = Some (Ret ?b)"
    using candidate_eq [of X "snd ?sel"] by (simp add: attempt_def Blockchain_tip_def)
  then have build: "miner_lock_step X False False inp nd (MinerBuild millis, ?m1) =
      (nd, (if hash_block X ?b \<le> genesis_difficulty then MinerSend ?b else MinerCount, ?m1), None)" by simp
  show ?thesis
  proof (cases "hash_block X ?b \<le> genesis_difficulty")
    case True
    with assms ms obtain c where r: "receiver_alive inp" "inc_i32 (overflow_checks X) (count m) = Ret c"
      "nd' = nd\<lparr>mempool := remove_mined (fst ?sel) (mempool nd)\<rparr>" "sent = Some ?b"
      "m' = m\<lparr>to_remove := [], picked := [], count := c\<rparr>"
      by (auto simp: mine_once_eq Let_def res_simps split: if_splits)
    have "miner_alone X inp (nd', (MinerRemove [], ?m1), [?b]) (nd', (MinerTop, m'), [?b])"
      by (rule alone_silent, simp, rule alone_one) (use r in simp)
    then have "miner_alone X inp (nd, (MinerRemove (fst ?sel), ?m1), [?b]) (nd', (MinerTop, m'), [?b])"
      unfolding r(3) by (rule alone_removal)
    moreover have "miner_lock_step X False False inp nd (MinerSend ?b, ?m1) =
        (nd, (MinerRemove (fst ?sel), ?m1), Some ?b)" using r(1) by simp
    ultimately have "miner_alone X inp (nd, (MinerSend ?b, ?m1), []) (nd', (MinerTop, m'), [?b])"
      using alone_step [of X inp nd "(MinerSend ?b, ?m1)" nd "(MinerRemove (fst ?sel), ?m1)" "Some ?b" "[]"]
      by (simp del: miner_lock_step.simps)
    with alone_silent [OF sel alone_silent [OF build]] True r(4) show ?thesis by simp
  next
    case False
    with assms ms obtain c where r: "inc_i32 (overflow_checks X) (count m) = Ret c" "nd' = nd" "sent = None"
      "m' = ?m1\<lparr>count := c\<rparr>" by (auto simp: mine_once_eq Let_def res_simps split: if_splits)
    have "miner_alone X inp (nd, (MinerCount, ?m1), []) (nd', (MinerTop, m'), [])"
      by (rule alone_one) (use r in simp)
    with alone_silent [OF sel alone_silent [OF build]] False r(3) show ?thesis by simp
  qed
qed

text \<open>A turn, taken apart.\<close>

lemma alone_turn:
  assumes "miner_turn X nd m inp = Some (Ret (nd', m', sent))"
  shows "miner_alone X inp (nd, (MinerTop, m), [])
    (nd', (if operating_state m' = ShutDown then if operating_state m = Paused then MinerTop else MinerReturned
           else MinerTop, m'), (case sent of None \<Rightarrow> [] | Some b \<Rightarrow> [b]))"
proof (cases "operating_state m")
  case Paused
  with assms show ?thesis
    by (cases "signal inp") (auto simp: miner_turn_def intro!: alone_one)
next
  case ShutDown
  with assms show ?thesis by (auto simp: miner_turn_def intro!: alone_one)
next
  case (Run i)
  have work: ?thesis if once: "mine_once X nd m1 inp = Some (Ret (nd', m', sent))"
    and m1: "operating_state m1 \<noteq> ShutDown"
    and top: "miner_lock_step X False False inp nd (MinerTop, m) = (nd, (MinerSelect, m1), None)" for m1
  proof -
    have "operating_state m' = operating_state m1"
      using once by (auto simp: mine_once_eq Let_def res_simps split: option.splits if_splits)
    with alone_silent [OF top alone_mine_once [OF once]] m1 show ?thesis by simp
  qed
  show ?thesis
  proof (cases "signal inp")
    case (Received s)
    show ?thesis
    proof (cases "miner_react (Run i) s = ShutDown")
      case True
      with Run Received assms show ?thesis
        by (auto simp: miner_turn_def Let_def intro!: alone_one)
    next
      case False
      with Run Received assms show ?thesis
        by (intro work [of "m\<lparr>operating_state := miner_react (Run i) s\<rparr>"]) (simp_all add: miner_turn_def Let_def)
    qed
  next
    case Nothing
    with Run assms show ?thesis by (intro work [of m]) (simp_all add: miner_turn_def)
  next
    case Disconnected
    with Run assms show ?thesis by (simp add: miner_turn_def)
  qed
qed

end
