(* ===== verification/GeneratorLocks.thy ===== *)
theory GeneratorLocks
  imports Locks
begin

text \<open>
  The generator at the granularity of the locks. A turn of \<open>generator_loop\<close> of
  \<open>src/src/generator/tx_generator.rs\<close> takes the locks of the tree and of the ledger states,
  and the mempool's for the test and for the insertion. Here it is taken apart there; run on
  its own, the thread does what the one-step turn does.
\<close>

section \<open>The program\<close>

text \<open>
  What the thread does next: react to a signal, read the tip, fetch the state of a new tip,
  choose a payment, look for it in the mempool, store it, announce it; or it has returned or
  panicked.
\<close>

datatype GeneratorPos =
    GeneratorTop
  | GeneratorTip
  | GeneratorFetch H256
  | GeneratorChoose
  | GeneratorCheck SignedTransaction
  | GeneratorStore SignedTransaction
  | GeneratorAnnounce SignedTransaction
  | GeneratorReturned
  | GeneratorPanicked panic

text \<open>The local state after the payment, as the loop computes it.\<close>

definition spend_locally :: "Crates \<Rightarrow> SignedTransaction \<Rightarrow> Generator \<Rightarrow> Generator" where
  "spend_locally X stx g =
     (let removed = fold (\<lambda>i m. m((prev_trans i, index i) := None))
            (input (transaction stx)) (states (local_state g));
          inserted = fold (\<lambda>(ix, out) m. m((hash_stx X stx, word_of_nat ix) \<mapsto> (amount out, recipient_addr out)))
            (List.enumerate 0 (output (transaction stx))) removed
      in g\<lparr>local_state := \<lparr>states = inserted\<rparr>\<rparr>)"

text \<open>
  The only section that can panic while it holds its lock is the one that fetches the
  state, and it poisons the lock of the ledger states then.
\<close>

fun generator_lock_step ::
  "Crates \<Rightarrow> bool \<Rightarrow> GeneratorInput \<Rightarrow> Shared \<Rightarrow> GeneratorPos \<times> Generator \<Rightarrow>
     Shared \<times> (GeneratorPos \<times> Generator) \<times> action list" where
  "generator_lock_step X pool_bad inp sh (GeneratorTop, g) =
     (sh, (case operating_state g of
        TxGenerator.Paused \<Rightarrow>
          (case gen_signal inp of
             received.Received s \<Rightarrow> (GeneratorTop, g\<lparr>operating_state := generator_react TxGenerator.Paused s\<rparr>)
           | Nothing \<Rightarrow> (GeneratorTop, g)
           | Disconnected \<Rightarrow> (GeneratorPanicked UnwrapErr, g))
      | TxGenerator.ShutDown \<Rightarrow> (GeneratorReturned, g)
      | TxGenerator.Run i \<Rightarrow>
          (case gen_signal inp of
             received.Received s \<Rightarrow>
               (let g' = g\<lparr>operating_state := generator_react (TxGenerator.Run i) s\<rparr>
                in (if operating_state g' = TxGenerator.ShutDown then GeneratorReturned else GeneratorTip, g'))
           | Nothing \<Rightarrow> (GeneratorTip, g)
           | Disconnected \<Rightarrow> (GeneratorPanicked Explicit, g))), [])"
| "generator_lock_step X pool_bad inp sh (GeneratorTip, g) =
     (sh, (if BlockchainLock \<in> sh_poisoned sh then (GeneratorPanicked UnwrapErr, g)
           else let t = Blockchain_tip (blockchain (sh_node sh))
                in (if prev_tip g = t then GeneratorChoose else GeneratorFetch t, g)), [])"
| "generator_lock_step X pool_bad inp sh (GeneratorFetch t, g) =
     (if BlockStateLock \<in> sh_poisoned sh then (sh, (GeneratorPanicked UnwrapErr, g), [])
      else case block_state (sh_node sh) t of
             None \<Rightarrow> (sh\<lparr>sh_poisoned := insert BlockStateLock (sh_poisoned sh)\<rparr>, (GeneratorPanicked UnwrapNone, g), [])
           | Some s \<Rightarrow> (sh, (GeneratorChoose, g\<lparr>local_state := s, prev_tip := t\<rparr>), []))"
| "generator_lock_step X pool_bad inp sh (GeneratorChoose, g) =
     (sh, (case bind_res (get_tx_balance X (addr g) (entries inp)) (\<lambda>(inputs, balance).
              if balance = 0 then Ret None
              else bind_res (Transaction_pass_check X inputs balance (peer_addrs g)) (\<lambda>t. Ret (Some t))) of
             Panic e \<Rightarrow> (GeneratorPanicked e, g)
           | Ret None \<Rightarrow> (GeneratorTop, g)
           | Ret (Some t) \<Rightarrow> (GeneratorCheck \<lparr>transaction = t, signature_vector = sign X t (own_key g),
                                public_key_vector = public_key (own_key g)\<rparr>, g)), [])"
| "generator_lock_step X pool_bad inp sh (GeneratorCheck stx, g) =
     (sh, (if pool_bad then (GeneratorPanicked UnwrapErr, g)
           else (if trans (mempool (sh_node sh)) (hash_stx X stx) = None then GeneratorStore stx
                 else GeneratorAnnounce stx, g)), [])"
| "generator_lock_step X pool_bad inp sh (GeneratorStore stx, g) =
     (if pool_bad then (sh, (GeneratorPanicked UnwrapErr, g), [])
      else (sh\<lparr>sh_node := (sh_node sh)\<lparr>mempool := (mempool (sh_node sh))
                \<lparr>trans := (trans (mempool (sh_node sh)))(hash_stx X stx \<mapsto> stx)\<rparr>\<rparr>\<rparr>,
            (GeneratorAnnounce stx, g), []))"
| "generator_lock_step X pool_bad inp sh (GeneratorAnnounce stx, g) =
     (sh, (GeneratorTop, spend_locally X stx g), [Broadcast (NewTransactionHashes [hash_stx X stx])])"
| "generator_lock_step X pool_bad inp sh (GeneratorReturned, g) = (sh, (GeneratorReturned, g), [])"
| "generator_lock_step X pool_bad inp sh (GeneratorPanicked e, g) = (sh, (GeneratorPanicked e, g), [])"

section \<open>A turn on its own\<close>

inductive generator_alone ::
  "Crates \<Rightarrow> GeneratorInput \<Rightarrow> Shared \<times> (GeneratorPos \<times> Generator) \<times> action list \<Rightarrow>
     Shared \<times> (GeneratorPos \<times> Generator) \<times> action list \<Rightarrow> bool" for X inp where
  gen_alone_done: "generator_alone X inp u u"
| gen_alone_step: "generator_lock_step X False inp sh t = (sh1, t1, new) \<Longrightarrow>
     generator_alone X inp (sh1, t1, out @ new) v \<Longrightarrow> generator_alone X inp (sh, t, out) v"

lemma gen_alone_silent:
  "generator_lock_step X False inp sh t = (sh1, t1, []) \<Longrightarrow> generator_alone X inp (sh1, t1, out) v \<Longrightarrow>
     generator_alone X inp (sh, t, out) v"
  using gen_alone_step [of X inp sh t sh1 t1 "[]" out v] by simp

lemma gen_alone_one:
  "generator_lock_step X False inp sh t = (sh1, t1, new) \<Longrightarrow> generator_alone X inp (sh, t, out) (sh1, t1, out @ new)"
  by (rule gen_alone_step [OF _ gen_alone_done])

lemma alone_refresh:
  assumes "refresh nd g = Ret g1" and sh: "sh = \<lparr>sh_node = nd, sh_poisoned = {}\<rparr>"
    and "generator_alone X inp (sh, (GeneratorChoose, g1), out) v"
  shows "generator_alone X inp (sh, (GeneratorTip, g), out) v"
proof (cases "prev_tip g = tip (blockchain nd)")
  case True
  with assms show ?thesis
    by (intro gen_alone_silent [where t = "(GeneratorTip, g)"]) (simp_all add: refresh_def Let_def Blockchain_tip_def)
next
  case False
  let ?t = "tip (blockchain nd)"
  from assms(1) False obtain s where s: "block_state nd ?t = Some s" "g1 = g\<lparr>local_state := s, prev_tip := ?t\<rparr>"
    by (auto simp: refresh_def Let_def Blockchain_tip_def res_simps)
  have "generator_lock_step X False inp sh (GeneratorTip, g) = (sh, (GeneratorFetch ?t, g), [])"
    using False sh by (simp add: Blockchain_tip_def Let_def)
  moreover have "generator_lock_step X False inp sh (GeneratorFetch ?t, g) = (sh, (GeneratorChoose, g1), [])"
    using s sh by simp
  ultimately show ?thesis using assms(3) by (blast intro: gen_alone_silent)
qed

lemma alone_generate_once:
  assumes "generate_once X nd g inp = Ret (nd', g', out)"
  shows "generator_alone X inp (\<lparr>sh_node = nd, sh_poisoned = {}\<rparr>, (GeneratorTip, g), [])
    (\<lparr>sh_node = nd', sh_poisoned = {}\<rparr>, (GeneratorTop, g'), out)"
proof -
  let ?sh = "\<lparr>sh_node = nd, sh_poisoned = {}\<rparr>" and ?sh' = "\<lparr>sh_node = nd', sh_poisoned = {}\<rparr>"
  from assms obtain g1 where r: "refresh nd g = Ret g1" by (auto simp: generate_once_def res_simps)
  from assms r obtain ins v where bal: "get_tx_balance X (addr g1) (entries inp) = Ret (ins, v)"
    by (auto simp: generate_once_def res_simps)
  have "generator_alone X inp (?sh, (GeneratorChoose, g1), []) (?sh', (GeneratorTop, g'), out)"
  proof (cases "v = 0")
    case True
    with assms r bal have "nd' = nd" "g' = g1" "out = []" by (simp_all add: generate_once_def)
    with True bal show ?thesis by (auto intro!: gen_alone_one [of X inp _ _ _ _ "[]" "[]", simplified])
  next
    case False
    with assms r bal obtain t where t: "Transaction_pass_check X ins v (peer_addrs g1) = Ret t"
      by (auto simp: generate_once_def res_simps)
    define stx where "stx = \<lparr>transaction = t, signature_vector = sign X t (own_key g1),
        public_key_vector = public_key (own_key g1)\<rparr>"
    let ?h = "hash_stx X stx" and ?mp = "mempool nd"
    have res: "nd' = nd\<lparr>mempool := (if trans ?mp ?h = None then ?mp\<lparr>trans := (trans ?mp)(?h \<mapsto> stx)\<rparr> else ?mp)\<rparr>"
      "g' = spend_locally X stx g1" "out = [Broadcast (NewTransactionHashes [?h])]"
      using assms r bal False t by (auto simp: generate_once_def spend_locally_def stx_def Let_def)
    have choose: "generator_lock_step X False inp ?sh (GeneratorChoose, g1) = (?sh, (GeneratorCheck stx, g1), [])"
      using bal False t by (simp add: stx_def)
    have "generator_lock_step X False inp ?sh' (GeneratorAnnounce stx, g1) = (?sh', (GeneratorTop, g'), out)"
      using res(2,3) by simp
    from gen_alone_one [OF this, of "[]"] have
      last: "generator_alone X inp (?sh', (GeneratorAnnounce stx, g1), []) (?sh', (GeneratorTop, g'), out)" by simp
    have "generator_alone X inp (?sh, (GeneratorCheck stx, g1), []) (?sh', (GeneratorTop, g'), out)"
    proof (cases "trans ?mp ?h")
      case None
      have "generator_lock_step X False inp ?sh (GeneratorCheck stx, g1) = (?sh, (GeneratorStore stx, g1), [])"
        using None by simp
      moreover have "generator_lock_step X False inp ?sh (GeneratorStore stx, g1) = (?sh', (GeneratorAnnounce stx, g1), [])"
        using None res(1) by simp
      ultimately show ?thesis using last by (blast intro: gen_alone_silent)
    next
      case (Some t')
      then have "generator_lock_step X False inp ?sh (GeneratorCheck stx, g1) = (?sh', (GeneratorAnnounce stx, g1), [])"
        using res(1) by simp
      with last show ?thesis by (blast intro: gen_alone_silent)
    qed
    with choose show ?thesis by (rule gen_alone_silent)
  qed
  with r show ?thesis by (intro alone_refresh) simp_all
qed

text \<open>A turn, taken apart.\<close>

lemma generator_alone_turn:
  assumes "generator_turn X nd g inp = Ret (nd', g', out)"
  shows "\<exists>pos. generator_alone X inp (\<lparr>sh_node = nd, sh_poisoned = {}\<rparr>, (GeneratorTop, g), [])
    (\<lparr>sh_node = nd', sh_poisoned = {}\<rparr>, (pos, g'), out) \<and> pos \<in> {GeneratorTop, GeneratorReturned}"
proof -
  let ?sh = "\<lparr>sh_node = nd, sh_poisoned = {}\<rparr>"
  have idle: ?thesis if "generator_lock_step X False inp ?sh (GeneratorTop, g) = (?sh, (pos, g'), [])"
    "nd' = nd" "out = []" "pos \<in> {GeneratorTop, GeneratorReturned}" for pos
    using gen_alone_one [OF that(1), of "[]"] that(2-4) by auto
  have work: ?thesis if once: "generate_once X nd g1 inp = Ret (nd', g', out)"
    and top: "generator_lock_step X False inp ?sh (GeneratorTop, g) = (?sh, (GeneratorTip, g1), [])" for g1
    using gen_alone_silent [OF top alone_generate_once [OF once]] by blast
  show ?thesis
  proof (cases "operating_state g")
    case Paused
    with assms show ?thesis
      by (intro idle [of GeneratorTop]) (auto simp: generator_turn_def split: received.splits)
  next
    case ShutDown
    with assms show ?thesis by (intro idle [of GeneratorReturned]) (auto simp: generator_turn_def)
  next
    case (Run i)
    show ?thesis
    proof (cases "gen_signal inp")
      case (Received s)
      show ?thesis
      proof (cases "generator_react (TxGenerator.Run i) s = TxGenerator.ShutDown")
        case True
        with Run Received assms show ?thesis
          by (intro idle [of GeneratorReturned]) (auto simp: generator_turn_def Let_def)
      next
        case False
        with Run Received assms show ?thesis
          by (intro work [of "g\<lparr>operating_state := generator_react (TxGenerator.Run i) s\<rparr>"])
            (simp_all add: generator_turn_def Let_def)
      qed
    next
      case Nothing
      with Run assms show ?thesis by (intro work [of g]) (simp_all add: generator_turn_def)
    next
      case Disconnected
      with Run assms show ?thesis by (simp add: generator_turn_def)
    qed
  qed
qed

end
