(* ===== verification/Races.thy ===== *)
theory Races
  imports NetWorker Threads
begin

text \<open>
  The mempool at the granularity of its lock. The handlers of theory \<open>NetWorker\<close> are
  one step each; here the loops of \<open>src/src/network/worker.rs\<close> and of the miner that
  take the mempool's lock several times are taken apart at each \<open>lock().unwrap()\<close>, and
  the steps of the threads interleave. A panic while the lock is held poisons it, and every
  later \<open>lock().unwrap()\<close> panics.
\<close>

section \<open>The program\<close>

record PoolLock =
  pool :: "H256 \<rightharpoonup> SignedTransaction"
  poisoned :: bool

text \<open>
  The states of a thread between two of its lock operations: the loop of the
  \<open>GetTransactions\<close> arm (before \<open>contains_key\<close>, before \<open>get(..).unwrap()\<close>), the
  loop of the \<open>Transactions\<close> arm (before \<open>contains_key\<close>, before \<open>insert\<close>), and
  the miner's removal loop.
\<close>

datatype PoolThread =
    Asking "H256 list" "SignedTransaction list"
  | Fetching H256 "H256 list" "SignedTransaction list"
  | Answered bool "SignedTransaction list"
  | Pooling "SignedTransaction list" "H256 list"
  | Storing SignedTransaction "SignedTransaction list" "H256 list"
  | Pooled "H256 list"
  | Removing "H256 list"
  | Crashed

fun get_transactions_step :: "PoolLock \<Rightarrow> PoolThread \<Rightarrow> PoolLock \<times> PoolThread" where
  "get_transactions_step p (Asking [] ts) = (p, Answered True ts)"
| "get_transactions_step p (Asking (h # hs) ts) =
     (if poisoned p then (p, Crashed)
      else if pool p h \<noteq> None then (p, Fetching h hs ts) else (p, Answered False ts))"
| "get_transactions_step p (Fetching h hs ts) =
     (if poisoned p then (p, Crashed)
      else case pool p h of
             Some t \<Rightarrow> (p, Asking hs (ts @ [t]))
           | None \<Rightarrow> (p\<lparr>poisoned := True\<rparr>, Crashed))"
| "get_transactions_step p th = (p, th)"

fun transactions_step :: "Crates \<Rightarrow> PoolLock \<Rightarrow> PoolThread \<Rightarrow> PoolLock \<times> PoolThread" where
  "transactions_step X p (Pooling [] new_trans) = (p, Pooled new_trans)"
| "transactions_step X p (Pooling (t # ts) new_trans) =
     (if \<not> verify_tx X (transaction t) (public_key_vector t) (signature_vector t)
      then (p, Pooling ts new_trans)
      else if poisoned p then (p, Crashed)
      else if pool p (hash_stx X t) = None
      then (p, Storing t ts (new_trans @ [hash_stx X t])) else (p, Pooling ts new_trans))"
| "transactions_step X p (Storing t ts new_trans) =
     (if poisoned p then (p, Crashed)
      else (p\<lparr>pool := (pool p)(hash_stx X t \<mapsto> t)\<rparr>, Pooling ts new_trans))"
| "transactions_step X p th = (p, th)"

fun removal_step :: "PoolLock \<Rightarrow> PoolThread \<Rightarrow> PoolLock \<times> PoolThread" where
  "removal_step p (Removing (h # hs)) =
     (if poisoned p then (p, Crashed) else (p\<lparr>pool := (pool p)(h := None)\<rparr>, Removing hs))"
| "removal_step p th = (p, th)"

text \<open>One step of a thread, whatever loop it is in, and the interleaving of threads.\<close>

definition thread_step :: "Crates \<Rightarrow> PoolLock \<Rightarrow> PoolThread \<Rightarrow> PoolLock \<times> PoolThread" where
  "thread_step X p th =
     (case th of
        Asking _ _ \<Rightarrow> get_transactions_step p th
      | Fetching _ _ _ \<Rightarrow> get_transactions_step p th
      | Pooling _ _ \<Rightarrow> transactions_step X p th
      | Storing _ _ _ \<Rightarrow> transactions_step X p th
      | Removing _ \<Rightarrow> removal_step p th
      | _ \<Rightarrow> (p, th))"

lemma thread_step_simps [simp]:
  "thread_step X p (Asking hs ts) = get_transactions_step p (Asking hs ts)"
  "thread_step X p (Fetching h hs ts) = get_transactions_step p (Fetching h hs ts)"
  "thread_step X p (Pooling ss hs) = transactions_step X p (Pooling ss hs)"
  "thread_step X p (Storing t ss hs) = transactions_step X p (Storing t ss hs)"
  "thread_step X p (Removing hs) = removal_step p (Removing hs)"
  "thread_step X p (Answered ok ts) = (p, Answered ok ts)"
  "thread_step X p (Pooled hs) = (p, Pooled hs)"
  "thread_step X p Crashed = (p, Crashed)"
  by (simp_all add: thread_step_def)

inductive race_step ::
  "Crates \<Rightarrow> PoolLock \<times> (nat \<Rightarrow> PoolThread) \<Rightarrow> PoolLock \<times> (nat \<Rightarrow> PoolThread) \<Rightarrow> bool" for X where
  race_thread: "thread_step X p (ths k) = (p', th') \<Longrightarrow> race_step X (p, ths) (p', ths(k := th'))"

inductive_cases race_stepE: "race_step X (p, ths) u"

abbreviation race_steps where
  "race_steps X \<equiv> (race_step X)\<^sup>*\<^sup>*"

section \<open>A thread on its own\<close>

text \<open>Without interference the steps add up to the handlers of theory \<open>NetWorker\<close>.\<close>

lemma asking_alone:
  "\<not> poisoned p \<Longrightarrow> \<exists>n. ((\<lambda>(p, th). thread_step X p th) ^^ n) (p, Asking hs ts) =
     (p, Answered (fst (collect_known (pool p) hs ts)) (snd (collect_known (pool p) hs ts)))"
proof (induction hs arbitrary: ts)
  case Nil
  show ?case by (rule exI [of _ 1]) simp
next
  case (Cons h hs)
  show ?case
  proof (cases "pool p h")
    case None
    with Cons.prems show ?thesis by (intro exI [of _ 1]) simp
  next
    case (Some t)
    from Cons.IH [OF Cons.prems, of "ts @ [t]"] obtain n where
      "((\<lambda>(p, th). thread_step X p th) ^^ n) (p, Asking hs (ts @ [t])) =
        (p, Answered (fst (collect_known (pool p) hs (ts @ [t]))) (snd (collect_known (pool p) hs (ts @ [t]))))" ..
    with Some Cons.prems show ?thesis
      by (intro exI [of _ "Suc (Suc n)"]) (simp add: funpow_swap1 [symmetric] del: funpow.simps add: funpow_Suc_right)
  qed
qed

lemma pooling_alone:
  "\<not> poisoned p \<Longrightarrow> \<exists>n. ((\<lambda>(p, th). thread_step X p th) ^^ n) (p, Pooling ts new) =
     (p\<lparr>pool := trans (fst (process_transactions X \<lparr>trans = pool p\<rparr> ts new))\<rparr>,
      Pooled (snd (process_transactions X \<lparr>trans = pool p\<rparr> ts new)))"
proof (induction ts arbitrary: p new)
  case Nil
  show ?case by (rule exI [of _ 1]) simp
next
  case (Cons t ts)
  let ?v = "verify_tx X (transaction t) (public_key_vector t) (signature_vector t)"
  let ?f = "\<lambda>(p, th). thread_step X p th"
  show ?case
  proof (cases "?v \<and> pool p (hash_stx X t) = None")
    case False
    from Cons.IH [OF Cons.prems, of new] obtain n where
      "(?f ^^ n) (p, Pooling ts new) =
        (p\<lparr>pool := trans (fst (process_transactions X \<lparr>trans = pool p\<rparr> ts new))\<rparr>,
         Pooled (snd (process_transactions X \<lparr>trans = pool p\<rparr> ts new)))" ..
    moreover have "?f (p, Pooling (t # ts) new) = (p, Pooling ts new)" using False Cons.prems by auto
    ultimately show ?thesis using False
      by (intro exI [of _ "Suc n"]) (auto simp: funpow_Suc_right Let_def simp del: funpow.simps)
  next
    case True
    let ?p = "p\<lparr>pool := (pool p)(hash_stx X t \<mapsto> t)\<rparr>" and ?new = "new @ [hash_stx X t]"
    have "\<not> poisoned ?p" using Cons.prems by simp
    from Cons.IH [OF this, of ?new] obtain n where
      "(?f ^^ n) (?p, Pooling ts ?new) =
        (?p\<lparr>pool := trans (fst (process_transactions X \<lparr>trans = pool ?p\<rparr> ts ?new))\<rparr>,
         Pooled (snd (process_transactions X \<lparr>trans = pool ?p\<rparr> ts ?new)))" ..
    moreover have "?f (?f (p, Pooling (t # ts) new)) = (?p, Pooling ts ?new)" using True Cons.prems by simp
    ultimately show ?thesis using True
      by (intro exI [of _ "Suc (Suc n)"]) (simp add: funpow_Suc_right Let_def del: funpow.simps)
  qed
qed

section \<open>Interference\<close>

definition removes :: "PoolThread \<Rightarrow> bool" where
  "removes th \<longleftrightarrow> (case th of Removing hs \<Rightarrow> hs \<noteq> [] | _ \<Rightarrow> False)"

definition fetch_ok :: "PoolLock \<Rightarrow> PoolThread \<Rightarrow> bool" where
  "fetch_ok p th \<longleftrightarrow> th \<noteq> Crashed \<and> (case th of Fetching h _ _ \<Rightarrow> pool p h \<noteq> None | _ \<Rightarrow> True)"

lemma thread_step_calm:
  assumes "thread_step X p th = (p', th')" and "\<not> poisoned p" and "\<not> removes th \<and> fetch_ok p th"
  shows "\<not> poisoned p'" and "\<not> removes th' \<and> fetch_ok p' th'" and "dom (pool p) \<subseteq> dom (pool p')"
proof -
  have "\<not> poisoned p' \<and> (\<not> removes th' \<and> fetch_ok p' th') \<and> dom (pool p) \<subseteq> dom (pool p')"
  proof (cases th)
    case (Asking hs ts)
    with assms show ?thesis by (cases hs) (auto simp: removes_def fetch_ok_def split: if_splits)
  next
    case (Pooling ts hs)
    with assms show ?thesis by (cases ts) (auto simp: removes_def fetch_ok_def split: if_splits)
  next
    case (Removing hs)
    with assms show ?thesis by (cases hs) (auto simp: removes_def fetch_ok_def)
  qed (use assms in \<open>auto simp: removes_def fetch_ok_def\<close>)
  then show "\<not> poisoned p'" "\<not> removes th' \<and> fetch_ok p' th'" "dom (pool p) \<subseteq> dom (pool p')" by simp_all
qed

text \<open>While nothing is removed, the threads do not disturb each other.\<close>

interpretation pl: interference "thread_step X" "\<lambda>p. \<not> poisoned p"
  "\<lambda>p th. \<not> removes th \<and> fetch_ok p th" "\<lambda>p p'. dom (pool p) \<subseteq> dom (pool p')"
  for X
proof
  show "\<not> removes th \<and> fetch_ok p' th"
    if "\<not> removes th \<and> fetch_ok p th" "dom (pool p) \<subseteq> dom (pool p')" for p p' th
    using that by (auto simp: fetch_ok_def split: PoolThread.splits)
qed (erule (2) thread_step_calm)+

lemma race_steps_calm:
  "race_steps X u v \<Longrightarrow> pl.all_hold (fst u) (snd u) \<Longrightarrow> pl.all_hold (fst v) (snd v)"
proof (induction rule: rtranclp_induct)
  case (step v w)
  from step.hyps(2) step.IH [OF step.prems] show ?case
    by cases (auto dest: pl.all_hold_step simp del: fun_upd_apply)
qed

lemma thread_step_frozen: "poisoned p \<Longrightarrow> fst (thread_step X p th) = p"
proof (cases th)
  case (Asking hs ts)
  then show "poisoned p \<Longrightarrow> ?thesis" by (cases hs) auto
next
  case (Pooling ts hs)
  then show "poisoned p \<Longrightarrow> ?thesis" by (cases ts) auto
next
  case (Removing hs)
  then show "poisoned p \<Longrightarrow> ?thesis" by (cases hs) auto
qed auto

lemma race_steps_frozen: "race_steps X u v \<Longrightarrow> poisoned (fst u) \<Longrightarrow> fst v = fst u"
proof (induction rule: rtranclp_induct)
  case (step v w)
  obtain p ths where v: "v = (p, ths)" by (cases v)
  from step.hyps(2) obtain p' th' k where
    s: "thread_step X p (ths k) = (p', th')" "w = (p', ths(k := th'))"
    unfolding v by (rule race_stepE)
  with thread_step_frozen [of p X "ths k"] step v show ?case by simp
qed simp

section \<open>Properties\<close>

text \<open>
  Lock by lock and undisturbed, the two loops over the mempool compute what the
  one-step handlers compute: \<open>GetTransactions\<close> collects the requested transactions or
  stops at the first unknown hash, \<open>Transactions\<close> pools the verified new ones.
\<close>

theorem handlers_refined_by_locks:
  assumes "\<not> poisoned p"
  shows "(\<exists>n. ((\<lambda>(p, th). thread_step X p th) ^^ n) (p, Asking hs []) =
      (p, Answered (fst (collect_known (pool p) hs [])) (snd (collect_known (pool p) hs [])))) \<and>
    (\<exists>n. ((\<lambda>(p, th). thread_step X p th) ^^ n) (p, Pooling ts []) =
      (p\<lparr>pool := trans (fst (process_transactions X \<lparr>trans = pool p\<rparr> ts []))\<rparr>,
       Pooled (snd (process_transactions X \<lparr>trans = pool p\<rparr> ts []))))"
  using asking_alone [OF assms] pooling_alone [OF assms] by blast

theorem handlers_refined_by_locks_witness:
  "\<exists>n. ((\<lambda>(p, th). thread_step (demo_crates True) p th) ^^ n)
     (\<lparr>pool = Map.empty, poisoned = False\<rparr>, Asking [h256_fill 1] []) =
     (\<lparr>pool = Map.empty, poisoned = False\<rparr>, Answered False [])"
  using handlers_refined_by_locks [of "\<lparr>pool = Map.empty, poisoned = False\<rparr>" "demo_crates True" "[h256_fill 1]"]
  by simp

text \<open>
  While the miner removes nothing, any interleaving of workers that answer requests
  and pool transactions is free of panics, and the lock is never poisoned.
\<close>

theorem pool_safe_without_removal:
  assumes "race_steps X (p, ths) (p', ths')" and "\<not> poisoned p"
    and "\<forall>k. (\<exists>hs. ths k = Asking hs []) \<or> (\<exists>ts. ths k = Pooling ts [])"
  shows "\<not> poisoned p' \<and> (\<forall>k. ths' k \<noteq> Crashed)"
proof -
  have "\<not> removes (ths k) \<and> fetch_ok p (ths k)" for k
    using spec [OF assms(3), of k] by (auto simp: removes_def fetch_ok_def)
  then have "pl.all_hold p ths" using assms(2) by (simp add: pl.all_hold_def)
  with race_steps_calm [OF assms(1)] have "pl.all_hold p' ths'" by simp
  then show ?thesis unfolding pl.all_hold_def by (simp add: fetch_ok_def)
qed

theorem pool_safe_without_removal_witness:
  "\<exists>p' ths'. race_step (demo_crates True) (\<lparr>pool = Map.empty, poisoned = False\<rparr>, \<lambda>_. Asking [h256_fill 1] []) (p', ths') \<and>
     \<not> poisoned p' \<and> ths' 0 = Answered False [] \<and> ths' 1 \<noteq> Crashed"
proof -
  let ?p = "\<lparr>pool = Map.empty, poisoned = False\<rparr>" and ?ths = "\<lambda>_ :: nat. Asking [h256_fill 1] []"
  have s: "race_step (demo_crates True) (?p, ?ths) (?p, ?ths(0 := Answered False []))"
    by (rule race_thread) simp
  have "\<not> poisoned ?p \<and> (\<forall>k. (?ths(0 := Answered False [])) k \<noteq> Crashed)"
    by (rule pool_safe_without_removal [OF r_into_rtranclp [of "race_step (demo_crates True)", OF s]]) simp_all
  with s show ?thesis by (intro exI [of _ ?p] exI [of _ "?ths(0 := Answered False [])"]) simp
qed

text \<open>
  The race between a request and the miner. A worker that answers \<open>GetTransactions\<close>
  looks twice, with the lock released in between; if the miner removes the transaction
  there, the worker panics with the lock held. The mempool is then poisoned: no later step
  of any thread changes it, since every \<open>lock().unwrap()\<close> panics.
\<close>

theorem get_transactions_race:
  assumes "\<not> poisoned p" and "pool p h = Some t" and "ths i = Asking (h # hs) []"
    and "ths j = Removing (h # rem)" and "i \<noteq> j"
  shows "\<exists>p' ths'. race_steps X (p, ths) (p', ths') \<and> poisoned p' \<and> ths' i = Crashed \<and>
    ths' j = Removing rem \<and> (\<forall>p2 ths2. race_steps X (p', ths') (p2, ths2) \<longrightarrow> p2 = p')"
proof -
  let ?p1 = "p\<lparr>pool := (pool p)(h := None)\<rparr>"
  let ?ths1 = "ths(i := Fetching h hs [])"
  let ?ths2 = "?ths1(j := Removing rem)" and ?p2 = "?p1\<lparr>poisoned := True\<rparr>"
  have "race_step X (p, ths) (p, ?ths1)" by (rule race_thread) (use assms in simp)
  moreover have "race_step X (p, ?ths1) (?p1, ?ths2)" by (rule race_thread) (use assms in simp)
  moreover have "race_step X (?p1, ?ths2) (?p2, ?ths2(i := Crashed))"
    by (rule race_thread) (use assms in simp)
  ultimately have "race_steps X (p, ths) (?p2, ?ths2(i := Crashed))"
    by (meson converse_rtranclp_into_rtranclp rtranclp.rtrancl_refl)
  moreover have "\<forall>p2 ths2. race_steps X (?p2, ?ths2(i := Crashed)) (p2, ths2) \<longrightarrow> p2 = ?p2"
    using race_steps_frozen by fastforce
  ultimately show ?thesis using assms(5) by (intro exI [of _ ?p2] exI [of _ "?ths2(i := Crashed)"]) simp
qed

theorem get_transactions_race_witness:
  "\<exists>p' ths'. race_steps (demo_crates True)
     (\<lparr>pool = [h256_fill 1 \<mapsto> demo_tx [] []], poisoned = False\<rparr>,
      \<lambda>k. if k = 0 then Asking [h256_fill 1] [] else if k = 1 then Removing [h256_fill 1] else Pooled [])
     (p', ths') \<and> poisoned p' \<and> ths' 0 = Crashed \<and> ths' 1 = Removing []"
proof -
  let ?p = "\<lparr>pool = [h256_fill 1 \<mapsto> demo_tx [] []], poisoned = False\<rparr>"
  let ?ths = "\<lambda>k :: nat. if k = 0 then Asking [h256_fill 1] [] else if k = 1 then Removing [h256_fill 1] else Pooled []"
  have "\<exists>p' ths'. race_steps (demo_crates True) (?p, ?ths) (p', ths') \<and> poisoned p' \<and> ths' 0 = Crashed \<and>
    ths' 1 = Removing [] \<and> (\<forall>p2 ths2. race_steps (demo_crates True) (p', ths') (p2, ths2) \<longrightarrow> p2 = p')"
    by (rule get_transactions_race) simp_all
  then show ?thesis by blast
qed

end
