(* ===== verification/Server.thy ===== *)
theory Server
  imports Types
begin

text \<open>
  \<open>src/src/network/server.rs\<close>: the framing of messages on a connection, that is the
  reader and writer tasks of \<open>register\<close>. A connection is the list of the bytes it
  delivers. The locale \<open>stream_codec\<close> states what framing must satisfy for a byte stream
  to decode to the sequence of messages that was written. The control task and the peer
  handles are in theory \<open>Peers\<close>.
\<close>

section \<open>Framing: the program\<close>

definition to_be_bytes :: "u32 \<Rightarrow> u8 list" where
  "to_be_bytes n = [ucast (drop_bit 24 n), ucast (drop_bit 16 n), ucast (drop_bit 8 n), ucast n]"

text \<open>One turn of the writer task: the header, then the payload.\<close>

definition write_frame :: "u8 list \<Rightarrow> u8 list" where
  "write_frame new_msg =
     (let size_buffer = to_be_bytes (word_of_nat (length new_msg)) in size_buffer @ new_msg)"

text \<open>
  The writer task works through its queue until a write fails; \<open>capacity\<close> is the number
  of messages the connection takes. The flag is the \<open>DroppedPeer\<close> signal it then sends.
\<close>

fun writer_loop :: "nat \<Rightarrow> u8 list list \<Rightarrow> u8 list \<times> bool" where
  "writer_loop capacity [] = ([], False)"
| "writer_loop 0 (new_msg # queue) = ([], True)"
| "writer_loop (Suc capacity) (new_msg # queue) =
     (let (bytes, dropped) = writer_loop capacity queue in (write_frame new_msg @ bytes, dropped))"

text \<open>\<open>read_exact\<close>: the bytes and the rest of the stream, or an error at its end.\<close>

definition read_exact :: "nat \<Rightarrow> u8 list \<Rightarrow> (u8 list \<times> u8 list) option" where
  "read_exact n stream = (if n \<le> length stream then Some (take n stream, drop n stream) else None)"

lemma read_exact_length: "read_exact n s = Some (p, rest) \<Longrightarrow> length rest + n = length s"
  by (auto simp: read_exact_def split: if_splits)

definition resize :: "nat \<Rightarrow> u8 list \<Rightarrow> u8 list" where
  "resize n buf = (if length buf < n then buf @ replicate (n - length buf) 0 else buf)"

text \<open>
  The reader task on everything a connection delivers until it fails. The message buffer
  is reused: it only grows, and a shorter message overwrites its beginning. The channel to
  the workers takes \<open>accepted\<close> more messages before it is closed, that is before the last
  worker has gone; then \<open>send(..).await.unwrap()\<close> panics. The result is what the workers
  get, and the panic that ended the task, if any.
\<close>

function reader_loop :: "nat \<Rightarrow> u8 list \<Rightarrow> u8 list \<Rightarrow> u8 list list \<times> panic option" where
  "reader_loop accepted stream msg_buffer =
     (case read_exact 4 stream of
        None \<Rightarrow> ([], None)
      | Some (size_buffer, stream1) \<Rightarrow>
          (let msg_size = unat (from_be_bytes size_buffer :: u32);
               buf = resize msg_size msg_buffer
           in case read_exact msg_size stream1 of
                None \<Rightarrow> ([], None)
              | Some (payload, stream2) \<Rightarrow>
                  (let buf' = payload @ drop msg_size buf;
                       new_payload = take msg_size buf'
                   in if accepted = 0 then ([], Some UnwrapErr)
                      else let r = reader_loop (accepted - 1) stream2 buf'
                           in (new_payload # fst r, snd r))))"
  by pat_completeness auto
termination
  by (relation "measure (\<lambda>(accepted, stream, msg_buffer). length stream)")
    (auto dest!: read_exact_length)

declare reader_loop.simps [simp del]

section \<open>Framing: the interface\<close>

locale stream_codec =
  fixes put :: "'m \<Rightarrow> 'b list" and get :: "'b list \<Rightarrow> ('m \<times> 'b list) option" and fits :: "'m \<Rightarrow> bool"
  assumes get_put: "fits m \<Longrightarrow> get (put m @ rest) = Some (m, rest)"
    and get_prefix: "fits m \<Longrightarrow> put m = p @ q \<Longrightarrow> q \<noteq> [] \<Longrightarrow> get p = None"
begin

text \<open>The messages a stream decodes to, up to the first incomplete one.\<close>

inductive decodes :: "'b list \<Rightarrow> 'm list \<Rightarrow> bool" where
  decodes_end: "get s = None \<Longrightarrow> decodes s []"
| decodes_msg: "get s = Some (m, rest) \<Longrightarrow> decodes rest ms \<Longrightarrow> decodes s (m # ms)"

lemma decodes_unique: "decodes s ms \<Longrightarrow> decodes s ms' \<Longrightarrow> ms' = ms"
proof (induction arbitrary: ms' rule: decodes.induct)
  case (decodes_end s)
  from decodes_end(2,1) show ?case by cases simp_all
next
  case (decodes_msg s m rest ms)
  from decodes_msg.prems show ?case
  proof cases
    case decodes_end
    with decodes_msg.hyps(1) show ?thesis by simp
  next
    case (decodes_msg m1 rest1 ms1)
    with \<open>get s = Some (m, rest)\<close> have "m1 = m" "decodes rest ms1" by simp_all
    with decodes_msg(1) decodes_msg.IH show ?thesis by blast
  qed
qed

lemma decodes_put:
  "\<forall>m\<in>set ms. fits m \<Longrightarrow> get tail = None \<Longrightarrow> decodes (concat (map put ms) @ tail) ms"
proof (induction ms)
  case Nil
  then show ?case by (simp add: decodes_end)
next
  case (Cons m ms)
  then have "get (put m @ concat (map put ms) @ tail) = Some (m, concat (map put ms) @ tail)"
    by (intro get_put) simp
  with Cons decodes_msg [OF this] show ?case by simp
qed

lemma decodes_put_prefix:
  assumes "\<forall>m\<in>set ms. fits m" and "fits m'" and "put m' = tail @ q" and "q \<noteq> []"
  shows "decodes (concat (map put ms) @ tail) ms"
  using assms decodes_put get_prefix by blast

end

section \<open>Framing: the code satisfies the interface\<close>

definition read_frame :: "u8 list \<Rightarrow> (u8 list \<times> u8 list) option" where
  "read_frame stream =
     (case read_exact 4 stream of
        None \<Rightarrow> None
      | Some (h, stream1) \<Rightarrow> read_exact (unat (from_be_bytes h :: u32)) stream1)"

definition frame_fits :: "u8 list \<Rightarrow> bool" where
  "frame_fits m \<longleftrightarrow> length m < 2 ^ 32"

lemma length_to_be_bytes [simp]: "length (to_be_bytes n) = 4"
  by (simp add: to_be_bytes_def)

lemma base_256_digits:
  "16777216 * (n div 16777216) + 65536 * (n div 65536 mod 256) + 256 * (n div 256 mod 256) + n mod 256 = n"
  for n :: nat
proof -
  let ?a = "n div 256" and ?b = "n div 256 div 256"
  have d: "n div 65536 = ?b" "n div 16777216 = ?b div 256" by (simp_all add: div_mult2_eq [symmetric])
  have "256 * ?a + n mod 256 = n" by simp
  moreover have "256 * ?b + ?a mod 256 = ?a" by simp
  moreover have "256 * (?b div 256) + ?b mod 256 = ?b" by simp
  ultimately show ?thesis unfolding d by linarith
qed

lemma to_be_bytes_value:
  fixes n :: u32
  shows "be_nat (to_be_bytes n) = unat n"
proof -
  have *: "unat (ucast (drop_bit k n) :: u8) = unat n div 2 ^ k mod 256" for k
    unfolding unsigned_ucast_eq unat_drop_bit_eq by (simp add: take_bit_eq_mod drop_bit_eq_div)
  have "unat (ucast n :: u8) = unat n mod 256"
    by (simp add: unsigned_ucast_eq take_bit_eq_mod)
  moreover have "unat n < 4294967296" using unat_u32_bound [of n] by simp
  ultimately show ?thesis
    by (simp add: to_be_bytes_def be_nat_def * base_256_digits)
qed

lemma from_to_be_bytes [simp]: "(from_be_bytes (to_be_bytes n) :: u32) = n"
  by (simp add: from_be_bytes_def to_be_bytes_value)

lemma read_exact_append [simp]: "n = length xs \<Longrightarrow> read_exact n (xs @ ys) = Some (xs, ys)"
  by (simp add: read_exact_def)

lemma read_exact_Some:
  "read_exact n s = Some (p, rest) \<longleftrightarrow> s = p @ rest \<and> length p = n"
  by (auto simp: read_exact_def)

lemma unat_length_frame: "frame_fits m \<Longrightarrow> unat (word_of_nat (length m) :: u32) = length m"
  by (simp add: frame_fits_def unat_of_nat take_bit_nat_eq_self)

interpretation fr: stream_codec write_frame read_frame frame_fits
proof
  show "read_frame (write_frame m @ rest) = Some (m, rest)" if "frame_fits m" for m rest
    using that by (simp add: read_frame_def write_frame_def unat_length_frame)
  show "read_frame p = None" if "frame_fits m" "write_frame m = p @ q" "q \<noteq> []" for m p q
  proof (cases "length p < 4")
    case True
    then show ?thesis by (simp add: read_frame_def read_exact_def)
  next
    case False
    let ?h = "to_be_bytes (word_of_nat (length m))"
    from that(2) have eq: "?h @ m = p @ q" by (simp add: write_frame_def)
    have "take 4 (?h @ m) = take 4 (p @ q)" using eq by simp
    with False have "?h = take 4 p" by simp
    then have p: "p = ?h @ drop 4 p" by simp
    have "drop 4 (?h @ m) = drop 4 (p @ q)" using eq by simp
    with False have "m = drop 4 p @ q" by simp
    with that(3) have "length (drop 4 p) < length m" by simp
    with that(1) have "read_frame (?h @ drop 4 p) = None"
      by (simp add: read_frame_def unat_length_frame read_exact_def)
    then show ?thesis by (simp only: p [symmetric])
  qed
qed

text \<open>The reader task decodes, whatever its buffer holds, as long as it is listened to.\<close>

definition read_result :: "nat \<Rightarrow> u8 list list \<Rightarrow> u8 list list \<times> panic option" where
  "read_result accepted ms = (take accepted ms, if accepted < length ms then Some UnwrapErr else None)"

lemma reader_loop_None: "read_frame stream = None \<Longrightarrow> reader_loop k stream buf = ([], None)"
  by (auto simp: reader_loop.simps [of k stream] read_frame_def Let_def split: option.splits)

lemma reader_loop_Some:
  assumes "read_frame stream = Some (p, rest)"
  shows "\<exists>buf'. reader_loop k stream buf =
    (if k = 0 then ([], Some UnwrapErr)
     else (p # fst (reader_loop (k - 1) rest buf'), snd (reader_loop (k - 1) rest buf')))"
proof -
  from assms obtain h s1 where r: "read_exact 4 stream = Some (h, s1)"
    "read_exact (unat (from_be_bytes h :: u32)) s1 = Some (p, rest)"
    by (auto simp: read_frame_def split: option.splits)
  then have "length p = unat (from_be_bytes h :: u32)" by (simp add: read_exact_Some)
  with r show ?thesis by (auto simp: reader_loop.simps [of k stream] Let_def)
qed

lemma reader_loop_eq: "fr.decodes stream ms \<Longrightarrow> reader_loop k stream buf = read_result k ms"
proof (induction arbitrary: k buf rule: fr.decodes.induct)
  case (decodes_end s)
  then show ?case by (simp add: reader_loop_None read_result_def)
next
  case (decodes_msg s m rest ms)
  from reader_loop_Some [OF decodes_msg.hyps(1), of k buf] decodes_msg.IH show ?case
    by (cases k) (auto simp: read_result_def)
qed

lemma writer_loop_eq:
  "writer_loop c queue = (concat (map write_frame (take c queue)), c < length queue)"
  by (induction c queue rule: writer_loop.induct) auto

section \<open>Properties\<close>

text \<open>
  C29: what is written is what is read. If the writer task sends messages shorter than
  \<open>2 ^ 32\<close> bytes and the connection breaks anywhere inside the following frame, the
  reader task at the other end delivers exactly those messages, in order, whatever its
  reused buffer held before; when the workers' channel closes after \<open>accepted\<close> of them,
  those are delivered and the task panics on the next.
\<close>

theorem frames_roundtrip:
  assumes "\<forall>m\<in>set msgs. length m < 2 ^ 32" and "length broken < 2 ^ 32"
    and "write_frame broken = tail @ rest" and "rest \<noteq> []"
  shows "reader_loop accepted (fst (writer_loop (length msgs) (msgs @ [broken])) @ tail) buf =
    (take accepted msgs, if accepted < length msgs then Some UnwrapErr else None)"
  using reader_loop_eq [OF fr.decodes_put_prefix, of msgs broken tail rest accepted buf] assms
  by (simp add: writer_loop_eq frame_fits_def read_result_def)

theorem frames_roundtrip_witness:
  "reader_loop 5 (fst (writer_loop (Suc (Suc 0)) [[1, 2, 3], [], [7]]) @ [0, 0, 0, 1]) [9, 9, 9, 9, 9] =
     ([[1, 2, 3], [] :: u8 list], None)"
  using frames_roundtrip [of "[[1, 2, 3], []]" "[7]" "[0, 0, 0, 1]" "[7]" 5 "[9, 9, 9, 9, 9]"]
  by (simp add: write_frame_def to_be_bytes_def)

text \<open>
  The header has 32 bits. A message of \<open>2 ^ 32 + k\<close> bytes is announced as \<open>k\<close> bytes:
  the reader delivers its first \<open>k\<close> bytes as a message and takes the rest for frames.
\<close>

theorem long_frame_splits:
  assumes "length m = 2 ^ 32 + k" and "k < 2 ^ 32"
  shows "\<exists>buf'. fst (reader_loop (Suc a) (write_frame m @ stream) buf) =
    take k m # fst (reader_loop a (drop k m @ stream) buf')"
proof -
  have "unat (word_of_nat l :: u32) = l mod 2 ^ 32" for l by (simp add: unat_of_nat take_bit_eq_mod)
  then have "unat (word_of_nat (length m) :: u32) = length m mod 2 ^ 32" .
  also have "\<dots> = k" using assms by simp
  finally have n: "unat (word_of_nat (length m) :: u32) = k" .
  have "read_exact k (m @ stream) = Some (take k m, drop k m @ stream)"
    using assms(1) by (simp add: read_exact_def)
  with n have "read_frame (write_frame m @ stream) = Some (take k m, drop k m @ stream)"
    by (simp add: read_frame_def write_frame_def)
  from reader_loop_Some [OF this, of "Suc a" buf] show ?thesis by auto
qed

theorem long_frame_splits_witness:
  "\<exists>buf'. fst (reader_loop 9 (write_frame (replicate (2 ^ 32) 0)) []) =
     [] # fst (reader_loop 8 (replicate (2 ^ 32) 0) buf')"
  using long_frame_splits [of "replicate (2 ^ 32) 0" 0 8 "[]" "[]"] by (simp del: replicate.simps)

end
