(* ===== verification/Peers.thy ===== *)
theory Peers
  imports Server Node
begin

text \<open>
  The control task of the server (\<open>dispatch_control\<close>, \<open>register\<close>, \<open>accept\<close>, \<open>connect\<close>
  of \<open>src/src/network/server.rs\<close>) and the peer handles of \<open>src/src/network/peer.rs\<close>.
  The write queue of a connection is a channel, named by a number; the store holds what
  each channel contains and which ones have lost their writer task. Socket addresses are a
  type parameter.
\<close>

section \<open>The program\<close>

datatype Direction = Incoming | Outgoing

record 'a PeerHandle =
  h_addr :: 'a
  write_queue :: nat

record 'a Server =
  peers :: "'a \<rightharpoonup> 'a PeerHandle"
  queues :: "nat \<Rightarrow> u8 list list"
  hung_up :: "nat set"
  next_queue :: nat

definition Server_new :: "'a Server" where
  "Server_new = \<lparr>peers = Map.empty, queues = (\<lambda>_. []), hung_up = {}, next_queue = 0\<rparr>"

text \<open>\<open>Handle::write\<close>: a message to a peer whose writer task is gone is dropped.\<close>

definition Handle_write :: "Crates \<Rightarrow> 'a PeerHandle \<Rightarrow> Message \<Rightarrow> 'a Server \<Rightarrow> 'a Server" where
  "Handle_write X h msg s =
     (let buffer = serialize_msg X msg
      in if write_queue h \<in> hung_up s then s
         else s\<lparr>queues := (queues s)(write_queue h := queues s (write_queue h) @ [buffer])\<rparr>)"

text \<open>
  \<open>peer::new\<close> and \<open>register\<close> each ask the stream for the peer's address, which fails
  (\<open>None\<close>) when the connection is already gone.
\<close>

definition peer_new :: "'a option \<Rightarrow> 'a Server \<Rightarrow> ('a PeerHandle \<times> 'a Server) option" where
  "peer_new peer_addr s =
     map_option (\<lambda>a. (\<lparr>h_addr = a, write_queue = next_queue s\<rparr>,
                       s\<lparr>next_queue := Suc (next_queue s)\<rparr>)) peer_addr"

definition Server_register ::
  "'a option \<Rightarrow> 'a option \<Rightarrow> Direction \<Rightarrow> 'a Server \<Rightarrow> ('a PeerHandle \<times> 'a Server) option" where
  "Server_register peer_addr1 peer_addr2 direction s =
     (case peer_new peer_addr1 s of
        None \<Rightarrow> None
      | Some (handle, s1) \<Rightarrow>
          (case peer_addr2 of
             None \<Rightarrow> None
           | Some addr \<Rightarrow> Some (handle, s1\<lparr>peers := (peers s1)(addr \<mapsto> handle)\<rparr>)))"

datatype 'a ServerSignal =
    ConnectNewPeer 'a
  | BroadcastMessage Message
  | GetNewPeer
  | DroppedPeer 'a
  | SendToPeer Address Message

text \<open>
  What the surroundings give to one signal: whether the outgoing connection succeeds, the
  two answers about the peer's address, whether the thread that asked for the connection
  still waits, and the iteration order of the map of peers.
\<close>

record 'a ServerInput =
  tcp_connect :: bool
  peer_addr1 :: "'a option"
  peer_addr2 :: "'a option"
  requester_waits :: bool
  peer_order :: "('a \<times> 'a PeerHandle) list"

definition Server_connect :: "'a \<Rightarrow> 'a ServerInput \<Rightarrow> 'a Server \<Rightarrow> ('a PeerHandle \<times> 'a Server) option" where
  "Server_connect addr inp s =
     (if tcp_connect inp then Server_register (peer_addr1 inp) (peer_addr2 inp) Outgoing s else None)"

definition Server_accept :: "'a ServerInput \<Rightarrow> 'a Server \<Rightarrow> 'a Server option" where
  "Server_accept inp s =
     map_option snd (Server_register (peer_addr1 inp) (peer_addr2 inp) Incoming s)"

text \<open>
  One signal of \<open>dispatch_control\<close>. An error of \<open>accept\<close> makes the function return it
  (\<open>?\<close>), and the spawned task unwraps it.
\<close>

fun dispatch_control ::
  "Crates \<Rightarrow> 'a Server \<Rightarrow> 'a ServerInput \<Rightarrow> 'a ServerSignal \<Rightarrow> ('a Server \<times> 'a PeerHandle option) res"
  where
  "dispatch_control X s inp (ConnectNewPeer addr) =
     (let r = Server_connect addr inp s
      in if requester_waits inp
         then Ret (case r of None \<Rightarrow> s | Some (h, s') \<Rightarrow> s', map_option fst r)
         else Panic UnwrapErr)"
| "dispatch_control X s inp (BroadcastMessage msg) =
     Ret (fold (\<lambda>(_, hd) s. Handle_write X hd msg s) (peer_order inp) s, None)"
| "dispatch_control X s inp GetNewPeer =
     (case Server_accept inp s of None \<Rightarrow> Panic UnwrapErr | Some s' \<Rightarrow> Ret (s', None))"
| "dispatch_control X s inp (DroppedPeer addr) = Ret (s\<lparr>peers := (peers s)(addr := None)\<rparr>, None)"
| "dispatch_control X s inp (SendToPeer receiver msg) = Panic Unimplemented"

text \<open>The listener turns an accepted stream into a signal; its task unwraps its error.\<close>

definition listener_step :: "bool \<Rightarrow> 'a ServerSignal res" where
  "listener_step accepted = (if accepted then Ret GetNewPeer else Panic UnwrapErr)"

text \<open>
  \<open>Handle\<close>: the signals its methods put into the control channel. The receiving end of the
  channel belongs to the control task; once that task has ended, \<open>open\<close> is false, the
  sending returns an error, and the \<open>unwrap\<close> of it panics in the thread that sends.
\<close>

definition control_send :: "bool \<Rightarrow> 'a ServerSignal list \<Rightarrow> 'a ServerSignal \<Rightarrow> 'a ServerSignal list res" where
  "control_send open chan sig = (if open then Ret (chan @ [sig]) else Panic UnwrapErr)"

definition Server_Handle_connect :: "bool \<Rightarrow> 'a ServerSignal list \<Rightarrow> 'a \<Rightarrow> 'a ServerSignal list res" where
  "Server_Handle_connect open chan addr = control_send open chan (ConnectNewPeer addr)"

definition Server_Handle_broadcast :: "bool \<Rightarrow> 'a ServerSignal list \<Rightarrow> Message \<Rightarrow> 'a ServerSignal list res" where
  "Server_Handle_broadcast open chan msg = control_send open chan (BroadcastMessage msg)"

definition Server_Handle_send :: "bool \<Rightarrow> 'a ServerSignal list \<Rightarrow> Address \<Rightarrow> Message \<Rightarrow> 'a ServerSignal list res" where
  "Server_Handle_send open chan receiver msg = control_send open chan (SendToPeer receiver msg)"

section \<open>Reachable states\<close>

text \<open>
  Besides signals, a writer task takes the first message off its queue, or stops, and a
  network worker answers a peer through the handle that came with its message.
\<close>

inductive server_step :: "Crates \<Rightarrow> 'a Server \<Rightarrow> 'a Server \<Rightarrow> bool" for X where
  server_dispatches: "enumerates (peer_order inp) (peers s) \<Longrightarrow> dispatch_control X s inp sig = Ret (s', r) \<Longrightarrow>
     server_step X s s'"
| server_writes: "queues s q = m # ms \<Longrightarrow> server_step X s (s\<lparr>queues := (queues s)(q := ms)\<rparr>)"
| server_hangs_up: "q < next_queue s \<Longrightarrow> server_step X s (s\<lparr>hung_up := insert q (hung_up s)\<rparr>)"
| server_answers: "write_queue h < next_queue s \<Longrightarrow> server_step X s (Handle_write X h msg s)"

inductive server_reach :: "Crates \<Rightarrow> 'a Server \<Rightarrow> bool" for X where
  server_new: "server_reach X Server_new"
| server_next: "server_reach X s \<Longrightarrow> server_step X s s' \<Longrightarrow> server_reach X s'"

text \<open>Every registered peer has a queue of its own; unused queues are empty.\<close>

definition peers_inv :: "'a Server \<Rightarrow> bool" where
  "peers_inv s \<longleftrightarrow>
     (\<forall>a h. peers s a = Some h \<longrightarrow> write_queue h < next_queue s) \<and>
     (\<forall>a a' h h'. peers s a = Some h \<longrightarrow> peers s a' = Some h' \<longrightarrow> write_queue h = write_queue h' \<longrightarrow> a = a') \<and>
     (\<forall>q \<ge> next_queue s. queues s q = [] \<and> q \<notin> hung_up s)"

lemma Handle_write_simps [simp]:
  "peers (Handle_write X h msg s) = peers s"
  "hung_up (Handle_write X h msg s) = hung_up s"
  "next_queue (Handle_write X h msg s) = next_queue s"
  by (simp_all add: Handle_write_def Let_def)

lemma queues_Handle_write:
  "queues (Handle_write X h msg s) q =
     queues s q @ (if q = write_queue h \<and> q \<notin> hung_up s then [serialize_msg X msg] else [])"
  by (simp add: Handle_write_def Let_def)

abbreviation write_all :: "Crates \<Rightarrow> Message \<Rightarrow> ('a \<times> 'a PeerHandle) list \<Rightarrow> 'a Server \<Rightarrow> 'a Server" where
  "write_all X msg hs s \<equiv> fold (\<lambda>(_, hd) s. Handle_write X hd msg s) hs s"

lemma write_all_frame [simp]:
  "peers (write_all X msg hs s) = peers s \<and> hung_up (write_all X msg hs s) = hung_up s \<and>
     next_queue (write_all X msg hs s) = next_queue s"
  by (induction hs arbitrary: s) (auto simp: case_prod_unfold)

lemma queues_write_all:
  "distinct (map (\<lambda>p. write_queue (snd p)) hs) \<Longrightarrow>
     queues (write_all X msg hs s) q = queues s q @
       (if q \<in> (\<lambda>p. write_queue (snd p)) ` set hs \<and> q \<notin> hung_up s then [serialize_msg X msg] else [])"
proof (induction hs arbitrary: s)
  case (Cons p hs)
  then have "distinct (map (\<lambda>p. write_queue (snd p)) hs)" by simp
  from Cons.IH [OF this, of "Handle_write X (snd p) msg s"] Cons.prems show ?case
    by (cases p) (auto simp: queues_Handle_write)
qed simp

lemma peers_inv_distinct:
  assumes "peers_inv s" and "enumerates hs (peers s)"
  shows "distinct (map (\<lambda>p. write_queue (snd p)) hs)"
proof -
  have "inj_on (\<lambda>p. write_queue (snd p)) (set hs)"
  proof (rule inj_onI)
    fix p p' assume p: "p \<in> set hs" "p' \<in> set hs" "write_queue (snd p) = write_queue (snd p')"
    then have "peers s (fst p) = Some (snd p)" "peers s (fst p') = Some (snd p')"
      using assms(2) unfolding enumerates_def by (metis prod.collapse)+
    then show "p = p'" using assms(1) p(3) unfolding peers_inv_def by (metis option.inject prod_eqI)
  qed
  moreover have "distinct hs" using assms(2) by (simp add: enumerates_def distinct_map)
  ultimately show ?thesis by (simp add: distinct_map)
qed

lemma peers_inv_register:
  assumes inv: "peers_inv s" and r: "Server_register p1 p2 d s = Some (h, s')"
  shows "peers_inv s'"
proof -
  have old: "write_queue h < next_queue s" "write_queue h \<noteq> next_queue s" if "peers s a = Some h" for a h
    using inv that unfolding peers_inv_def by (blast, metis less_irrefl)
  from r obtain a1 a2 where s': "s' = s\<lparr>next_queue := Suc (next_queue s),
      peers := (peers s)(a2 \<mapsto> \<lparr>h_addr = a1, write_queue = next_queue s\<rparr>)\<rparr>"
    by (auto simp: Server_register_def peer_new_def split: option.splits)
  have inj: "a = a'" if "peers s a = Some h" "peers s a' = Some h'" "write_queue h = write_queue h'" for a a' h h'
    using inv that unfolding peers_inv_def by blast
  let ?H = "\<lparr>h_addr = a1, write_queue = next_queue s\<rparr>"
  have P: "peers s' x = (if x = a2 then Some ?H else peers s x)" for x by (simp add: s')
  have "a = a'" if "peers s' a = Some h" "peers s' a' = Some h'" "write_queue h = write_queue h'" for a a' h h'
  proof (cases "a = a2 \<or> a' = a2")
    case True
    with that show ?thesis unfolding P by (auto dest: old(2) split: if_splits)
  next
    case False
    with that inj show ?thesis unfolding P by simp
  qed
  moreover have "write_queue h < next_queue s'" if "peers s' a = Some h" for a h
    using that unfolding P by (auto simp: s' dest!: old(1) split: if_splits)
  moreover have "\<forall>q \<ge> next_queue s'. queues s' q = [] \<and> q \<notin> hung_up s'"
    using inv by (simp add: s' peers_inv_def)
  ultimately show ?thesis unfolding peers_inv_def by blast
qed

lemma peers_inv_dispatch:
  assumes "dispatch_control X s inp sig = Ret (s', r)" and "enumerates (peer_order inp) (peers s)" and inv: "peers_inv s"
  shows "peers_inv s'"
proof (cases sig)
  case (ConnectNewPeer a)
  with assms show ?thesis
    by (auto simp: Server_connect_def Let_def split: if_splits option.splits intro: peers_inv_register)
next
  case (BroadcastMessage msg)
  then have s': "s' = write_all X msg (peer_order inp) s" using assms(1) by simp
  note d = peers_inv_distinct [OF inv assms(2)]
  have "write_queue h < next_queue s" if "(a, h) \<in> set (peer_order inp)" for a h
    using that assms(2) inv by (auto simp: enumerates_def peers_inv_def)
  then show ?thesis
    using inv unfolding s' peers_inv_def by (auto simp: queues_write_all [OF d] not_less [symmetric])
next
  case GetNewPeer
  with assms show ?thesis
    by (auto simp: Server_accept_def split: option.splits intro: peers_inv_register)
next
  case (DroppedPeer a)
  with assms show ?thesis by (auto simp: peers_inv_def split: if_splits)
next
  case (SendToPeer a msg)
  with assms show ?thesis by simp
qed

lemma peers_inv_step: "server_step X s s' \<Longrightarrow> peers_inv s \<Longrightarrow> peers_inv s'"
proof (induction rule: server_step.induct)
  case (server_dispatches inp s sig s' r)
  then show ?case by (rule_tac peers_inv_dispatch)
next
  case (server_writes s q m ms)
  then show ?case unfolding peers_inv_def by auto
next
  case (server_hangs_up q s)
  then show ?case by (auto simp: peers_inv_def)
next
  case (server_answers h s msg)
  then show ?case unfolding peers_inv_def by (auto simp: queues_Handle_write)
qed

lemma peers_inv_reach: "server_reach X s \<Longrightarrow> peers_inv s"
proof (induction rule: server_reach.induct)
  case server_new
  show ?case by (simp add: peers_inv_def Server_new_def)
next
  case (server_next s s')
  then show ?case by (blast intro: peers_inv_step)
qed

lemma next_queue_register: "Server_register p1 p2 d s = Some (h, s') \<Longrightarrow> next_queue s \<le> next_queue s'"
  by (auto simp: Server_register_def peer_new_def split: option.splits)

lemma next_queue_dispatch: "dispatch_control X s inp sig = Ret (s', r) \<Longrightarrow> next_queue s \<le> next_queue s'"
  by (cases sig)
    (auto simp: Server_connect_def Server_accept_def Let_def dest: next_queue_register split: if_splits option.splits)

lemma broadcast_queues:
  assumes "server_reach X s" and "enumerates (peer_order inp) (peers s)"
  shows "\<exists>s'. dispatch_control X s inp (BroadcastMessage msg) = Ret (s', None) \<and> peers s' = peers s \<and>
    (\<forall>q. queues s' q = queues s q @
       (if q \<in> write_queue ` ran (peers s) \<and> q \<notin> hung_up s then [serialize_msg X msg] else []))"
proof -
  note d = peers_inv_distinct [OF peers_inv_reach [OF assms(1)] assms(2)]
  have "(\<lambda>p. write_queue (snd p)) ` set (peer_order inp) = write_queue ` ran (peers s)"
    using assms(2) by (force simp: enumerates_def ran_def image_iff)
  with queues_write_all [OF d, of X msg s] show ?thesis by simp
qed

text \<open>What a queue of encoded messages becomes at the other end.\<close>

lemma queue_decoded:
  assumes "\<forall>m\<in>set ms. deserialize_msg X (serialize_msg X m) = Some m"
    and "\<forall>m\<in>set ms. length (serialize_msg X m) < 2 ^ 32"
  shows "map (deserialize_msg X)
    (fst (reader_loop (length ms) (fst (writer_loop (length ms) (map (serialize_msg X) ms))) buf)) = map Some ms"
proof -
  have "fr.decodes (concat (map write_frame (map (serialize_msg X) ms)) @ []) (map (serialize_msg X) ms)"
    using assms(2) by (intro fr.decodes_put) (auto simp: frame_fits_def read_frame_def read_exact_def)
  from reader_loop_eq [OF this] assms(1) show ?thesis
    by (simp add: writer_loop_eq read_result_def)
qed

section \<open>Properties\<close>

text \<open>
  A broadcast reaches every registered peer exactly once. In a reachable state of the
  server it appends the encoded message to the queue of each registered peer whose writer
  task is alive, changes no other queue, and keeps the peers, whatever the iteration order.
\<close>

theorem broadcast_once:
  assumes "server_reach X s" and "enumerates (peer_order inp) (peers s)"
  shows "\<exists>s'. dispatch_control X s inp (BroadcastMessage msg) = Ret (s', None) \<and> peers s' = peers s \<and>
    (\<forall>q. queues s' q = queues s q @
       (if q \<in> write_queue ` ran (peers s) \<and> q \<notin> hung_up s then [serialize_msg X msg] else []))"
  using assms by (rule broadcast_queues)

definition demo_server_input :: "nat ServerInput" where
  "demo_server_input =
     \<lparr>tcp_connect = True, peer_addr1 = Some 5, peer_addr2 = Some 5, requester_waits = True,
      peer_order = []\<rparr>"

definition demo_server :: "nat Server" where
  "demo_server =
     \<lparr>peers = [5 \<mapsto> \<lparr>h_addr = 5, write_queue = 0\<rparr>], queues = (\<lambda>_. []), hung_up = {}, next_queue = 1\<rparr>"

lemma demo_server_reach: "server_reach X demo_server"
proof -
  have "server_reach X (Server_new :: nat Server)" by (rule server_new)
  moreover have "enumerates (peer_order demo_server_input) (peers (Server_new :: nat Server))"
    by (simp add: enumerates_def demo_server_input_def Server_new_def)
  moreover have "dispatch_control X Server_new demo_server_input (ConnectNewPeer 5) =
      Ret (demo_server, Some \<lparr>h_addr = 5, write_queue = 0\<rparr>)"
    by (simp add: Server_connect_def Server_register_def peer_new_def demo_server_input_def
        demo_server_def Server_new_def)
  ultimately show ?thesis by (metis server_dispatches server_next)
qed

theorem broadcast_once_witness:
  "\<exists>s'. dispatch_control (demo_crates True) demo_server
       (demo_server_input\<lparr>peer_order := [(5, \<lparr>h_addr = 5, write_queue = 0\<rparr>)]\<rparr>)
       (BroadcastMessage (Ping [])) = Ret (s', None) \<and> length (queues s' 0) = 1 \<and> queues s' 1 = []"
proof -
  let ?inp = "demo_server_input\<lparr>peer_order := [(5, \<lparr>h_addr = 5, write_queue = 0\<rparr>)]\<rparr>"
  have en: "enumerates (peer_order ?inp) (peers demo_server)"
    by (auto simp: enumerates_def demo_server_def split: if_splits)
  obtain s' where s': "dispatch_control (demo_crates True) demo_server ?inp (BroadcastMessage (Ping [])) = Ret (s', None)"
    "\<forall>q. queues s' q = queues demo_server q @ (if q \<in> write_queue ` ran (peers demo_server) \<and>
       q \<notin> hung_up demo_server then [serialize_msg (demo_crates True) (Ping [])] else [])"
    using broadcast_once [where X = "demo_crates True" and msg = "Ping []", OF demo_server_reach en] by blast
  moreover have "ran (peers demo_server) = {\<lparr>h_addr = 5, write_queue = 0\<rparr>}" "hung_up demo_server = {}"
    "queues demo_server q = []" for q by (simp_all add: demo_server_def ran_def)
  ultimately show ?thesis by auto
qed

text \<open>
  A broadcast message arrives. If the queue of a peer holds encodings of messages that
  fit a frame and its writer task sends all of it, then the other end decodes the queue's
  messages in order. The law of the encoder (decoding inverts encoding) is a hypothesis.
\<close>

theorem queue_arrives:
  assumes "\<forall>m\<in>set ms. deserialize_msg X (serialize_msg X m) = Some m"
    and "queues s q = map (serialize_msg X) ms" and "\<forall>m\<in>set ms. length (serialize_msg X m) < 2 ^ 32"
  shows "map (deserialize_msg X)
    (fst (reader_loop (length ms) (fst (writer_loop (length ms) (queues s q))) buf)) = map Some ms"
  using queue_decoded [OF assms(1,3)] assms(2) by simp

theorem queue_arrives_witness:
  "map (deserialize_msg (demo_crates True)) (fst (reader_loop 2 (fst (writer_loop 2
     (queues (demo_server\<lparr>queues := (\<lambda>_. [[], []])\<rparr>) 0))) [1, 2])) = [Some (Ping []), Some (Ping [])]"
proof -
  have "map (deserialize_msg (demo_crates True)) (fst (reader_loop (length [Ping [], Ping []])
     (fst (writer_loop (length [Ping [], Ping []])
     (queues (demo_server\<lparr>queues := (\<lambda>_. [[], []])\<rparr>) 0))) [1, 2])) = map Some [Ping [], Ping []]"
    by (rule queue_arrives) (simp_all add: demo_crates_def)
  then show ?thesis by (simp add: eval_nat_numeral)
qed

text \<open>
  When the control task dies. It panics exactly on a \<open>SendToPeer\<close> signal, on an
  outgoing connection whose requester has gone, and on an incoming connection that is
  already closed when its address is asked for.
\<close>

theorem dispatch_control_panics:
  "(\<exists>e. dispatch_control X s inp sig = Panic e) \<longleftrightarrow>
     (case sig of
        SendToPeer _ _ \<Rightarrow> True
      | ConnectNewPeer _ \<Rightarrow> \<not> requester_waits inp
      | GetNewPeer \<Rightarrow> peer_addr1 inp = None \<or> peer_addr2 inp = None
      | _ \<Rightarrow> False)"
  by (cases sig) (auto simp: Let_def Server_accept_def Server_register_def peer_new_def split: option.splits)

end
