(* ===== verification/Process.thy ===== *)
theory Process
  imports Interleaving MinerLocks GeneratorLocks Races Peers
begin

text \<open>
  The whole program, lock section by lock section and channel by channel: the network
  workers, the miner, its worker, the generator, the requests at the HTTP interface, the
  control task of the server with its peers, and the channels between them, as \<open>main\<close> of
  \<open>src/src/main.rs\<close> creates them. The parts are the step functions of the other theories;
  here they are put over one state.
\<close>

section \<open>The program\<close>

text \<open>
  \<open>core\<close> holds what is behind the mutexes and the threads that use the block tree and the
  ledger states. Thread \<open>k\<close> of it is a network worker below the number of workers, then
  comes the miner's worker, and the later ones are the state queries at the interface, each
  of which may begin at any time. A network worker that is in one of the arms that use the
  mempool has its position in \<open>arm\<close>; \<open>outbox\<close> is what a thread still has to send, and
  \<open>answers_to\<close> the peer whose message it handles; a worker in \<open>gone\<close> has panicked on the
  message itself or on a broadcast. When the control task has panicked, \<open>control_gone\<close>
  holds: its end of the control channel is gone, and every sending there fails.
\<close>

record 'a Process =
  core :: Config
  pool_bad :: bool
  arm :: "nat \<Rightarrow> PoolThread option"
  outbox :: "nat \<Rightarrow> action list"
  answers_to :: "nat \<rightharpoonup> 'a PeerHandle"
  gone :: "nat set"
  p_miner :: "MinerPos \<times> Miner"
  p_generator :: "GeneratorPos \<times> Generator"
  announcing :: "action list"
  miner_chan :: "Miner.ControlSignal list"
  generator_chan :: "TxGenerator.ControlSignal list"
  server :: "'a Server"
  control :: "'a ServerSignal list"
  control_gone :: bool
  messages :: "(u8 list \<times> 'a PeerHandle) list"

abbreviation the_node :: "'a Process \<Rightarrow> Node" where
  "the_node p \<equiv> sh_node (shared (core p))"

definition set_shared :: "Shared \<Rightarrow> 'a Process \<Rightarrow> 'a Process" where
  "set_shared sh p = p\<lparr>core := (core p)\<lparr>shared := sh\<rparr>\<rparr>"

definition set_pool :: "Mempool \<Rightarrow> 'a Process \<Rightarrow> 'a Process" where
  "set_pool mp p = set_shared ((shared (core p))\<lparr>sh_node := (the_node p)\<lparr>mempool := mp\<rparr>\<rparr>) p"

definition set_thread :: "nat \<Rightarrow> Thread \<Rightarrow> 'a Process \<Rightarrow> 'a Process" where
  "set_thread k th p = p\<lparr>core := (core p)\<lparr>threads := (threads (core p))(k := th)\<rparr>\<rparr>"

text \<open>The channels of the server and of the workers are bounded; a thread waits for room.\<close>

definition has_room :: "'b list \<Rightarrow> bool" where
  "has_room chan \<longleftrightarrow> length chan < 10000"

text \<open>A worker that may take the next message, or the next finished block.\<close>

definition ready :: "'a Process \<Rightarrow> nat \<Rightarrow> Local \<Rightarrow> bool" where
  "ready p k l \<longleftrightarrow> threads (core p) k = Worker Idle l \<and> outbox p k = [] \<and> arm p k = None \<and> k \<notin> gone p"

text \<open>A network worker, or the miner's worker, that has not panicked.\<close>

definition works :: "'a Process \<Rightarrow> nat \<Rightarrow> bool" where
  "works p k \<longleftrightarrow> k \<notin> gone p \<and> arm p k \<noteq> Some Crashed \<and> (\<forall>e l. threads (core p) k \<noteq> Worker (Stopped e) l)"

text \<open>The arms of the message loop: those over the mempool, and those that hold the tree's lock once.\<close>

fun pool_arm :: "Message \<Rightarrow> PoolThread option" where
  "pool_arm (GetTransactions hs) = Some (Asking hs [])"
| "pool_arm (Transactions ts) = Some (Pooling ts [])"
| "pool_arm _ = None"

fun holds_tree :: "Message \<Rightarrow> bool" where
  "holds_tree (NewBlockHashes hs) \<longleftrightarrow> True"
| "holds_tree (GetBlocks hs) \<longleftrightarrow> True"
| "holds_tree _ \<longleftrightarrow> False"

fun answer_of :: "PoolThread \<Rightarrow> action list option" where
  "answer_of (Answered has_trans ts) = Some (if has_trans then [Reply (Transactions ts)] else [])"
| "answer_of (Pooled new_trans) = Some (if 0 < length new_trans then [Broadcast (NewTransactionHashes new_trans)] else [])"
| "answer_of _ = None"

fun next_signal :: "'s list \<Rightarrow> 's received" where
  "next_signal [] = Nothing"
| "next_signal (s # ss) = received.Received s"

text \<open>
  What the surroundings of a turn of the miner are: its control channel, the iteration order
  of the mempool, and whether its worker still receives.
\<close>

definition miner_surroundings :: "nat \<Rightarrow> 'a Process \<Rightarrow> MinerInput \<Rightarrow> bool" where
  "miner_surroundings n p inp \<longleftrightarrow> signal inp = next_signal (miner_chan p) \<and>
     enumerates (order inp) (trans (mempool (the_node p))) \<and>
     (receiver_alive inp \<longleftrightarrow> works p n)"

definition generator_surroundings :: "'a Process \<Rightarrow> GeneratorInput \<Rightarrow> bool" where
  "generator_surroundings p inp \<longleftrightarrow> gen_signal inp = next_signal (generator_chan p) \<and>
     enumerates (entries inp) (states (local_state (snd (p_generator p))))"

text \<open>
  What a request does besides answering. A thread of a request that cannot broadcast
  panics there, alone and with no lock.
\<close>

fun apply_effect :: "ApiEffect \<Rightarrow> 'a Process \<Rightarrow> 'a Process" where
  "apply_effect (MinerStart i) p = p\<lparr>miner_chan := Handle_start (miner_chan p) i\<rparr>"
| "apply_effect (GeneratorStart i) p = p\<lparr>generator_chan := TxGenerator_start (generator_chan p) i\<rparr>"
| "apply_effect (NetworkBroadcast m) p =
     (case Server_Handle_broadcast (\<not> control_gone p) (control p) m of
        Panic e \<Rightarrow> p
      | Ret chan \<Rightarrow> p\<lparr>control := chan\<rparr>)"

text \<open>
  A step of the process. Network workers: a lock section of the \<open>Blocks\<close> arm, the arrival
  of a message in one of the arms, a lock section over the mempool, the end of such an arm,
  and the sending of what is in the outbox. The miner's worker takes a finished block. The
  miner and the generator do a lock section, and the generator announces. The interface
  reads lock by lock for a state query; the other requests that read take no part here.
  A response to such a request may fail to be sent; if it is the longest chain, the lock of
  the tree is poisoned. The control task handles a signal or panics on it, a writer task
  takes a message from its queue or ends, a reader task delivers some bytes as long as there
  is a worker, a peer connects, the program connects to one. A thread that broadcasts when
  the control task has panicked panics too. What becomes of the other tasks of the server
  then is left open: they may go on or not. Bytes and addresses of the peers are arbitrary;
  \<open>U\<close> holds the blocks that may occur.
\<close>

inductive process_step :: "Crates \<Rightarrow> nat \<Rightarrow> Block set \<Rightarrow> 'a Process \<Rightarrow> 'a Process \<Rightarrow> bool" for X n U where
  worker_section: "k \<le> n \<Longrightarrow> threads (core p) k = Worker pos l \<Longrightarrow> outbox p k = [] \<Longrightarrow> arm p k = None \<Longrightarrow> k \<notin> gone p \<Longrightarrow>
     lock_step X (shared (core p)) (pos, l) = (sh, pos', l') \<Longrightarrow>
     process_step X n U p (set_thread k (Worker pos' l') (set_shared sh
       (p\<lparr>outbox := (outbox p)(k := drop (length (out_msgs l)) (out_msgs l'))\<rparr>)))"
| takes_blocks: "k < n \<Longrightarrow> ready p k l \<Longrightarrow> messages p = (raw, h) # ms \<Longrightarrow> deserialize_msg X raw = Some (Blocks bs) \<Longrightarrow>
     set bs \<subseteq> U \<Longrightarrow> deliver_blocks bs l = (pos, l') \<Longrightarrow>
     process_step X n U p (set_thread k (Worker pos l')
       (p\<lparr>answers_to := (answers_to p)(k \<mapsto> h), messages := ms\<rparr>))"
| takes_pool_message: "k < n \<Longrightarrow> ready p k l \<Longrightarrow> messages p = (raw, h) # ms \<Longrightarrow> deserialize_msg X raw = Some msg \<Longrightarrow>
     pool_arm msg = Some th \<Longrightarrow>
     process_step X n U p
       (p\<lparr>arm := (arm p)(k := Some th), answers_to := (answers_to p)(k \<mapsto> h), messages := ms\<rparr>)"
| takes_other: "k < n \<Longrightarrow> ready p k l \<Longrightarrow> messages p = (raw, h) # ms \<Longrightarrow> deserialize_msg X raw = Some msg \<Longrightarrow>
     pool_arm msg = None \<Longrightarrow> (\<forall>bs. msg \<noteq> Blocks bs) \<Longrightarrow>
     holds_tree msg \<longrightarrow> BlockchainLock \<notin> sh_poisoned (shared (core p)) \<Longrightarrow>
     handle_message X (the_node p) [] msg = Ret (nd, os, out) \<Longrightarrow>
     process_step X n U p
       (p\<lparr>outbox := (outbox p)(k := out), answers_to := (answers_to p)(k \<mapsto> h), messages := ms\<rparr>)"
| takes_and_panics: "k < n \<Longrightarrow> ready p k l \<Longrightarrow> messages p = (raw, h) # ms \<Longrightarrow>
     (case deserialize_msg X raw of
        None \<Rightarrow> True
      | Some msg \<Rightarrow> holds_tree msg \<and> BlockchainLock \<in> sh_poisoned (shared (core p))) \<Longrightarrow>
     process_step X n U p (p\<lparr>gone := insert k (gone p), messages := ms\<rparr>)"
| pool_section: "arm p k = Some th \<Longrightarrow>
     thread_step X \<lparr>pool = trans (mempool (the_node p)), poisoned = pool_bad p\<rparr> th = (q, th') \<Longrightarrow>
     process_step X n U p (set_pool ((mempool (the_node p))\<lparr>trans := pool q\<rparr>)
       (p\<lparr>pool_bad := poisoned q, arm := (arm p)(k := Some th')\<rparr>))"
| arm_ends: "arm p k = Some th \<Longrightarrow> answer_of th = Some out \<Longrightarrow>
     process_step X n U p (p\<lparr>arm := (arm p)(k := None), outbox := (outbox p)(k := out)\<rparr>)"
| worker_replies: "outbox p k = Reply m # out \<Longrightarrow> answers_to p k = Some h \<Longrightarrow>
     process_step X n U p
       (p\<lparr>outbox := (outbox p)(k := out), server := Handle_write X h m (server p)\<rparr>)"
| worker_broadcasts: "outbox p k = Broadcast m # out \<Longrightarrow> has_room (control p) \<Longrightarrow>
     Server_Handle_broadcast (\<not> control_gone p) (control p) m = Ret chan \<Longrightarrow>
     process_step X n U p (p\<lparr>outbox := (outbox p)(k := out), control := chan\<rparr>)"
| broadcast_panics: "outbox p k = Broadcast m # out \<Longrightarrow>
     Server_Handle_broadcast (\<not> control_gone p) (control p) m = Panic e \<Longrightarrow>
     process_step X n U p (p\<lparr>outbox := (outbox p)(k := []), gone := insert k (gone p)\<rparr>)"
| takes_finished: "ready p n l \<Longrightarrow> queue (core p) = b # bs \<Longrightarrow> deliver_mined b l = (pos, l') \<Longrightarrow>
     process_step X n U p 
       (p\<lparr>core := (core p)\<lparr>threads := (threads (core p))(n := Worker pos l'), queue := bs\<rparr>\<rparr>)"
| miner_section: "miner_surroundings n p inp \<Longrightarrow>
     miner_lock_step X (BlockchainLock \<in> sh_poisoned (shared (core p))) (pool_bad p) inp (the_node p) (p_miner p) =
       (nd, t, sent) \<Longrightarrow> (\<forall>b. fst t = MinerSend b \<longrightarrow> b \<in> U) \<Longrightarrow>
     process_step X n U p (p\<lparr>
       core := (core p)\<lparr>shared := (shared (core p))\<lparr>sh_node := nd\<rparr>,
         attempted := (case fst t of MinerSend b \<Rightarrow> Some b | _ \<Rightarrow> if sent = None then attempted (core p) else None),
         queue := queue (core p) @ (case sent of None \<Rightarrow> [] | Some b \<Rightarrow> [b])\<rparr>,
       p_miner := t,
       miner_chan := (if fst (p_miner p) = MinerTop \<and> Miner.operating_state (snd (p_miner p)) \<noteq> Miner.ShutDown
                      then tl (miner_chan p) else miner_chan p)\<rparr>)"
| generator_section: "announcing p = [] \<Longrightarrow> generator_surroundings p inp \<Longrightarrow>
     generator_lock_step X (pool_bad p) inp (shared (core p)) (p_generator p) = (sh, t, out) \<Longrightarrow>
     process_step X n U p (set_shared sh (p\<lparr>p_generator := t, announcing := out,
       generator_chan := (if fst (p_generator p) = GeneratorTop \<and>
                             GeneLoop.operating_state (snd (p_generator p)) \<noteq> TxGenerator.ShutDown
                          then tl (generator_chan p) else generator_chan p)\<rparr>))"
| generator_announces: "announcing p = Broadcast m # out \<Longrightarrow> has_room (control p) \<Longrightarrow>
     Server_Handle_broadcast (\<not> control_gone p) (control p) m = Ret chan \<Longrightarrow>
     process_step X n U p (p\<lparr>announcing := out, control := chan\<rparr>)"
| announcement_panics: "announcing p = Broadcast m # out \<Longrightarrow>
     Server_Handle_broadcast (\<not> control_gone p) (control p) m = Panic e \<Longrightarrow>
     process_step X n U p (p\<lparr>p_generator := (GeneratorPanicked e, snd (p_generator p)), announcing := []\<rparr>)"
| query_section: "n < k \<Longrightarrow> threads (core p) k = Reading r \<Longrightarrow> reader_step (shared (core p)) r = (sh, r') \<Longrightarrow>
     process_step X n U p (set_thread k (Reading r') (set_shared sh p))"
| request: "api_serve X (the_node p) ord sent req = Ret (resp, effects, False) \<Longrightarrow>
     (\<forall>m. NetworkBroadcast m \<in> set effects \<longrightarrow> has_room (control p)) \<Longrightarrow>
     process_step X n U p (fold apply_effect effects p)"
| response_breaks: "api_serve X (the_node p) ord sent req = Ret (resp, effects, True) \<Longrightarrow>
     BlockchainLock \<notin> sh_poisoned (shared (core p)) \<Longrightarrow>
     process_step X n U p (set_shared ((shared (core p))
       \<lparr>sh_poisoned := insert BlockchainLock (sh_poisoned (shared (core p)))\<rparr>) p)"
| control_task: "control p = sig # sigs \<Longrightarrow> enumerates (peer_order inp) (peers (server p)) \<Longrightarrow>
     dispatch_control X (server p) inp sig = Ret (s, r) \<Longrightarrow>
     process_step X n U p (p\<lparr>server := s, control := sigs\<rparr>)"
| control_task_panics: "control p = sig # sigs \<Longrightarrow> enumerates (peer_order inp) (peers (server p)) \<Longrightarrow>
     dispatch_control X (server p) inp sig = Panic e \<Longrightarrow>
     process_step X n U p (p\<lparr>control := [], control_gone := True\<rparr>)"
| writer_task: "queues (server p) q = m # ms \<Longrightarrow> q \<notin> hung_up (server p) \<Longrightarrow>
     process_step X n U p (p\<lparr>server := (server p)\<lparr>queues := (queues (server p))(q := ms)\<rparr>\<rparr>)"
| writer_ends: "q < next_queue (server p) \<Longrightarrow> q \<notin> hung_up (server p) \<Longrightarrow> has_room (control p) \<Longrightarrow>
     process_step X n U p (p\<lparr>server := (server p)\<lparr>hung_up := insert q (hung_up (server p))\<rparr>,
       control := (if control_gone p then control p else control p @ [DroppedPeer a])\<rparr>)"
| reader_task: "write_queue h < next_queue (server p) \<Longrightarrow> has_room (messages p) \<Longrightarrow> (\<exists>k<n. works p k) \<Longrightarrow>
     process_step X n U p (p\<lparr>messages := messages p @ [(raw, h)]\<rparr>)"
| peer_arrives: "listener_step accepted = Ret sig \<Longrightarrow> has_room (control p) \<Longrightarrow> \<not> control_gone p \<Longrightarrow>
     process_step X n U p (p\<lparr>control := control p @ [sig]\<rparr>)"
| connects: "has_room (control p) \<Longrightarrow> Server_Handle_connect (\<not> control_gone p) (control p) a = Ret chan \<Longrightarrow>
     process_step X n U p (p\<lparr>control := chan\<rparr>)"

text \<open>
  The process after \<open>main\<close> has created everything, for \<open>n\<close> network workers and the node
  with a key index; query \<open>k\<close> will ask for the block number \<open>queries k\<close>.
\<close>

definition process_start :: "Crates \<Rightarrow> nat \<Rightarrow> nat \<Rightarrow> (nat \<Rightarrow> u32) \<Rightarrow> 'a Process res" where
  "process_start X n key_index queries =
     bind_res (TxGenerator_new X key_index) (\<lambda>g0.
     bind_res (generator_start (init_node X) g0) (\<lambda>g.
       Ret \<lparr>core = \<lparr>shared = \<lparr>sh_node = init_node X, sh_poisoned = {}\<rparr>,
              threads = (\<lambda>k. if k \<le> n then Worker Idle fresh_local else Reading (ApiTip (queries k))),
              attempted = None, queue = []\<rparr>,
            pool_bad = False, arm = (\<lambda>_. None), outbox = (\<lambda>_. []), answers_to = Map.empty, gone = {},
            p_miner = (MinerTop, Miner_new), p_generator = (GeneratorTop, g), announcing = [],
            miner_chan = [], generator_chan = [], server = Server_new, control = [], control_gone = False, messages = []\<rparr>))"

inductive process_reach :: "Crates \<Rightarrow> nat \<Rightarrow> Block set \<Rightarrow> 'a Process \<Rightarrow> bool" for X n U where
  process_init: "process_start X n key_index queries = Ret p \<Longrightarrow> process_reach X n U p"
| process_next: "process_reach X n U p \<Longrightarrow> process_step X n U p p' \<Longrightarrow> process_reach X n U p'"

section \<open>The process and its parts\<close>

text \<open>What holds between the steps for the generator, the miner and the answers.\<close>

definition process_links :: "Crates \<Rightarrow> 'a Process \<Rightarrow> bool" where
  "process_links X p \<longleftrightarrow>
     (\<forall>t. fst (p_generator p) = GeneratorFetch t \<longrightarrow> block_state (the_node p) t \<noteq> None) \<and>
     (\<forall>b. fst (p_miner p) = MinerSend b \<longrightarrow> attempted (core p) = Some b \<and> hash_block X b \<le> genesis_difficulty) \<and>
     (\<forall>k h. answers_to p k = Some h \<longrightarrow> write_queue h < next_queue (server p)) \<and>
     (\<forall>(raw, h)\<in>set (messages p). write_queue h < next_queue (server p))"

lemmas process_sets = set_shared_def set_pool_def set_thread_def

lemma lock_sys_grows:
  assumes "lock_sys_step X U c c'" and "config_ok X U s0 c"
  shows "shared_grows (shared c) (shared c')"
  using assms(1)
proof cases
  case (section_step k sh' th')
  have "lk.all_hold X U s0 (shared c) (threads c)" using assms(2) by (simp add: config_ok_def)
  then show ?thesis using section_step lk.step_grows by (simp add: lk.all_hold_def) blast
qed (auto simp: shared_grows_def node_grows_def)

lemma apply_effects_frame:
  "core (fold apply_effect es p) = core p \<and> server (fold apply_effect es p) = server p \<and>
     p_miner (fold apply_effect es p) = p_miner p \<and> p_generator (fold apply_effect es p) = p_generator p \<and>
     arm (fold apply_effect es p) = arm p \<and> pool_bad (fold apply_effect es p) = pool_bad p \<and>
     outbox (fold apply_effect es p) = outbox p \<and> gone (fold apply_effect es p) = gone p \<and>
     answers_to (fold apply_effect es p) = answers_to p \<and> messages (fold apply_effect es p) = messages p \<and>
     control_gone (fold apply_effect es p) = control_gone p"
proof (induction es arbitrary: p)
  case (Cons e es)
  then show ?case by (cases e) (simp_all split: res.splits)
qed simp

text \<open>A section of the miner is a step of the core, or none.\<close>

lemma miner_section_core:
  assumes step: "miner_lock_step X (BlockchainLock \<in> sh_poisoned sh) bad inp (sh_node sh) u = (nd, t, sent)"
    and U: "\<forall>b. fst t = MinerSend b \<longrightarrow> b \<in> U"
    and link: "\<forall>b. fst u = MinerSend b \<longrightarrow> attempted c = Some b \<and> hash_block X b \<le> genesis_difficulty"
    and c: "shared c = sh"
    and c': "c' = c\<lparr>shared := sh\<lparr>sh_node := nd\<rparr>,
         attempted := (case fst t of MinerSend b \<Rightarrow> Some b | _ \<Rightarrow> if sent = None then attempted c else None),
         queue := queue c @ (case sent of None \<Rightarrow> [] | Some b \<Rightarrow> [b])\<rparr>"
  shows "(c' = c \<or> lock_sys_step X U c c') \<and>
    (\<forall>b. fst t = MinerSend b \<longrightarrow> attempted c' = Some b \<and> hash_block X b \<le> genesis_difficulty)"
proof -
  obtain pos m where u: "u = (pos, m)" by (cases u)
  have silent: ?thesis if "nd = sh_node sh" "sent = None" "\<forall>b. fst t \<noteq> MinerSend b"
  proof -
    have "c' = c" using that c c' by (cases "fst t") simp_all
    with that(3) show ?thesis by simp
  qed
  have pool: ?thesis if "nd = (sh_node sh)\<lparr>mempool := mp\<rparr>" "sent = None" "\<forall>b. fst t \<noteq> MinerSend b" for mp
  proof -
    have "c' = c\<lparr>shared := (shared c)\<lparr>sh_node := (sh_node (shared c))\<lparr>mempool := mp\<rparr>\<rparr>\<rparr>"
      using that c c' by (cases "fst t") simp_all
    with pool_changes that(3) show ?thesis by metis
  qed
  show ?thesis
  proof (cases pos)
    case MinerTop
    with step u show ?thesis
      by (intro silent) (auto split: Miner.OperatingState.splits received.splits if_splits)
  next
    case MinerSelect
    with step u show ?thesis by (intro silent) (auto simp: Let_def split: option.splits if_splits prod.splits)
  next
    case (MinerBuild millis)
    let ?inp = "inp\<lparr>order := []\<rparr>"
    let ?b = "attempt X (sh_node sh) m ?inp millis"
    have "selection m ?inp = (to_remove m, picked m)" by (simp add: selection_def)
    then have "candidate X (picked m) (Blockchain_tip (blockchain (sh_node sh))) (rnd inp) millis = Some (Ret ?b)"
      using candidate_eq [of X "picked m"] by (simp add: attempt_def Blockchain_tip_def)
    then have t: "nd = sh_node sh" "sent = None" "fst t = (if BlockchainLock \<in> sh_poisoned sh then MinerPanicked UnwrapErr
        else if hash_block X ?b \<le> genesis_difficulty then MinerSend ?b else MinerCount)"
      using step u MinerBuild by (auto split: if_splits)
    show ?thesis
    proof (cases "BlockchainLock \<in> sh_poisoned sh \<or> \<not> hash_block X ?b \<le> genesis_difficulty")
      case True
      with t show ?thesis by (intro silent) auto
    next
      case False
      with t U have b: "fst t = MinerSend ?b" "?b \<in> U" by auto
      have "lock_sys_step X U c (c\<lparr>attempted := Some ?b\<rparr>)"
        using miner_attempt [of c X m ?inp millis U] False b(2) c by simp
      moreover have "c' = c\<lparr>attempted := Some ?b\<rparr>" using c c' t(1,2) b(1) by simp
      ultimately show ?thesis using b(1) False by simp
    qed
  next
    case (MinerSend b)
    show ?thesis
    proof (cases "receiver_alive inp")
      case True
      with step u MinerSend have t: "nd = sh_node sh" "sent = Some b" "fst t = MinerRemove (to_remove m)" by auto
      have b: "attempted c = Some b" "hash_block X b \<le> genesis_difficulty" using link u MinerSend by simp_all
      have "c' = c\<lparr>attempted := None, queue := queue c @ [b]\<rparr>" using c c' t by simp
      with miner_sends [OF b] t(3) show ?thesis by simp
    next
      case False
      with step u MinerSend show ?thesis by (intro silent) auto
    qed
  next
    case (MinerRemove hs)
    show ?thesis
    proof (cases hs)
      case Nil
      with step u MinerRemove show ?thesis by (intro silent) auto
    next
      case (Cons h hs')
      show ?thesis
      proof (cases bad)
        case True
        with step u MinerRemove Cons show ?thesis by (intro silent) auto
      next
        case False
        with step u MinerRemove Cons show ?thesis
          by (intro pool [of "(mempool (sh_node sh))\<lparr>trans := (trans (mempool (sh_node sh)))(h := None)\<rparr>"]) auto
      qed
    qed
  next
    case MinerCount
    with step u show ?thesis by (intro silent) (auto split: res.splits)
  next
    case MinerReturned
    with step u show ?thesis by (intro silent) auto
  next
    case (MinerPanicked e)
    with step u show ?thesis by (intro silent) auto
  qed
qed


text \<open>
  A section of the generator touches the mempool at most; it asks for the state of the tip
  it has read, which is recorded.
\<close>

lemma generator_section_pool:
  assumes "generator_lock_step X bad inp sh t = (sh', t', out)" and "BlockStateLock \<notin> sh_poisoned sh"
    and "\<forall>h. fst t = GeneratorFetch h \<longrightarrow> block_state (sh_node sh) h \<noteq> None"
  shows "(\<exists>mp. sh' = sh\<lparr>sh_node := (sh_node sh)\<lparr>mempool := mp\<rparr>\<rparr>) \<and>
    (\<forall>h. fst t' = GeneratorFetch h \<longrightarrow> h = tip (blockchain (sh_node sh)))"
proof -
  have same: "\<exists>mp. sh = sh\<lparr>sh_node := (sh_node sh)\<lparr>mempool := mp\<rparr>\<rparr>"
    by (rule exI [of _ "mempool (sh_node sh)"]) simp
  obtain pos g where t: "t = (pos, g)" by (cases t)
  show ?thesis
  proof (cases pos)
    case (GeneratorStore stx)
    with assms t show ?thesis using same by (auto split: if_splits)
  qed (use assms t same in \<open>auto simp: Blockchain_tip_def Let_def
      split: TxGenerator.OperatingState.splits received.splits if_splits option.splits res.splits\<close>)
qed

text \<open>Every step of the process is a step of its core, or leaves it as it is.\<close>

definition process_inv :: "Crates \<Rightarrow> Block set \<Rightarrow> 'a Process \<Rightarrow> bool" where
  "process_inv X U p \<longleftrightarrow> lock_reach X U (core p) \<and> server_reach X (server p) \<and> process_links X p"

lemma process_step_core:
  assumes step: "process_step X n U p p'" and U: "hashes_sound X U" and inv: "process_inv X U p"
  shows "core p' = core p \<or> lock_sys_step X U (core p) (core p')"
  using step
proof cases
  case (worker_section k pos l sh pos' l')
  have "thread_lock_step X (shared (core p)) (threads (core p) k) = (sh, Worker pos' l')"
    using worker_section by simp
  from lock_sys_step.section_step [OF this] worker_section(1) show ?thesis
    by (simp add: process_sets)
next
  case (takes_blocks k l raw h ms bs pos l')
  then have "threads (core p) k = Worker Idle l" by (simp add: ready_def)
  from message_arrives [OF this takes_blocks(6,7)] takes_blocks(1) show ?thesis by (simp add: process_sets)
next
  case (pool_section k th q th')
  then show ?thesis using pool_changes by (simp add: process_sets)
next
  case (takes_finished l b bs pos l')
  then have "threads (core p) n = Worker Idle l" by (simp add: ready_def)
  from mined_arrives [OF this takes_finished(3,4)] takes_finished(1) show ?thesis by (simp add: process_sets)
next
  case (miner_section inp nd t sent)
  from inv have link: "\<forall>b. fst (p_miner p) = MinerSend b \<longrightarrow>
      attempted (core p) = Some b \<and> hash_block X b \<le> genesis_difficulty"
    by (simp add: process_inv_def process_links_def)
  from conjunct1 [OF miner_section_core [OF miner_section(3,4) link refl refl]] miner_section(1) show ?thesis by simp
next
  case (generator_section inp sh t out)
  have "BlockStateLock \<notin> sh_poisoned (shared (core p))"
    using config_ok_shared [OF lock_reach_ok [OF U]] inv by (auto simp: process_inv_def shared_ok_def)
  moreover have "\<forall>h. fst (p_generator p) = GeneratorFetch h \<longrightarrow> block_state (the_node p) h \<noteq> None"
    using inv by (simp add: process_inv_def process_links_def)
  ultimately obtain mp where "sh = (shared (core p))\<lparr>sh_node := (the_node p)\<lparr>mempool := mp\<rparr>\<rparr>"
    using generator_section_pool [OF generator_section(4)] by blast
  then show ?thesis using generator_section(1) pool_changes by (simp add: process_sets)
next
  case (query_section k r sh r')
  have "thread_lock_step X (shared (core p)) (threads (core p) k) = (sh, Reading r')"
    using query_section by simp
  from lock_sys_step.section_step [OF this] query_section(1) show ?thesis by (simp add: process_sets)
next
  case (request ord sent req resp effects)
  then show ?thesis by (simp add: apply_effects_frame)
next
  case (response_breaks ord sent req resp effects)
  from response_fails [OF response_breaks(2,3)] response_breaks(1) show ?thesis by (simp add: process_sets)
qed (simp_all add: process_sets)


text \<open>Every step is one of the server of theory \<open>Peers\<close>, or leaves it as it is; a queue once made stays.\<close>

lemma process_step_server:
  assumes step: "process_step X n U p p'" and l: "process_links X p"
  shows "server p' = server p \<or> server_step X (server p) (server p')"
  using step
proof cases
  case (worker_replies k m out h)
  with l have "write_queue h < next_queue (server p)" unfolding process_links_def by blast
  from server_answers [OF this, of X m] worker_replies(1) show ?thesis by simp
next
  case (request ord sent req resp effects)
  then show ?thesis by (simp add: apply_effects_frame)
next
  case (control_task sig sigs inp s' r)
  with server_dispatches [OF control_task(3,4)] show ?thesis by simp
next
  case (writer_task q m ms)
  from server_writes [OF writer_task(2), of X] writer_task(1) show ?thesis by simp
next
  case (writer_ends q a)
  from server_hangs_up [OF writer_ends(2), of X] writer_ends(1) show ?thesis by simp
qed (simp_all add: process_sets)

lemma server_step_next_queue: "server_step X s s' \<Longrightarrow> next_queue s \<le> next_queue s'"
  by (erule server_step.cases) (auto dest: next_queue_dispatch)

lemma process_step_links:
  assumes step: "process_step X n U p p'" and U: "hashes_sound X U" and inv: "process_inv X U p"
  shows "process_links X p'"
proof -
  have l: "process_links X p" and lock: "lock_reach X U (core p)" and s: "server_reach X (server p)"
    using inv by (simp_all add: process_inv_def)
  note ok = lock_reach_ok [OF U lock]
  have nq: "next_queue (server p) \<le> next_queue (server p')"
    using process_step_server [OF step l] server_step_next_queue by fastforce
  have "core p' = core p \<or> lock_sys_step X U (core p) (core p')" by (rule process_step_core [OF step U inv])
  then have grows: "node_grows (the_node p) (the_node p')"
    using lock_sys_grows [OF _ ok] by (auto simp: shared_grows_def)
  note keep = node_grows_state [OF grows]
  have fetch: "block_state (the_node p') h \<noteq> None" if "fst (p_generator p) = GeneratorFetch h" for h
    using l that keep unfolding process_links_def by blast
  have send: "attempted (core p) = Some b \<and> hash_block X b \<le> genesis_difficulty"
    if "fst (p_miner p) = MinerSend b" for b using l that unfolding process_links_def by blast
  have ans: "write_queue h < next_queue (server p')" if "answers_to p k = Some h" for k h
    using l that nq unfolding process_links_def by (meson order_less_le_trans)
  have msg: "write_queue h < next_queue (server p')" if "(raw, h) \<in> set (messages p)" for raw h
    using l that nq unfolding process_links_def by fastforce
  have 1: "fst (p_generator p') = GeneratorFetch h \<Longrightarrow> block_state (the_node p') h \<noteq> None" for h
    using step
  proof cases
    case (generator_section inp sh t out)
    assume "fst (p_generator p') = GeneratorFetch h"
    with generator_section(1) have t: "fst t = GeneratorFetch h" by (simp add: process_sets)
    have "BlockStateLock \<notin> sh_poisoned (shared (core p))" using config_ok_shared [OF ok] by (auto simp: shared_ok_def)
    moreover have "\<forall>h. fst (p_generator p) = GeneratorFetch h \<longrightarrow> block_state (the_node p) h \<noteq> None"
      using l by (simp add: process_links_def)
    ultimately have h: "h = tip (blockchain (the_node p))"
      using generator_section_pool [OF generator_section(4)] t by blast
    have "node_safe (the_node p)" by (rule lock_reach_safe(2) [OF U lock])
    then have "block_state (the_node p) h \<noteq> None" unfolding node_safe_iff using h by blast
    with keep show ?thesis .
  qed (use fetch in \<open>auto simp: process_sets apply_effects_frame\<close>)
  have 2: "fst (p_miner p') = MinerSend b \<Longrightarrow> attempted (core p') = Some b \<and> hash_block X b \<le> genesis_difficulty" for b
    using step
  proof cases
    case (miner_section inp nd t sent)
    assume b: "fst (p_miner p') = MinerSend b"
    have link: "\<forall>b. fst (p_miner p) = MinerSend b \<longrightarrow>
        attempted (core p) = Some b \<and> hash_block X b \<le> genesis_difficulty" using send by blast
    from conjunct2 [OF miner_section_core [OF miner_section(3,4) link refl refl]] miner_section(1) b
    show ?thesis by simp
  qed (use send in \<open>auto simp: process_sets apply_effects_frame\<close>)
  have 3: "answers_to p' k = Some h \<Longrightarrow> write_queue h < next_queue (server p')" for k h
    using step
  proof cases
    case (takes_blocks k' l raw h' ms bs pos l')
    assume "answers_to p' k = Some h"
    with takes_blocks(1,4) ans msg show ?thesis by (auto simp: process_sets split: if_splits)
  next
    case (takes_pool_message k' l raw h' ms m th)
    assume "answers_to p' k = Some h"
    with takes_pool_message(1,4) ans msg show ?thesis by (auto split: if_splits)
  next
    case (takes_other k' l raw h' ms m nd os out)
    assume "answers_to p' k = Some h"
    with takes_other(1,4) ans msg show ?thesis by (auto split: if_splits)
  qed (use ans in \<open>auto simp: process_sets apply_effects_frame\<close>)
  have 4: "(raw, h) \<in> set (messages p') \<Longrightarrow> write_queue h < next_queue (server p')" for raw h
    using step
  proof cases
    case (reader_task h' raw')
    assume "(raw, h) \<in> set (messages p')"
    with reader_task msg show ?thesis by auto
  qed (use msg in \<open>auto simp: process_sets apply_effects_frame\<close>)
  show ?thesis unfolding process_links_def using 1 2 3 4 by blast
qed

lemma process_step_inv:
  "process_step X n U p p' \<Longrightarrow> hashes_sound X U \<Longrightarrow> process_inv X U p \<Longrightarrow> process_inv X U p'"
  using process_step_core [of X n U p p'] process_step_server [of X n U p p'] process_step_links [of X n U p p']
    lock_next [of X U "core p" "core p'"] server_next [of X "server p" "server p'"] unfolding process_inv_def by metis

lemma process_start_inv:
  assumes "process_start X n key_index queries = Ret p"
  shows "process_inv X U p"
proof -
  let ?ths = "\<lambda>k. if k \<le> n then Worker Idle fresh_local else Reading (ApiTip (queries k))"
  have "lock_reach X U \<lparr>shared = \<lparr>sh_node = init_node X, sh_poisoned = {}\<rparr>, threads = ?ths,
      attempted = None, queue = []\<rparr>"
    by (rule lock_init) (simp add: starts_def)
  moreover have "server_reach X Server_new" by (rule server_new)
  ultimately show ?thesis
    using assms by (auto simp: process_start_def process_inv_def process_links_def res_simps)
qed

lemma process_reach_inv: "process_reach X n U p \<Longrightarrow> hashes_sound X U \<Longrightarrow> process_inv X U p"
  by (induction rule: process_reach.induct) (blast intro: process_start_inv process_step_inv)+

end
