(* ===== verification/ProcessPool.thy ===== *)
theory ProcessPool
  imports Process
begin

text \<open>
  The mempool of the whole program. Its lock is taken by the network workers, the miner and
  the generator; the invariants here are about the transactions in it, about the threads
  that are about to store one, and about what its poisoning does to the threads.
\<close>

section \<open>Authenticity\<close>

lemma lock_step_mempool:
  assumes "lock_step X sh (pos, l) = (sh', pos', l')"
  shows "mempool (sh_node sh') = mempool (sh_node sh)"
proof -
  obtain nd t where b: "block_lock_step X (sh_node sh) (pos, l) = (nd, t)" by (metis surj_pair)
  then have "mempool nd = mempool (sh_node sh)"
    by (cases pos) (auto simp: Let_def split: list.splits option.splits res.splits if_splits)
  with assms b show ?thesis by (auto simp: lock_step_def split: option.splits if_splits)
qed

lemma reader_step_node: "sh_node (fst (reader_step sh r)) = sh_node sh"
  by (cases r) (auto simp: locked_read_def Let_def split: res.splits)

text \<open>What the generator chooses is a payment of its own, and choosing does not panic.\<close>

lemma generator_choice:
  assumes "generator_lock_step X bad inp sh (GeneratorChoose, g) = (sh', (pos, g'), out)"
  shows "sh' = sh \<and> g' = g \<and> (pos = GeneratorTop \<or> (\<exists>t. pos = GeneratorCheck (payment X g t)))"
proof -
  obtain ins v where "get_tx_balance X (addr g) (entries inp) = Ret (ins, v)"
    using get_tx_balance_Ret [of X "addr g" "entries inp"] by (metis surj_pair)
  moreover obtain outs where "Output_pass_check X v (peer_addrs g) = Ret outs"
    using Output_pass_check_Ret [of X v "peer_addrs g"] by blast
  ultimately show ?thesis using assms
    by (auto simp: Transaction_pass_check_def payment_def split: if_splits)
qed

definition about_to_pool :: "GeneratorPos \<Rightarrow> SignedTransaction set" where
  "about_to_pool pos = (case pos of GeneratorCheck t \<Rightarrow> {t} | GeneratorStore t \<Rightarrow> {t} | _ \<Rightarrow> {})"

definition pool_inv :: "Crates \<Rightarrow> 'a Process \<Rightarrow> bool" where
  "pool_inv X p \<longleftrightarrow> mempool_ok X (mempool (the_node p)) \<and>
     (\<forall>k t ts hs. arm p k = Some (Storing t ts hs) \<longrightarrow> signature_ok X t) \<and>
     (\<forall>t\<in>about_to_pool (fst (p_generator p)). signature_ok X t) \<and>
     own_key (snd (p_generator p)) \<in> set all_public_keys"

lemma mempool_ok_store: "mempool_ok X mp \<Longrightarrow> signature_ok X t \<Longrightarrow>
    mempool_ok X (mp\<lparr>trans := (trans mp)(hash_stx X t \<mapsto> t)\<rparr>)"
  by (simp add: mempool_ok_def)

lemma mempool_ok_remove: "mempool_ok X mp \<Longrightarrow> mempool_ok X (mp\<lparr>trans := (trans mp)(h := None)\<rparr>)"
  by (simp add: mempool_ok_def)

lemma pool_section_ok:
  assumes "thread_step X \<lparr>pool = trans mp, poisoned = bad\<rparr> th = (q, th')" and "mempool_ok X mp"
    and "\<forall>t ts hs. th = Storing t ts hs \<longrightarrow> signature_ok X t"
  shows "mempool_ok X (mp\<lparr>trans := pool q\<rparr>) \<and> (\<forall>t ts hs. th' = Storing t ts hs \<longrightarrow> signature_ok X t)"
proof (cases th)
  case (Asking hs ts)
  with assms show ?thesis by (cases hs) (auto split: if_splits)
next
  case (Pooling ts hs)
  with assms show ?thesis by (cases ts) (auto simp: signature_ok_def split: if_splits)
next
  case (Removing hs)
  with assms mempool_ok_remove show ?thesis by (cases hs) (auto split: if_splits)
next
  case (Storing t ts hs)
  with assms mempool_ok_store show ?thesis by (auto split: if_splits)
qed (use assms in \<open>auto split: if_splits option.splits\<close>)

lemma miner_section_ok:
  assumes "miner_lock_step X tree_bad bad inp nd u = (nd', t, sent)" and "mempool_ok X (mempool nd)"
  shows "mempool_ok X (mempool nd')"
proof -
  obtain pos m where u: "u = (pos, m)" by (cases u)
  show ?thesis
  proof (cases pos)
    case (MinerRemove hs)
    with assms u show ?thesis by (cases hs) (auto simp: mempool_ok_remove split: if_splits)
  qed (use assms u in \<open>auto split: if_splits\<close>)
qed

lemma generator_section_ok:
  assumes step: "generator_lock_step X bad inp sh u = (sh', t, out)" and "mempool_ok X (mempool (sh_node sh))"
    and "\<forall>t\<in>about_to_pool (fst u). signature_ok X t" and "signs X (own_key (snd u))"
  shows "mempool_ok X (mempool (sh_node sh')) \<and> (\<forall>t\<in>about_to_pool (fst t). signature_ok X t) \<and>
    own_key (snd t) = own_key (snd u)"
proof -
  obtain pos g where u: "u = (pos, g)" by (cases u)
  show ?thesis
  proof (cases pos)
    case GeneratorChoose
    obtain pos' g' where t: "t = (pos', g')" by (cases t)
    from generator_choice [OF step [unfolded u GeneratorChoose t]] assms(2-4) u t show ?thesis
      by (auto simp: about_to_pool_def)
  next
    case GeneratorTop
    with assms u show ?thesis
      by (auto simp: about_to_pool_def Let_def split: TxGenerator.OperatingState.splits received.splits if_splits)
  next
    case (GeneratorStore stx)
    with assms u mempool_ok_store show ?thesis by (auto simp: about_to_pool_def split: if_splits)
  qed (use assms u in \<open>auto simp: about_to_pool_def spend_locally_def Let_def split: if_splits option.splits\<close>)
qed

lemma process_start_pool:
  assumes "process_start X n key_index queries = Ret p"
  shows "pool_inv X p"
proof -
  from assms obtain g0 g where g: "TxGenerator_new X key_index = Ret g0" "generator_start (init_node X) g0 = Ret g"
    and p: "the_node p = init_node X" "arm p = (\<lambda>_. None)" "p_generator p = (GeneratorTop, g)"
    by (auto simp: process_start_def res_simps)
  have "own_key g = own_key g0"
    using g(2) by (auto simp: generator_start_def res_simps Let_def GeneLoop.defs Generator.defs)
  with TxGenerator_key [OF g(1)] p show ?thesis
    by (simp add: pool_inv_def mempool_ok_def Mempool_new_def about_to_pool_def)
qed

lemma process_step_pool:
  assumes step: "process_step X n U p p'" and inv: "pool_inv X p" and "\<forall>k\<in>set all_public_keys. signs X k"
  shows "pool_inv X p'"
proof -
  have ok: "mempool_ok X (mempool (the_node p))" and st: "\<And>k t ts hs. arm p k = Some (Storing t ts hs) \<Longrightarrow> signature_ok X t"
    and ab: "\<forall>t\<in>about_to_pool (fst (p_generator p)). signature_ok X t"
    and key: "own_key (snd (p_generator p)) \<in> set all_public_keys" using inv unfolding pool_inv_def by blast+
  show ?thesis
    using step
  proof cases
    case (worker_section k pos l sh pos' l')
    with inv lock_step_mempool [OF worker_section(7)] show ?thesis by (simp add: pool_inv_def process_sets)
  next
    case (takes_pool_message k l raw h ms msg th)
    have "signature_ok X t" if "((arm p)(k := Some th)) j = Some (Storing t ts hs)" for j t ts hs
      using that st takes_pool_message(6) by (cases msg) (auto split: if_splits)
    with inv takes_pool_message(1) show ?thesis by (simp add: pool_inv_def)
  next
    case (pool_section k th q th')
    have "\<forall>t ts hs. th = Storing t ts hs \<longrightarrow> signature_ok X t" using st pool_section(2) by blast
    note q = pool_section_ok [OF pool_section(3) ok this]
    have "signature_ok X t" if "((arm p)(k := Some th')) j = Some (Storing t ts hs)" for j t ts hs
      using that st q by (auto split: if_splits)
    with q ab key pool_section(1) show ?thesis by (simp add: pool_inv_def process_sets)
  next
    case (arm_ends k th out)
    have "signature_ok X t" if "((arm p)(k := None)) j = Some (Storing t ts hs)" for j t ts hs
      using that st by (auto split: if_splits)
    with inv arm_ends(1) show ?thesis by (simp add: pool_inv_def)
  next
    case (miner_section inp nd t sent)
    with inv miner_section_ok [OF miner_section(3) ok] show ?thesis by (simp add: pool_inv_def)
  next
    case (generator_section inp sh t out)
    have "signs X (own_key (snd (p_generator p)))" using assms(3) key by blast
    from generator_section_ok [OF generator_section(4) ok ab this] inv generator_section(1) show ?thesis
      by (simp add: pool_inv_def process_sets)
  next
    case (query_section k r sh r')
    with inv reader_step_node [of "shared (core p)" r] show ?thesis by (simp add: pool_inv_def process_sets)
  next
    case (request ord sent req resp effects)
    with inv show ?thesis by (simp add: pool_inv_def apply_effects_frame)
  qed (use inv in \<open>simp_all add: pool_inv_def process_sets about_to_pool_def\<close>)
qed

lemma process_reach_pool:
  "process_reach X n U p \<Longrightarrow> \<forall>k\<in>set all_public_keys. signs X k \<Longrightarrow> pool_inv X p"
  by (induction rule: process_reach.induct) (blast intro: process_start_pool process_step_pool)+

section \<open>Panics\<close>

lemma next_signal_open [simp]: "next_signal ss \<noteq> Disconnected"
  by (cases ss) simp_all

lemma generator_section_panics:
  assumes step: "generator_lock_step X bad inp sh u = (sh', (GeneratorPanicked e, g'), out)"
    and "BlockStateLock \<notin> sh_poisoned sh" and "gen_signal inp \<noteq> Disconnected"
    and "\<forall>h. fst u = GeneratorFetch h \<longrightarrow> block_state (sh_node sh) h \<noteq> None"
    and "\<forall>e'. fst u \<noteq> GeneratorPanicked e'"
  shows "bad \<or> e = UnwrapErr \<and> BlockchainLock \<in> sh_poisoned sh"
proof -
  obtain pos g where u: "u = (pos, g)" by (cases u)
  show ?thesis
  proof (cases pos)
    case GeneratorChoose
    from generator_choice [OF step [unfolded u GeneratorChoose]] show ?thesis by auto
  qed (use assms u in \<open>auto simp: Let_def Blockchain_tip_def
      split: TxGenerator.OperatingState.splits received.splits if_splits option.splits\<close>)
qed

definition tree_locked_out :: "'a Process \<Rightarrow> bool" where
  "tree_locked_out p \<longleftrightarrow> BlockchainLock \<in> sh_poisoned (shared (core p))"

definition miner_cause :: "Crates \<Rightarrow> nat \<Rightarrow> 'a Process \<Rightarrow> panic \<Rightarrow> bool" where
  "miner_cause X n p e \<longleftrightarrow> pool_bad p \<or> e = Explicit \<or> overflow_checks X \<and> e = ArithmeticOverflow \<or>
     e = UnwrapErr \<and> tree_locked_out p \<or> e = ChannelClosed \<and> \<not> works p n"

definition generator_cause :: "'a Process \<Rightarrow> panic \<Rightarrow> bool" where
  "generator_cause p e \<longleftrightarrow> pool_bad p \<or> e = UnwrapErr \<and> (tree_locked_out p \<or> control_gone p)"

lemma miner_section_panics:
  assumes step: "miner_lock_step X tree_bad bad inp nd u = (nd', (MinerPanicked e, m'), sent)"
    and "signal inp \<noteq> Disconnected" and "\<forall>e'. fst u \<noteq> MinerPanicked e'"
  shows "bad \<or> e = Explicit \<or> overflow_checks X \<and> e = ArithmeticOverflow \<or> e = UnwrapErr \<and> tree_bad \<or>
    e = ChannelClosed \<and> \<not> receiver_alive inp"
proof -
  obtain pos m where u: "u = (pos, m)" by (cases u)
  show ?thesis
  proof (cases pos)
    case MinerTop
    with assms u show ?thesis
      by (auto simp: Let_def split: Miner.OperatingState.splits received.splits if_splits)
  next
    case (MinerBuild millis)
    obtain b where "candidate X (picked m) (Blockchain_tip (blockchain nd)) (rnd inp) millis = Some (Ret b)"
      using candidate_eq by blast
    with step u MinerBuild show ?thesis by (auto split: if_splits)
  next
    case (MinerRemove hs)
    with assms u show ?thesis by (cases hs) (auto split: if_splits)
  next
    case MinerCount
    with assms u show ?thesis by (auto simp: inc_i32_def split: res.splits if_splits)
  qed (use assms u in \<open>auto simp: Let_def split: if_splits option.splits prod.splits\<close>)
qed

text \<open>What holds of the threads that have panicked.\<close>

definition panics_inv :: "Crates \<Rightarrow> nat \<Rightarrow> 'a Process \<Rightarrow> bool" where
  "panics_inv X n p \<longleftrightarrow>
     (\<forall>k. arm p k = Some Crashed \<longrightarrow> pool_bad p) \<and>
     (\<forall>e. fst (p_generator p) = GeneratorPanicked e \<longrightarrow> generator_cause p e) \<and>
     (\<forall>e. fst (p_miner p) = MinerPanicked e \<longrightarrow> miner_cause X n p e) \<and>
     (n \<in> gone p \<longrightarrow> control_gone p) \<and>
     (\<forall>k\<le>n. \<exists>pos l. threads (core p) k = Worker pos l)"

lemma pool_section_crash:
  assumes "thread_step X q th = (q', Crashed)" and "th \<noteq> Crashed"
  shows "poisoned q'"
proof (cases th)
  case (Asking hs ts)
  with assms show ?thesis by (cases hs) (auto split: if_splits)
next
  case (Pooling ts hs)
  with assms show ?thesis by (cases ts) (auto split: if_splits)
next
  case (Removing hs)
  with assms show ?thesis by (cases hs) (auto split: if_splits)
qed (use assms in \<open>auto split: if_splits option.splits\<close>)

text \<open>A poisoned mempool stays as it is.\<close>

lemma miner_section_frozen:
  assumes step: "miner_lock_step X tree_bad bad inp nd u = (nd', t, sent)" and bad
  shows "nd' = nd"
proof -
  obtain pos m where u: "u = (pos, m)" by (cases u)
  show ?thesis
  proof (cases pos)
    case (MinerRemove hs)
    with assms u show ?thesis by (cases hs) auto
  qed (use assms u in \<open>auto split: if_splits\<close>)
qed

lemma generator_section_frozen:
  assumes step: "generator_lock_step X bad inp sh u = (sh', t, out)" and bad
  shows "sh_node sh' = sh_node sh"
proof -
  obtain pos g where u: "u = (pos, g)" by (cases u)
  show ?thesis by (cases pos) (use assms u in \<open>auto split: if_splits option.splits\<close>)
qed

lemma process_step_frozen:
  assumes step: "process_step X n U p p'" and bad: "pool_bad p"
  shows "pool_bad p' \<and> mempool (the_node p') = mempool (the_node p)"
  using step
proof cases
  case (worker_section k pos l sh pos' l')
  with bad lock_step_mempool [OF worker_section(7)] show ?thesis by (simp add: process_sets)
next
  case (pool_section k th q th')
  have "fst (thread_step X \<lparr>pool = trans (mempool (the_node p)), poisoned = pool_bad p\<rparr> th) =
      \<lparr>pool = trans (mempool (the_node p)), poisoned = pool_bad p\<rparr>"
    by (rule thread_step_frozen) (simp add: bad)
  then have "q = \<lparr>pool = trans (mempool (the_node p)), poisoned = pool_bad p\<rparr>" using pool_section(3) by simp
  with bad pool_section(1) show ?thesis by (simp add: process_sets)
next
  case (miner_section inp nd t sent)
  with miner_section_frozen [OF miner_section(3) bad] bad show ?thesis by simp
next
  case (generator_section inp sh t out)
  with generator_section_frozen [OF generator_section(4) bad] bad show ?thesis by (simp add: process_sets)
next
  case (query_section k r sh r')
  with bad reader_step_node [of "shared (core p)" r] show ?thesis by (simp add: process_sets)
next
  case (request ord sent req resp effects)
  with bad show ?thesis by (simp add: apply_effects_frame)
qed (use bad in \<open>simp_all add: process_sets\<close>)

lemma process_steps_frozen:
  "(process_step X n U)\<^sup>*\<^sup>* p p' \<Longrightarrow> pool_bad p \<Longrightarrow> pool_bad p' \<and> mempool (the_node p') = mempool (the_node p)"
proof (induction rule: rtranclp_induct)
  case (step p1 p2)
  from process_step_frozen [OF step.hyps(2)] step.IH [OF step.prems] show ?case by simp
qed simp

text \<open>Why threads panic.\<close>

lemma lock_sys_keeps_stopped:
  assumes "lock_sys_step X U c c'" and "threads c k = Worker (Stopped e) l"
  shows "threads c' k = Worker (Stopped e) l"
  using assms(1)
proof cases
  case (section_step j sh' th')
  with assms(2) show ?thesis by (cases "j = k") (auto simp: stopped_worker_stays)
qed (use assms(2) in auto)

lemma lock_sys_keeps_worker:
  assumes "lock_sys_step X U c c'" and "threads c k = Worker pos l"
  shows "\<exists>pos l. threads c' k = Worker pos l"
  using assms(1)
proof cases
  case (section_step j sh' th')
  with assms(2) show ?thesis by (cases "j = k") (auto split: prod.splits)
qed (use assms(2) in auto)

lemma process_start_panics: "process_start X n key_index queries = Ret p \<Longrightarrow> panics_inv X n p"
  by (auto simp: process_start_def panics_inv_def res_simps)

text \<open>What has gone wrong stays so.\<close>

lemma apply_effect_control: "control_gone p \<Longrightarrow> control (apply_effect e p) = control p"
  by (cases e) (simp_all add: Server_Handle_broadcast_def control_send_def)

lemma process_step_control: "process_step X n U p p' \<Longrightarrow> control_gone p \<Longrightarrow> control_gone p'"
  by (erule process_step.cases) (auto simp: process_sets apply_effects_frame)

lemma process_step_gone: "process_step X n U p p' \<Longrightarrow> k \<in> gone p \<Longrightarrow> k \<in> gone p'"
  by (erule process_step.cases) (auto simp: process_sets apply_effects_frame)

lemma process_step_locked_out:
  assumes step: "process_step X n U p p'" and U: "hashes_sound X U" and pin: "process_inv X U p" and "tree_locked_out p"
  shows "tree_locked_out p'"
proof -
  have "config_ok X U (State_new X (all_public_keys ! 0)) (core p)"
    using lock_reach_ok [OF U] pin by (simp add: process_inv_def)
  with process_step_core [OF step U pin] lock_sys_grows have "shared_grows (shared (core p)) (shared (core p'))" by fastforce
  with assms(4) show ?thesis by (auto simp: tree_locked_out_def shared_grows_def)
qed

lemma crashed_stays:
  assumes step: "process_step X n U p p'" and "arm p k = Some Crashed"
  shows "arm p' k = Some Crashed"
  using step
proof cases
  case (takes_pool_message j l raw h ms msg th)
  with assms(2) show ?thesis by (auto simp: ready_def)
next
  case (pool_section j th q th')
  with assms(2) show ?thesis by (auto simp: process_sets)
next
  case (arm_ends j th out)
  with assms(2) show ?thesis by auto
qed (use assms(2) in \<open>simp_all add: process_sets apply_effects_frame\<close>)

lemma works_stays_lost:
  assumes step: "process_step X n U p p'" and U: "hashes_sound X U" and pin: "process_inv X U p" and "\<not> works p k"
  shows "\<not> works p' k"
proof -
  have core: "core p' = core p \<or> lock_sys_step X U (core p) (core p')" by (rule process_step_core [OF step U pin])
  consider "k \<in> gone p" | "arm p k = Some Crashed" | e l where "threads (core p) k = Worker (Stopped e) l"
    using assms(4) by (auto simp: works_def)
  then show ?thesis
  proof cases
    case 1
    with process_step_gone [OF step] show ?thesis by (simp add: works_def)
  next
    case 2
    with crashed_stays [OF step] show ?thesis by (simp add: works_def)
  next
    case 3
    with core lock_sys_keeps_stopped show ?thesis by (metis works_def)
  qed
qed

lemma process_step_panics:
  assumes step: "process_step X n U p p'" and U: "hashes_sound X U" and pin: "process_inv X U p"
    and inv: "panics_inv X n p"
  shows "panics_inv X n p'"
proof -
  have arms: "\<And>k. arm p k = Some Crashed \<Longrightarrow> pool_bad p"
    and gen: "\<And>e. fst (p_generator p) = GeneratorPanicked e \<Longrightarrow> generator_cause p e"
    and mi: "\<And>e. fst (p_miner p) = MinerPanicked e \<Longrightarrow> miner_cause X n p e"
    and gn: "n \<in> gone p \<Longrightarrow> control_gone p"
    and ws: "\<And>k. k \<le> n \<Longrightarrow> \<exists>pos l. threads (core p) k = Worker pos l"
    using inv unfolding panics_inv_def by blast+
  have core: "core p' = core p \<or> lock_sys_step X U (core p) (core p')" by (rule process_step_core [OF step U pin])
  have bad: "pool_bad p \<Longrightarrow> pool_bad p'" using process_step_frozen [OF step] by blast
  have clean: "BlockStateLock \<notin> sh_poisoned (shared (core p))"
    using config_ok_shared [OF lock_reach_ok [OF U]] pin by (auto simp: process_inv_def shared_ok_def)
  have ws': "\<exists>pos l. threads (core p') k = Worker pos l" if "k \<le> n" for k
    using ws [OF that] core lock_sys_keeps_worker by metis
  note lost = bad process_step_control [OF step] process_step_locked_out [OF step U pin]
  have cause: "miner_cause X n p e \<Longrightarrow> miner_cause X n p' e" for e
    using lost works_stays_lost [OF step U pin, of n] unfolding miner_cause_def by blast
  have gcause: "generator_cause p e \<Longrightarrow> generator_cause p' e" for e
    using lost unfolding generator_cause_def by blast
  have 1: "arm p' k = Some Crashed \<Longrightarrow> pool_bad p'" for k
    using step
  proof cases
    case (takes_pool_message j l raw h ms msg th)
    assume "arm p' k = Some Crashed"
    with takes_pool_message(1,6) arms bad show ?thesis by (cases msg) (auto split: if_splits)
  next
    case (pool_section j th q th')
    assume a: "arm p' k = Some Crashed"
    show ?thesis
    proof (cases "pool_bad p")
      case True
      with bad show ?thesis .
    next
      case False
      with a arms pool_section(1,2) have "th' = Crashed" "th \<noteq> Crashed" by (auto simp: process_sets split: if_splits)
      with pool_section_crash [of X _ th q] pool_section(1,3) show ?thesis by (simp add: process_sets)
    qed
  qed (use arms in \<open>auto simp: process_sets apply_effects_frame split: if_splits\<close>)
  have 2: "fst (p_generator p') = GeneratorPanicked e \<Longrightarrow> generator_cause p' e" for e
    using step
  proof cases
    case (generator_section inp sh t out)
    assume a: "fst (p_generator p') = GeneratorPanicked e"
    obtain g' where t: "t = (GeneratorPanicked e, g')" using a generator_section(1) by (cases t) (simp add: process_sets)
    have "gen_signal inp \<noteq> Disconnected" using generator_section(3) by (simp add: generator_surroundings_def)
    moreover have "\<forall>h. fst (p_generator p) = GeneratorFetch h \<longrightarrow> block_state (the_node p) h \<noteq> None"
      using pin by (simp add: process_inv_def process_links_def)
    ultimately have "generator_cause p e"
    proof (cases "\<exists>e'. fst (p_generator p) = GeneratorPanicked e'")
      case True
      then obtain e' g where "p_generator p = (GeneratorPanicked e', g)" by (metis prod.collapse)
      with generator_section(4) t gen show ?thesis by simp
    next
      case False
      assume "gen_signal inp \<noteq> Disconnected" "\<forall>h. fst (p_generator p) = GeneratorFetch h \<longrightarrow> block_state (the_node p) h \<noteq> None"
      from generator_section_panics [OF generator_section(4) [unfolded t] clean this] False show ?thesis
        by (auto simp: generator_cause_def tree_locked_out_def)
    qed
    with gcause show ?thesis .
  next
    case (announcement_panics m out e')
    assume "fst (p_generator p') = GeneratorPanicked e"
    with announcement_panics show ?thesis
      by (auto simp: generator_cause_def Server_Handle_broadcast_def control_send_def split: if_splits)
  qed (use gen gcause in \<open>auto simp: process_sets apply_effects_frame\<close>)
  have 3: "fst (p_miner p') = MinerPanicked e \<Longrightarrow> miner_cause X n p' e" for e
  proof (cases "\<exists>e'. fst (p_miner p) = MinerPanicked e'")
    case True
    then obtain e' where e': "fst (p_miner p) = MinerPanicked e'" ..
    assume a: "fst (p_miner p') = MinerPanicked e"
    from step have "fst (p_miner p') = MinerPanicked e'"
    proof cases
      case (miner_section inp nd t sent)
      have "p_miner p = (MinerPanicked e', snd (p_miner p))" using e' by (metis prod.collapse)
      with miner_section(3) have "t = (MinerPanicked e', snd (p_miner p))" by (metis miner_lock_step.simps(9) prod.inject)
      with miner_section(1) show ?thesis by simp
    qed (use e' in \<open>auto simp: process_sets apply_effects_frame\<close>)
    with a e' mi cause show ?thesis by simp
  next
    case False
    assume a: "fst (p_miner p') = MinerPanicked e"
    from step show ?thesis
    proof cases
      case (miner_section inp nd t sent)
      obtain m' where t: "t = (MinerPanicked e, m')" using a miner_section(1) by (cases t) simp
      have "signal inp \<noteq> Disconnected" using miner_section(2) by (simp add: miner_surroundings_def)
      with miner_section_panics [OF miner_section(3) [unfolded t]] False miner_section(2)
      have "miner_cause X n p e" by (auto simp: miner_cause_def tree_locked_out_def miner_surroundings_def)
      with cause show ?thesis .
    qed (use a False in \<open>auto simp: process_sets apply_effects_frame\<close>)
  qed
  have 4: "n \<in> gone p' \<Longrightarrow> control_gone p'"
    using step
  proof cases
    case (broadcast_panics k m out e)
    assume "n \<in> gone p'"
    with broadcast_panics gn show ?thesis
      by (auto simp: Server_Handle_broadcast_def control_send_def split: if_splits)
  qed (use gn in \<open>auto simp: process_sets apply_effects_frame\<close>)
  show ?thesis using 1 2 3 4 ws' unfolding panics_inv_def by blast
qed

lemma process_reach_panics:
  "process_reach X n U p \<Longrightarrow> hashes_sound X U \<Longrightarrow> panics_inv X n p"
  by (induction rule: process_reach.induct)
    (blast intro: process_start_panics process_step_panics process_reach_inv)+

end
