(* ===== verification/Program.thy ===== *)
theory Program
  imports ProcessPool
begin

text \<open>
  The properties of the whole program, and a run of it: a peer sends a transaction and asks
  for it while the miner, started over the interface, puts it into a block.
\<close>

section \<open>A run\<close>

text \<open>The example's encoder knows two messages: one with a transaction, one that asks for it.\<close>

definition race_crates :: Crates where
  "race_crates = (demo_crates False)\<lparr>deserialize_msg := (\<lambda>bs.
     if bs = [1] then Some (Transactions [demo_tx [] []])
     else if bs = [2] then Some (GetTransactions [hash_stx (demo_crates False) (demo_tx [] [])])
     else None)\<rparr>"

lemma race_crates_hashes [simp]:
  "hash_block race_crates b = hash_block (demo_crates False) b"
  "hash_stx race_crates t = hash_stx (demo_crates False) t"
  "verify_tx race_crates = verify_tx (demo_crates False)"
  "init_node race_crates = init_node (demo_crates False)"
  "overflow_checks race_crates = False"
  "deserialize_msg race_crates [1] = Some (Transactions [demo_tx [] []])"
  "deserialize_msg race_crates [2] = Some (GetTransactions [hash_stx (demo_crates False) (demo_tx [] [])])"
  by (simp_all add: race_crates_def hash_block_def hash_header_def hash_stx_def verify_tx_def fun_eq_iff
      init_node_def Blockchain_new_def State_new_def Let_def)

lemma race_universe: "hash_block (demo_crates False) b = pad32 [0, 2, 1] \<Longrightarrow> universe_sound race_crates {genesis, b}"
  using demo_pair_universe [of False b] by (simp add: universe_sound_iff inj_on_def)

lemmas race_sound = universe_hashes [OF race_universe]

lemma race_signs: "\<forall>k\<in>set all_public_keys. signs race_crates k"
  using demo_signs [of False] by (simp add: signs_def race_crates_def)

text \<open>The process after the parts that the run changes.\<close>

definition race_process ::
  "Generator \<Rightarrow> (H256 \<rightharpoonup> SignedTransaction) \<Rightarrow> Block option \<Rightarrow> Block list \<Rightarrow> PoolThread option \<Rightarrow> PoolThread option \<Rightarrow>
     MinerPos \<times> Miner \<Rightarrow> Miner.ControlSignal list \<Rightarrow> nat Process" where
  "race_process g tx att q a0 a1 mi chan =
     (let h = \<lparr>h_addr = 5, write_queue = 0\<rparr>
      in \<lparr>core = \<lparr>shared = \<lparr>sh_node = (init_node (demo_crates False))\<lparr>mempool := \<lparr>trans = tx\<rparr>\<rparr>, sh_poisoned = {}\<rparr>,
            threads = (\<lambda>k. if k \<le> 3 then Worker Idle fresh_local else Reading (ApiTip 0)), attempted = att, queue = q\<rparr>,
          pool_bad = False, arm = (\<lambda>_. None)(0 := a0, 1 := a1), outbox = (\<lambda>_. []),
          answers_to = [0 \<mapsto> h, 1 \<mapsto> h], gone = {}, p_miner = mi, p_generator = (GeneratorTop, g), announcing = [],
          miner_chan = chan, generator_chan = [],
          server = \<lparr>peers = [5 \<mapsto> h], queues = (\<lambda>_. []), hung_up = {}, next_queue = 1\<rparr>, control = [], control_gone = False, messages = []\<rparr>)"

lemma demo_tx_verifies:
  "verify_tx (demo_crates chk) (transaction (demo_tx ins outs)) [1, 2, 3] (signature_vector (demo_tx ins outs))"
  using demo_tx_simps(3) [of chk ins outs] unfolding signature_ok_def by simp

lemma process_goes: "process_reach X n U p \<Longrightarrow> process_step X n U p q \<Longrightarrow> q = p' \<Longrightarrow> process_reach X n U p'"
  using process_next by blast

lemma some_of_three: "(\<exists>k<3. P k) \<longleftrightarrow> P 0 \<or> P 1 \<or> P (2 :: nat)"
  by (auto simp: numeral_eq_Suc less_Suc_eq)

text \<open>Both messages have arrived, and two workers have taken them.\<close>

lemma race_received:
  obtains g where "process_reach race_crates 3 U (race_process g Map.empty None []
    (Some (Pooling [demo_tx [] []] [])) (Some (Asking [hash_stx (demo_crates False) (demo_tx [] [])] []))
    (MinerTop, Miner_new) [])"
proof -
  let ?X = race_crates and ?h = "\<lparr>h_addr = 5 :: nat, write_queue = 0\<rparr>"
  let ?p = "\<lambda>g a ans srv ctl msgs. \<lparr>core = \<lparr>shared = \<lparr>sh_node = init_node (demo_crates False), sh_poisoned = {}\<rparr>,
            threads = (\<lambda>k. if k \<le> 3 then Worker Idle fresh_local else Reading (ApiTip 0)), attempted = None, queue = []\<rparr>,
          pool_bad = False, arm = a, outbox = (\<lambda>_. []),
          answers_to = ans, gone = {}, p_miner = (MinerTop, Miner_new), p_generator = (GeneratorTop, g), announcing = [],
          miner_chan = [], generator_chan = [], server = srv, control = ctl, control_gone = False, messages = msgs\<rparr>"
  obtain g0 where g0: "TxGenerator_new ?X 0 = Ret g0" by (simp add: TxGenerator_new_eq)
  obtain g where g: "generator_start (init_node ?X) g0 = Ret g"
    by (simp add: generator_start_def Let_def Blockchain_tip_def init_node_def)
  let ?s = "\<lparr>peers = [5 \<mapsto> ?h], queues = (\<lambda>_. []), hung_up = {}, next_queue = 1\<rparr>"
  have "process_start ?X 3 0 (\<lambda>_. 0) = Ret (?p g (\<lambda>_. None) Map.empty Server_new [] [])"
    using g0 g by (simp add: process_start_def)
  then have "process_reach ?X 3 U (?p g (\<lambda>_. None) Map.empty Server_new [] [])" by (rule process_init)
  then have "process_reach ?X 3 U (?p g (\<lambda>_. None) Map.empty Server_new [GetNewPeer] [])"
    by (rule process_goes [OF _ peer_arrives [where accepted = True]]) (simp_all add: listener_step_def has_room_def)
  then have "process_reach ?X 3 U (?p g (\<lambda>_. None) Map.empty ?s [] [])"
    by (rule process_goes [OF _ control_task [where inp = "\<lparr>tcp_connect = True, peer_addr1 = Some 5,
        peer_addr2 = Some 5, requester_waits = True, peer_order = []\<rparr>" and r = None and sig = GetNewPeer and sigs = "[]"]])
      (simp_all add: enumerates_def Server_new_def Server_accept_def Server_register_def peer_new_def)
  then have "process_reach ?X 3 U (?p g (\<lambda>_. None) Map.empty ?s [] [([1], ?h)])"
    by (rule process_goes [OF _ reader_task [where h = ?h and raw = "[1]"]]) (simp_all add: has_room_def some_of_three works_def)
  then have "process_reach ?X 3 U (?p g ((\<lambda>_. None)(0 := Some (Pooling [demo_tx [] []] []))) [0 \<mapsto> ?h] ?s [] [])"
    by (rule process_goes [OF _ takes_pool_message [where k = 0 and raw = "[1]" and msg = "Transactions [demo_tx [] []]"]]) (simp_all add: ready_def)
  then have "process_reach ?X 3 U (?p g ((\<lambda>_. None)(0 := Some (Pooling [demo_tx [] []] []))) [0 \<mapsto> ?h] ?s [] [([2], ?h)])"
    by (rule process_goes [OF _ reader_task [where h = ?h and raw = "[2]"]]) (simp_all add: has_room_def some_of_three works_def)
  then have "process_reach ?X 3 U (?p g ((\<lambda>_. None)(0 := Some (Pooling [demo_tx [] []] []),
      1 := Some (Asking [hash_stx (demo_crates False) (demo_tx [] [])] []))) [0 \<mapsto> ?h, 1 \<mapsto> ?h] ?s [] [])"
    by (rule process_goes [OF _ takes_pool_message [where k = 1 and raw = "[2]" and
        msg = "GetTransactions [hash_stx (demo_crates False) (demo_tx [] [])]"]]) (simp_all add: ready_def)
  moreover have "(init_node (demo_crates False))\<lparr>mempool := \<lparr>trans = Map.empty\<rparr>\<rparr> = init_node (demo_crates False)"
    by (simp add: init_node_def Mempool_new_def Let_def)
  ultimately show thesis by (intro that [of g]) (simp add: race_process_def Let_def)
qed


text \<open>The transaction is pooled, and the other worker has found it there.\<close>

lemma race_found:
  obtains g where "process_reach race_crates 3 U (race_process g
    [hash_stx (demo_crates False) (demo_tx [] []) \<mapsto> demo_tx [] []] None []
    (Some (Pooling [] [hash_stx (demo_crates False) (demo_tx [] [])]))
    (Some (Fetching (hash_stx (demo_crates False) (demo_tx [] [])) [] [])) (MinerTop, Miner_new) [])"
proof -
  let ?X = race_crates and ?t = "demo_tx [] []" and ?h = "hash_stx (demo_crates False) (demo_tx [] [])"
  obtain g where r: "process_reach ?X 3 U (race_process g Map.empty None []
    (Some (Pooling [?t] [])) (Some (Asking [?h] [])) (MinerTop, Miner_new) [])" by (rule race_received)
  let ?p = "\<lambda>m a0 a1. race_process g m None [] (Some a0) (Some a1) (MinerTop, Miner_new) []"
  have "process_reach ?X 3 U (?p Map.empty (Storing ?t [] [?h]) (Asking [?h] []))"
    by (rule process_goes [OF _ pool_section [where k = 0 and th = "Pooling [?t] []" and q = "\<lparr>pool = Map.empty, poisoned = False\<rparr>"], OF r])
      (use demo_tx_verifies [of False "[]" "[]"] in \<open>simp_all add: race_process_def process_sets Let_def fun_eq_iff\<close>)
  then have "process_reach ?X 3 U (?p [?h \<mapsto> ?t] (Pooling [] [?h]) (Asking [?h] []))"
    by (rule process_goes [OF _ pool_section [where k = 0 and th = "Storing ?t [] [?h]" and q = "\<lparr>pool = [?h \<mapsto> ?t], poisoned = False\<rparr>"]])
      (simp_all add: race_process_def process_sets Let_def fun_eq_iff)
  then have "process_reach ?X 3 U (?p [?h \<mapsto> ?t] (Pooling [] [?h]) (Fetching ?h [] []))"
    by (rule process_goes [OF _ pool_section [where k = 1 and th = "Asking [?h] []" and q = "\<lparr>pool = [?h \<mapsto> ?t], poisoned = False\<rparr>"]])
      (simp_all add: race_process_def process_sets Let_def fun_eq_iff)
  then show thesis by (rule that)
qed


text \<open>The miner has been started, has sent a block with the transaction, and is about to remove it.\<close>

definition race_miner :: Miner where
  "race_miner = (demo_miner 0)\<lparr>to_remove := [hash_stx (demo_crates False) (demo_tx [] [])], picked := [demo_tx [] []]\<rparr>"

lemma race_mined:
  obtains g b where "hash_block (demo_crates False) b = pad32 [0, 2, 1]"
    "process_reach race_crates 3 {genesis, b} (race_process g
      [hash_stx (demo_crates False) (demo_tx [] []) \<mapsto> demo_tx [] []] None [b]
      (Some (Pooling [] [hash_stx (demo_crates False) (demo_tx [] [])]))
      (Some (Fetching (hash_stx (demo_crates False) (demo_tx [] [])) [] []))
      (MinerRemove [hash_stx (demo_crates False) (demo_tx [] [])], race_miner) [])"
proof -
  let ?X = race_crates and ?t = "demo_tx [] []" and ?h = "hash_stx (demo_crates False) (demo_tx [] [])"
  let ?inp = "\<lambda>s. \<lparr>signal = s, rnd = 1, clock = Some 0, order = [(?h, ?t)], receiver_alive = True\<rparr>"
  let ?nd = "(init_node (demo_crates False))\<lparr>mempool := \<lparr>trans = [?h \<mapsto> ?t]\<rparr>\<rparr>"
  let ?p = "\<lambda>g att q mi chan. race_process g [?h \<mapsto> ?t] att q (Some (Pooling [] [?h])) (Some (Fetching ?h [] [])) mi chan"
  note sets = race_process_def miner_surroundings_def works_def enumerates_def Let_def fresh_local_def eq_commute [of "demo_tx [] []"]
  obtain root where b: "candidate ?X [?t] (pad32 [0, 1, 0]) 1 0 = Some (Ret \<lparr>head = \<lparr>parent = pad32 [0, 1, 0], nonce = 1,
      difficulty = genesis_difficulty, timestamp = 0, merkle_root = root\<rparr>, cont = \<lparr>st = [?t]\<rparr>\<rparr>)"
    using candidate_eq by blast
  define b where "b = \<lparr>head = \<lparr>parent = pad32 [0, 1, 0], nonce = (1 :: u32),
      difficulty = genesis_difficulty, timestamp = 0, merkle_root = root\<rparr>, cont = \<lparr>st = [?t]\<rparr>\<rparr>"
  have hash: "hash_block (demo_crates False) b = pad32 [0, 2, 1]" by (simp add: demo_hash_block b_def)
  let ?U = "{genesis, b}"
  obtain g where "process_reach ?X 3 ?U (?p g None [] (MinerTop, Miner_new) [])" by (rule race_found)
  then have "process_reach ?X 3 ?U (?p g None [] (MinerTop, Miner_new) [Miner.Start 0])"
    by (rule process_goes [OF _ request [where ord = "\<lambda>_. []" and req = "Url ''/miner/start'' [(''lambda'', decimal 0)]"
        and effects = "[MinerStart 0]" and resp = "Ret (Result True ''ok'')" and sent = True]])
      (simp_all add: sets api_serve_def respond_def api_handle_def query_uint_def params_of_def parse_uint_decimal Handle_start_def)
  then have "process_reach ?X 3 ?U (?p g None [] (MinerTop, demo_miner 0) [])"
    by (rule process_goes [OF _ miner_section [where inp = "?inp (received.Received (Miner.Start 0))" and nd = ?nd and
        t = "(MinerTop, demo_miner 0)" and sent = None]])
      (simp_all add: sets Miner_new_def miner_react_def demo_miner_def)
  then have "process_reach ?X 3 ?U (?p g None [] (MinerSelect, demo_miner 0) [])"
    by (rule process_goes [OF _ miner_section [where inp = "?inp Nothing" and nd = ?nd and
        t = "(MinerSelect, demo_miner 0)" and sent = None]])
      (simp_all add: sets race_miner_def demo_miner_def)
  then have "process_reach ?X 3 ?U (?p g None [] (MinerBuild 0, race_miner) [])"
    by (rule process_goes [OF _ miner_section [where inp = "?inp Nothing" and nd = ?nd and
        t = "(MinerBuild 0, race_miner)" and sent = None]])
      (simp_all add: sets race_miner_def demo_miner_def block_size_def)
  then have "process_reach ?X 3 ?U (?p g (Some b) [] (MinerSend b, race_miner) [])"
    by (rule process_goes [OF _ miner_section [where inp = "?inp Nothing" and nd = ?nd and
        t = "(MinerSend b, race_miner)" and sent = None]])
      (use b in \<open>simp_all add: sets race_miner_def demo_miner_def b_def [symmetric] hash demo_pow init_node_def Blockchain_new_def
        Blockchain_tip_def\<close>)
  then have "process_reach ?X 3 ?U (?p g None [b] (MinerRemove [?h], race_miner) [])"
    by (rule process_goes [OF _ miner_section [where inp = "?inp Nothing" and nd = ?nd and
        t = "(MinerRemove [?h], race_miner)" and sent = "Some b"]])
      (simp_all add: sets race_miner_def demo_miner_def)
  with hash show thesis by (rule that)
qed


lemma race_ready:
  obtains p :: "nat Process" and b where "hash_block (demo_crates False) b = pad32 [0, 2, 1]"
    "process_reach race_crates 3 {genesis, b} p" "queue (core p) = [b]"
    "arm p 1 = Some (Fetching (hash_stx (demo_crates False) (demo_tx [] [])) [] [])"
    "fst (p_miner p) = MinerRemove [hash_stx (demo_crates False) (demo_tx [] [])]" "\<not> pool_bad p"
    "trans (mempool (the_node p)) = [hash_stx (demo_crates False) (demo_tx [] []) \<mapsto> demo_tx [] []]"
    "peers (server p) = [5 \<mapsto> \<lparr>h_addr = 5, write_queue = 0\<rparr>]" "messages p = []" "next_queue (server p) = 1"
    "ready p 2 fresh_local"
proof -
  obtain g b where r: "hash_block (demo_crates False) b = pad32 [0, 2, 1]"
    "process_reach race_crates 3 {genesis, b} (race_process g
      [hash_stx (demo_crates False) (demo_tx [] []) \<mapsto> demo_tx [] []] None [b]
      (Some (Pooling [] [hash_stx (demo_crates False) (demo_tx [] [])]))
      (Some (Fetching (hash_stx (demo_crates False) (demo_tx [] [])) [] []))
      (MinerRemove [hash_stx (demo_crates False) (demo_tx [] [])], race_miner) [])" by (rule race_mined)
  then show thesis by (rule that) (simp_all add: race_process_def ready_def Let_def)
qed

section \<open>Progress\<close>

text \<open>A waiting message is taken by any worker that is ready.\<close>

lemma other_messages:
  assumes "pool_arm msg = None" and "\<forall>bs. msg \<noteq> Blocks bs"
  shows "\<exists>nd os out. handle_message X nd0 [] msg = Ret (nd, os, out)"
  using assms by (cases msg) auto

text \<open>What a worker panics on: bytes that do not decode, and the tree's lock when it is poisoned.\<close>

definition deadly :: "Crates \<Rightarrow> 'a Process \<Rightarrow> u8 list \<Rightarrow> bool" where
  "deadly X p raw \<longleftrightarrow>
     (case deserialize_msg X raw of None \<Rightarrow> True | Some msg \<Rightarrow> holds_tree msg \<and> tree_locked_out p)"

lemma message_taken:
  assumes k: "k < n" "ready p k l"
    and msg: "messages p = (raw, h) # ms" and bs: "\<forall>bs. deserialize_msg X raw = Some (Blocks bs) \<longrightarrow> set bs \<subseteq> U"
  shows "\<exists>p'. process_step X n U p p' \<and> messages p' = ms \<and> (k \<in> gone p' \<longleftrightarrow> deadly X p raw)"
proof -
  have here: "k \<notin> gone p" using k(2) by (simp add: ready_def)
  show ?thesis
  proof (cases "deadly X p raw")
    case True
    then have "process_step X n U p (p\<lparr>gone := insert k (gone p), messages := ms\<rparr>)"
      by (intro takes_and_panics [OF k msg]) (auto simp: deadly_def tree_locked_out_def split: option.splits)
    with True show ?thesis by (intro exI) (auto simp: process_sets)
  next
    case False
    then obtain m where m: "deserialize_msg X raw = Some m" "holds_tree m \<longrightarrow> BlockchainLock \<notin> sh_poisoned (shared (core p))"
      by (auto simp: deadly_def tree_locked_out_def split: option.splits)
    have take: ?thesis if "process_step X n U p q" "messages q = ms" "gone q = gone p" for q
      using that here False by auto
    show ?thesis
    proof (cases "\<exists>bs. m = Blocks bs")
      case True
      then obtain bs' where bs': "m = Blocks bs'" ..
      obtain pos l' where d: "deliver_blocks bs' l = (pos, l')" by (cases "deliver_blocks bs' l")
      have "set bs' \<subseteq> U" using bs m bs' by blast
      from take [OF takes_blocks [OF k msg m(1) [unfolded bs'] this d]] show ?thesis by (simp add: process_sets)
    next
      case no_blocks: False
      show ?thesis
      proof (cases "pool_arm m")
        case (Some th)
        from take [OF takes_pool_message [OF k msg m(1) Some]] show ?thesis by simp
      next
        case None
        with no_blocks obtain nd os out where o: "handle_message X (the_node p) [] m = Ret (nd, os, out)"
          using other_messages by blast
        have "\<forall>bs. m \<noteq> Blocks bs" using no_blocks by simp
        from take [OF takes_other [OF k msg m(1) None this m(2) o]] show ?thesis by simp
      qed
    qed
  qed
qed

text \<open>What a step that loses a worker, a lock or the control task is.\<close>

lemma worker_lost:
  assumes step: "process_step X n U p p'" and k: "k \<in> gone p'" "k \<notin> gone p"
  shows "(\<exists>raw h ms. messages p = (raw, h) # ms \<and> deadly X p raw) \<or>
    control_gone p \<and> (\<exists>m out. outbox p k = Broadcast m # out)"
  using step
proof cases
  case (takes_and_panics j l raw h ms)
  with takes_and_panics(5) show ?thesis unfolding deadly_def tree_locked_out_def by blast
next
  case (broadcast_panics j m out e)
  with k show ?thesis by (auto simp: Server_Handle_broadcast_def control_send_def split: if_splits)
qed (use k in \<open>auto simp: process_sets apply_effects_frame\<close>)

lemma tree_locked_out_by:
  assumes step: "process_step X n U p p'" and U: "hashes_sound X U" and inv: "process_inv X U p"
    and lost: "tree_locked_out p'" "\<not> tree_locked_out p"
  shows "\<exists>ord sent pairs resp. api_serve X (the_node p) ord sent (Url ''/blockchain/longest-chain'' pairs) = Ret (resp, [], True) \<and>
    resp = Panic UnwrapErr \<and> p' = set_shared ((shared (core p))\<lparr>sh_poisoned := insert BlockchainLock (sh_poisoned (shared (core p)))\<rparr>) p"
proof -
  have reach: "lock_reach X U (core p)" using inv by (simp add: process_inv_def)
  note ok = lock_reach_ok [OF U reach]
  have kept: "BlockchainLock \<in> sh_poisoned sh" if "BlockchainLock \<in> sh_poisoned sh'"
    "thread_lock_step X sh (threads (core p) k) = (sh', th')" "sh = shared (core p)" for sh sh' k th'
    using that thread_lock_step_holds [OF U _ _ that(2)] config_ok_shared [OF ok] config_ok_thread [OF ok, of k] by auto
  show ?thesis
    using step
  proof cases
    case (worker_section k pos l sh pos' l')
    then have "thread_lock_step X (shared (core p)) (threads (core p) k) = (sh, Worker pos' l')" by simp
    from kept [OF _ this refl] lost worker_section(1) show ?thesis by (auto simp: tree_locked_out_def process_sets)
  next
    case (query_section k r sh r')
    then have "thread_lock_step X (shared (core p)) (threads (core p) k) = (sh, Reading r')" by simp
    from kept [OF _ this refl] lost query_section(1) show ?thesis by (auto simp: tree_locked_out_def process_sets)
  next
    case (generator_section inp sh t out)
    have "BlockStateLock \<notin> sh_poisoned (shared (core p))"
      using config_ok_shared [OF ok] by (auto simp: shared_ok_def)
    moreover have "\<forall>h. fst (p_generator p) = GeneratorFetch h \<longrightarrow> block_state (the_node p) h \<noteq> None"
      using inv by (simp add: process_inv_def process_links_def)
    ultimately obtain mp where "sh = (shared (core p))\<lparr>sh_node := (the_node p)\<lparr>mempool := mp\<rparr>\<rparr>"
      using generator_section_pool [OF generator_section(4)] by blast
    with lost generator_section(1) show ?thesis by (simp add: tree_locked_out_def process_sets)
  next
    case (response_breaks ord sent req resp effects)
    from api_serve_locked [OF response_breaks(2)] response_breaks show ?thesis by blast
  qed (use lost in \<open>auto simp: tree_locked_out_def process_sets apply_effects_frame\<close>)
qed

lemma control_lost:
  assumes step: "process_step X n U p p'" and "control_gone p'" "\<not> control_gone p"
  shows "\<exists>sig sigs inp e. control p = sig # sigs \<and> dispatch_control X (server p) inp sig = Panic e"
  using step
proof cases
  case (control_task_panics sig sigs inp e)
  then show ?thesis by blast
qed (use assms(2,3) in \<open>auto simp: process_sets apply_effects_frame\<close>)

lemma mempool_poisoned_by:
  assumes step: "process_step X n U p p'" and "pool_bad p'" and "\<not> pool_bad p"
  shows "\<exists>k h hs ts. arm p k = Some (Fetching h hs ts) \<and> trans (mempool (the_node p)) h = None"
  using step
proof cases
  case (pool_section k th q th')
  have q: "poisoned q" using pool_section(1) assms(2) by (simp add: process_sets)
  have step: "thread_step X \<lparr>pool = trans (mempool (the_node p)), poisoned = False\<rparr> th = (q, th')"
    using pool_section(3) assms(3) by simp
  have "\<exists>h hs ts. th = Fetching h hs ts \<and> trans (mempool (the_node p)) h = None"
  proof (cases th)
    case (Asking hs ts)
    with step q show ?thesis by (cases hs) (auto split: if_splits)
  next
    case (Pooling ts hs)
    with step q show ?thesis by (cases ts) (auto split: if_splits)
  next
    case (Removing hs)
    with step q show ?thesis by (cases hs) auto
  qed (use step q in \<open>auto split: option.splits\<close>)
  with pool_section(2) show ?thesis by blast
qed (use assms(2,3) in \<open>auto simp: process_sets apply_effects_frame\<close>)


lemma step_losses:
  assumes step: "process_step X n U p p'" and U: "hashes_sound X U" and inv: "process_inv X U p"
  shows "(\<forall>k. k \<in> gone p' \<longrightarrow> k \<in> gone p \<or> (\<exists>raw h ms. messages p = (raw, h) # ms \<and> deadly X p raw) \<or>
         control_gone p \<and> (\<exists>m out. outbox p k = Broadcast m # out)) \<and>
      (pool_bad p' \<longrightarrow> pool_bad p \<or>
         (\<exists>k h hs ts. arm p k = Some (Fetching h hs ts) \<and> trans (mempool (the_node p)) h = None)) \<and>
      (tree_locked_out p' \<longrightarrow> tree_locked_out p \<or>
         (\<exists>ord sent pairs resp.
            api_serve X (the_node p) ord sent (Url ''/blockchain/longest-chain'' pairs) = Ret (resp, [], True) \<and>
            resp = Panic UnwrapErr \<and>
            p' = set_shared ((shared (core p))\<lparr>sh_poisoned := insert BlockchainLock (sh_poisoned (shared (core p)))\<rparr>) p)) \<and>
      (control_gone p' \<longrightarrow> control_gone p \<or>
         (\<exists>sig sigs inp e. control p = sig # sigs \<and> dispatch_control X (server p) inp sig = Panic e))"
  by (intro conjI, use worker_lost [OF step] in blast, use mempool_poisoned_by [OF step] in blast,
      use tree_locked_out_by [OF step U inv] in blast, use control_lost [OF step] in blast)

section \<open>The end of the mempool\<close>

text \<open>A worker that has found a transaction, and the miner that removes it.\<close>

lemma mempool_dies:
  assumes "arm p k = Some (Fetching h hs ts)" and "p_miner p = (MinerRemove (h # rem), m)" and "\<not> pool_bad p"
    and "enumerates es (trans (mempool (the_node p)))"
  shows "\<exists>p'. (process_step X n U)\<^sup>*\<^sup>* p p' \<and> pool_bad p' \<and> arm p' k = Some Crashed \<and>
    (\<forall>q. (process_step X n U)\<^sup>*\<^sup>* p' q \<longrightarrow> pool_bad q \<and> mempool (the_node q) = mempool (the_node p'))"
proof -
  let ?mp = "(mempool (the_node p))\<lparr>trans := (trans (mempool (the_node p)))(h := None)\<rparr>"
  let ?inp = "\<lparr>signal = next_signal (miner_chan p), rnd = 0, clock = None, order = es,
      receiver_alive = works p n\<rparr>"
  have "miner_surroundings n p ?inp" using assms(4) by (simp add: miner_surroundings_def)
  moreover have "miner_lock_step X (BlockchainLock \<in> sh_poisoned (shared (core p))) (pool_bad p) ?inp (the_node p)
      (p_miner p) = ((the_node p)\<lparr>mempool := ?mp\<rparr>, (MinerRemove rem, m), None)"
    using assms(2,3) by simp
  ultimately obtain p1 where p1: "process_step X n U p p1" "the_node p1 = (the_node p)\<lparr>mempool := ?mp\<rparr>"
    "arm p1 = arm p" "pool_bad p1 = pool_bad p" using miner_section [of n p ?inp] by fastforce
  have "thread_step X \<lparr>pool = trans (mempool (the_node p1)), poisoned = pool_bad p1\<rparr> (Fetching h hs ts) =
      (\<lparr>pool = trans (mempool (the_node p1)), poisoned = True\<rparr>, Crashed)"
    using assms(3) p1(2,4) by simp
  with p1(3) assms(1) obtain p2 where p2: "process_step X n U p1 p2" "pool_bad p2" "arm p2 k = Some Crashed"
    using pool_section [of p1 k "Fetching h hs ts"] by (fastforce simp: process_sets)
  from p1(1) p2(1) have "(process_step X n U)\<^sup>*\<^sup>* p p2" by (meson converse_rtranclp_into_rtranclp rtranclp.rtrancl_refl)
  with p2 process_steps_frozen show ?thesis by blast
qed

lemma process_reach_steps: "(process_step X n U)\<^sup>*\<^sup>* p q \<Longrightarrow> process_reach X n U p \<Longrightarrow> process_reach X n U q"
  by (induction rule: rtranclp_induct) (blast intro: process_next)+

section \<open>Properties\<close>



text \<open>
  C2: The program refines its parts. A reachable state of the whole program projects to a
  reachable configuration of the threads over the block tree and the ledger states and to a
  reachable state of the server; each of its steps is a step of those threads or leaves them
  alone, and is a step of the server or leaves it alone. Both include what goes wrong: a
  response that fails poisons the lock of the tree in the threads too. (Hashes as above.)
\<close>

theorem program_refines_parts:
  assumes "process_reach X n U p" and "hashes_sound X U"
  shows "lock_reach X U (core p) \<and> server_reach X (server p) \<and>
    (\<forall>p'. process_step X n U p p' \<longrightarrow>
       (core p' = core p \<or> lock_sys_step X U (core p) (core p')) \<and>
       (server p' = server p \<or> server_step X (server p) (server p')))"
proof -
  note inv = process_reach_inv [OF assms]
  then have "lock_reach X U (core p)" "server_reach X (server p)" "process_links X p" by (simp_all add: process_inv_def)
  with process_step_core [OF _ assms(2) inv] process_step_server show ?thesis by blast
qed

theorem program_refines_parts_witness:
  "\<exists>(p :: nat Process) b. process_reach race_crates 3 {genesis, b} p \<and> lock_reach race_crates {genesis, b} (core p) \<and>
     server_reach race_crates (server p) \<and> peers (server p) = [5 \<mapsto> \<lparr>h_addr = 5, write_queue = 0\<rparr>]"
proof -
  obtain p :: "nat Process" and b where r: "hash_block (demo_crates False) b = pad32 [0, 2, 1]"
    "process_reach race_crates 3 {genesis, b} p" "peers (server p) = [5 \<mapsto> \<lparr>h_addr = 5, write_queue = 0\<rparr>]"
    by (rule race_ready)
  from program_refines_parts [OF r(2) race_sound [OF r(1)]] r(2,3) show ?thesis by blast
qed



text \<open>
  C13: The mempool of the whole program is authentic. Between any two lock sections every
  pooled transaction is stored under its own hash and carries a valid signature.
\<close>

theorem program_mempool_authentic:
  assumes "process_reach X n U p" and "\<forall>k\<in>set all_public_keys. signs X k"
    and "trans (mempool (the_node p)) h = Some t"
  shows "hash_stx X t = h \<and> verify_tx X (transaction t) (public_key_vector t) (signature_vector t)"
  using process_reach_pool [OF assms(1,2)] assms(3) by (auto simp: pool_inv_def mempool_ok_def signature_ok_def)

theorem program_mempool_authentic_witness:
  "\<exists>(p :: nat Process) b h t. process_reach race_crates 3 {genesis, b} p \<and> trans (mempool (the_node p)) h = Some t \<and>
     hash_stx race_crates t = h"
proof -
  let ?h = "hash_stx (demo_crates False) (demo_tx [] [])"
  obtain p :: "nat Process" and b where r: "hash_block (demo_crates False) b = pad32 [0, 2, 1]"
    "process_reach race_crates 3 {genesis, b} p" "trans (mempool (the_node p)) = [?h \<mapsto> demo_tx [] []]"
    by (rule race_ready)
  then have e: "trans (mempool (the_node p)) ?h = Some (demo_tx [] [])" by simp
  from program_mempool_authentic [OF r(2) race_signs e] e r(2) show ?thesis by blast
qed

text \<open>
  C19: The race over the mempool kills it, for the whole program. If a worker is about to
  fetch a transaction that it has found, and the miner is about to remove it, two steps lead
  to a state where that worker has panicked and the mempool is poisoned; after that no
  thread ever changes the mempool again.
\<close>

theorem program_mempool_dies:
  assumes "arm p k = Some (Fetching h hs ts)" and "p_miner p = (MinerRemove (h # rem), m)" and "\<not> pool_bad p"
    and "enumerates es (trans (mempool (the_node p)))"
  shows "\<exists>p'. (process_step X n U)\<^sup>*\<^sup>* p p' \<and> pool_bad p' \<and> arm p' k = Some Crashed \<and>
    (\<forall>q. (process_step X n U)\<^sup>*\<^sup>* p' q \<longrightarrow> pool_bad q \<and> mempool (the_node q) = mempool (the_node p'))"
  by (rule mempool_dies [OF assms])

theorem program_mempool_dies_witness:
  "\<exists>(p :: nat Process) p' b. process_reach race_crates 3 {genesis, b} p \<and> \<not> pool_bad p \<and>
     (process_step race_crates 3 {genesis, b})\<^sup>*\<^sup>* p p' \<and> pool_bad p' \<and> arm p' 1 = Some Crashed"
proof -
  let ?h = "hash_stx (demo_crates False) (demo_tx [] [])"
  obtain p :: "nat Process" and b where r: "process_reach race_crates 3 {genesis, b} p"
    "arm p 1 = Some (Fetching ?h [] [])" "fst (p_miner p) = MinerRemove [?h]" "\<not> pool_bad p"
    "trans (mempool (the_node p)) = [?h \<mapsto> demo_tx [] []]" by (rule race_ready)
  have m: "p_miner p = (MinerRemove [?h], snd (p_miner p))" using r(3) by (metis prod.collapse)
  have "enumerates [(?h, demo_tx [] [])] (trans (mempool (the_node p)))" by (auto simp: enumerates_def r(5))
  from program_mempool_dies [OF r(2) m r(4) this, of race_crates 3 "{genesis, b}"] r(1,4) show ?thesis by blast
qed



text \<open>
  C15: Lock by lock and undisturbed, the miner and the generator do in a turn what their
  one-step definitions say.
\<close>

theorem turns_refined_by_locks:
  "(\<forall>inp m nd' m' sent. miner_turn X nd m inp = Some (Ret (nd', m', sent)) \<longrightarrow>
      (\<exists>pos\<in>{MinerTop, MinerReturned}. miner_alone X inp (nd, (MinerTop, m), [])
         (nd', (pos, m'), (case sent of None \<Rightarrow> [] | Some b \<Rightarrow> [b])))) \<and>
   (\<forall>inp g nd' g' out. generator_turn X nd g inp = Ret (nd', g', out) \<longrightarrow>
      (\<exists>pos\<in>{GeneratorTop, GeneratorReturned}.
         generator_alone X inp (\<lparr>sh_node = nd, sh_poisoned = {}\<rparr>, (GeneratorTop, g), [])
           (\<lparr>sh_node = nd', sh_poisoned = {}\<rparr>, (pos, g'), out)))"
proof (intro conjI allI impI)
  fix inp m nd' m' sent assume "miner_turn X nd m inp = Some (Ret (nd', m', sent))"
  from alone_turn [OF this] show "\<exists>pos\<in>{MinerTop, MinerReturned}. miner_alone X inp (nd, (MinerTop, m), [])
      (nd', (pos, m'), (case sent of None \<Rightarrow> [] | Some b \<Rightarrow> [b]))" by (auto split: if_splits)
next
  fix inp g nd' g' out assume "generator_turn X nd g inp = Ret (nd', g', out)"
  from generator_alone_turn [OF this] show "\<exists>pos\<in>{GeneratorTop, GeneratorReturned}.
      generator_alone X inp (\<lparr>sh_node = nd, sh_poisoned = {}\<rparr>, (GeneratorTop, g), [])
        (\<lparr>sh_node = nd', sh_poisoned = {}\<rparr>, (pos, g'), out)" by blast
qed

theorem turns_refined_by_locks_witness:
  "\<exists>nd' m' b pos. miner_alone (demo_crates True) (demo_miner_input Nothing)
     (init_node (demo_crates True), (MinerTop, demo_miner 0), []) (nd', (pos, m'), [b]) \<and>
     b = demo_block 1 (pad32 [0, 1, 0]) []"
proof -
  let ?X = "demo_crates True" and ?b = "demo_block 1 (pad32 [0, 1, 0]) []"
  obtain nd' m' where "miner_turn ?X (init_node ?X) (demo_miner 0) (demo_miner_input Nothing) =
      Some (Ret (nd', m', Some ?b))" using demo_miner_turn by blast
  with conjunct1 [OF turns_refined_by_locks [of ?X "init_node ?X"]] show ?thesis by fastforce
qed

end
