(* ===== verification/Relay.thy ===== *)
theory Relay
  imports Arrival
begin

text \<open>
  Two nodes on one connection. The handlers of \<open>src/src/network/worker.rs\<close> are composed
  as the protocol composes them: what a worker writes to the peer or broadcasts is what a
  worker of the other node receives. Each node has a pool of network workers, which share
  its tree and take its messages, and each worker has an orphan buffer of its own. The
  theory shows when a node catches up with a branch of any length by asking for parents,
  and what the header's uncommitted content costs.
\<close>

section \<open>A connection between two nodes\<close>

record Link =
  left :: Node
  left_orphans :: "nat \<Rightarrow> Block list"
  right :: Node
  right_orphans :: "nat \<Rightarrow> Block list"
  to_left :: "Message list"
  to_right :: "Message list"

fun message_of :: "action \<Rightarrow> Message" where
  "message_of (Reply m) = m"
| "message_of (Broadcast m) = m"

text \<open>
  One delivery: worker \<open>k\<close> takes the oldest message to the right node, or else to the left
  one. A run is given by the workers that take the messages.
\<close>

definition link_turn :: "Crates \<Rightarrow> nat \<Rightarrow> Link \<Rightarrow> Link res" where
  "link_turn X k l =
     (case to_right l of
        m # ms \<Rightarrow> bind_res (handle_message X (right l) (right_orphans l k) m) (\<lambda>(nd, os, out).
          Ret (l\<lparr>right := nd, right_orphans := (right_orphans l)(k := os), to_right := ms,
                 to_left := to_left l @ map message_of out\<rparr>))
      | [] \<Rightarrow>
         (case to_left l of
            m # ms \<Rightarrow> bind_res (handle_message X (left l) (left_orphans l k) m) (\<lambda>(nd, os, out).
              Ret (l\<lparr>left := nd, left_orphans := (left_orphans l)(k := os), to_left := ms,
                     to_right := to_right l @ map message_of out\<rparr>))
          | [] \<Rightarrow> Ret l))"

primrec link_run :: "Crates \<Rightarrow> nat list \<Rightarrow> Link \<Rightarrow> Link res" where
  "link_run X [] l = Ret l"
| "link_run X (k # ks) l = bind_res (link_turn X k l) (link_run X ks)"

lemma link_run_append: "link_run X (ks @ ks') l = bind_res (link_run X ks l) (link_run X ks')"
proof (induction ks arbitrary: l)
  case (Cons k ks)
  then show ?case by (cases "link_turn X k l") simp_all
qed simp

section \<open>Catching up\<close>

text \<open>
  A branch, youngest block first, that the left node has and the right node lacks: each
  block is the child of the next, and the parent of the last is known to the right node.
\<close>

definition served :: "Crates \<Rightarrow> Node \<Rightarrow> Node \<Rightarrow> Block \<Rightarrow> bool" where
  "served X A B b \<longleftrightarrow> map_option fst (blocks (blockchain A) (hash_block X b)) = Some b \<and>
     blocks (blockchain B) (hash_block X b) = None \<and> hash_block X b \<le> difficulty (head b)"

fun missing_branch :: "Crates \<Rightarrow> Node \<Rightarrow> Node \<Rightarrow> Block list \<Rightarrow> bool" where
  "missing_branch X A B [] = False"
| "missing_branch X A B [b] = (served X A B b \<and> blocks (blockchain B) (parent (head b)) \<noteq> None)"
| "missing_branch X A B (b # b' # bs) =
     (served X A B b \<and> parent (head b) = hash_block X b' \<and> missing_branch X A B (b' # bs))"

lemma missing_branch_hd: "missing_branch X A B (b # bs) \<Longrightarrow> served X A B b"
  by (cases bs) simp_all

lemma accepts_mono:
  "accepts X nd B h b s \<Longrightarrow> B \<subseteq> B' \<Longrightarrow> accepts X nd B' h b s"
  by (induction rule: accepts.induct) (auto intro: accepts_known accepts_next)

lemma serve_block:
  assumes "served X A B b"
  shows "handle_message X A os (GetBlocks [hash_block X b]) = Ret (A, os, [Reply (Blocks [b])])"
  using assms by (auto simp: served_def handle_GetBlocks_def)

lemma orphaned_block:
  assumes "served X A B b" and "blocks (blockchain B) (parent (head b)) = None"
  shows "handle_message X B os (Blocks [b]) =
    Ret (B, os @ [b], [Reply (GetBlocks [parent (head b)])])"
  using assms by (simp add: served_def handle_Blocks_def process_block_def Let_def)

lemma handle_message_release:
  assumes "node_safe nd" and "\<not> overflow_checks X"
  obtains nd' os' out where "handle_message X nd os msg = Ret (nd', os', out)"
  using handle_message_panic [OF assms(1), of X os msg] assms(2)
  by (cases "handle_message X nd os msg") (auto simp del: handle_message.simps)

text \<open>
  One worker of the right node takes the blocks of the branch, youngest first, up to the
  last but one, and buffers each; after that the oldest is asked for.
\<close>

lemma branch_gathered:
  "missing_branch X A B bs \<Longrightarrow> length bs = Suc (length js) \<Longrightarrow>
     link_run X (concat (map (\<lambda>j. [j, w]) js)) \<lparr>left = A, left_orphans = lb, right = B, right_orphans = rb,
         to_left = [GetBlocks [hash_block X (hd bs)]], to_right = []\<rparr> =
       Ret \<lparr>left = A, left_orphans = lb, right = B, right_orphans = rb(w := rb w @ butlast bs),
         to_left = [GetBlocks [hash_block X (last bs)]], to_right = []\<rparr>"
proof (induction js arbitrary: bs rb)
  case Nil
  then obtain b where "bs = [b]" by (auto simp: length_Suc_conv)
  then show ?case by simp
next
  case (Cons j js)
  from Cons.prems(2) obtain b b' bs' where bs: "bs = b # b' # bs'" by (auto simp: length_Suc_conv)
  from Cons.prems(1) have p: "parent (head b) = hash_block X b'" and sv: "served X A B b"
    and br: "missing_branch X A B (b' # bs')" by (simp_all add: bs)
  have un: "blocks (blockchain B) (parent (head b)) = None"
    using missing_branch_hd [OF br] by (simp add: p served_def)
  let ?rb = "rb(w := rb w @ [b])"
  have "link_run X [j, w] \<lparr>left = A, left_orphans = lb, right = B, right_orphans = rb,
      to_left = [GetBlocks [hash_block X b]], to_right = []\<rparr> =
    Ret \<lparr>left = A, left_orphans = lb, right = B, right_orphans = ?rb, to_left = [GetBlocks [hash_block X b']], to_right = []\<rparr>"
    using serve_block [OF sv] orphaned_block [OF sv un] p by (simp add: link_turn_def del: handle_message.simps)
  moreover have "link_run X (concat (map (\<lambda>j. [j, w]) js)) \<lparr>left = A, left_orphans = lb, right = B, right_orphans = ?rb,
      to_left = [GetBlocks [hash_block X b']], to_right = []\<rparr> =
    Ret \<lparr>left = A, left_orphans = lb, right = B, right_orphans = ?rb(w := ?rb w @ butlast (b' # bs')),
      to_left = [GetBlocks [hash_block X (last (b' # bs'))]], to_right = []\<rparr>"
    using Cons.IH [OF br, of ?rb] Cons.prems(2) by (simp only: bs list.sel list.size)
  ultimately show ?case
    using link_run_append [of X "[j, w]" "concat (map (\<lambda>j. [j, w]) js)"] by (auto simp: bs fun_eq_iff)
qed

lemma missing_branch_last: "missing_branch X A B bs \<Longrightarrow> served X A B (last bs)"
  by (induction X A B bs rule: missing_branch.induct) simp_all

lemma missing_branch_oldest:
  "missing_branch X A B bs \<Longrightarrow> blocks (blockchain B) (parent (head (last bs))) \<noteq> None"
  by (induction X A B bs rule: missing_branch.induct) simp_all

lemma branch_delivered:
  assumes br: "missing_branch X (left p) (right p) bs" and len: "length bs = Suc (length js)"
    and msgs: "to_right p = [NewBlockHashes [hash_block X (hd bs)]]" "to_left p = []"
    and run: "handle_message X (right p) (((right_orphans p)(w := right_orphans p w @ butlast bs)) v) (Blocks [last bs]) = Ret (nd, os, out)"
  shows "link_run X (a # concat (map (\<lambda>j. [j, w]) js) @ [c, v]) p =
    Ret \<lparr>left = left p, left_orphans = left_orphans p, right = nd, right_orphans = (right_orphans p)(w := right_orphans p w @ butlast bs, v := os),
      to_left = map message_of out, to_right = []\<rparr>"
proof -
  have "blocks (blockchain (right p)) (hash_block X (hd bs)) = None"
    using br missing_branch_hd by (cases bs) (auto simp: served_def)
  then have "link_turn X a p = Ret \<lparr>left = left p, left_orphans = left_orphans p, right = right p, right_orphans = right_orphans p,
      to_left = [GetBlocks [hash_block X (hd bs)]], to_right = []\<rparr>"
    using msgs by (cases p) (simp add: link_turn_def handle_NewBlockHashes_def)
  with branch_gathered [OF br len] serve_block [OF missing_branch_last [OF br]] run show ?thesis
    by (simp add: link_run_append link_turn_def del: handle_message.simps)
qed

text \<open>If the youngest block of the branch is acceptable, all of them are.\<close>

lemma accepts_new:
  "accepts X nd B h b s \<Longrightarrow> blocks (blockchain nd) h = None \<Longrightarrow> b \<in> B \<and> hash_block X b = h"
  by (erule accepts.cases) simp_all

lemma branch_accepted:
  "missing_branch X A B bs \<Longrightarrow> fresh_blocks X B U \<Longrightarrow> set bs \<subseteq> U \<Longrightarrow>
     accepts X B U (hash_block X (hd bs)) (hd bs) s \<Longrightarrow> \<forall>b\<in>set bs. \<exists>s. accepts X B U (hash_block X b) b s"
proof (induction X A B bs arbitrary: s rule: missing_branch.induct)
  case (3 X A B b b' bs)
  from "3.prems"(1) have p: "parent (head b) = hash_block X b'" "served X A B b" and br: "missing_branch X A B (b' # bs)"
    by simp_all
  from "3.prems"(4) have "accepts X B U (hash_block X b) b s" by simp
  then obtain pb sp where a: "accepts X B U (hash_block X b') pb sp"
    by (cases rule: accepts.cases) (use p in \<open>auto simp: served_def\<close>)
  have "blocks (blockchain B) (hash_block X b') = None" using missing_branch_hd [OF br] by (simp add: served_def)
  from accepts_new [OF a this] "3.prems"(2,3) have "pb = b'" by (auto simp: fresh_blocks_def dest: inj_onD)
  with a "3.IH" [OF br "3.prems"(2)] "3.prems"(3) have "\<forall>b\<in>set (b' # bs). \<exists>s. accepts X B U (hash_block X b) b s" by simp
  with "3.prems"(4) show ?case by auto
qed auto

text \<open>A branch of one block arrives whichever workers take the messages.\<close>

lemma block_fetched:
  assumes "missing_branch X (left l) (right l) [b]" and "\<not> overflow_checks X"
    and "accepts X (right l) {b} (hash_block X b) b s"
    and "to_right l = [NewBlockHashes [hash_block X b]]" and "to_left l = []"
    and "node_safe (right l)" and "right_orphans l v = []"
  shows "\<exists>l' n. link_run X [a, c, v] l = Ret l' \<and> left l' = left l \<and>
    blocks (blockchain (right l')) (hash_block X b) = Some (b, n) \<and>
    block_state (right l') (hash_block X b) = Some s"
proof -
  have bufs: "((right_orphans l)(v := right_orphans l v @ butlast [b])) v = []" using assms(7) by simp
  have new: "blocks (blockchain (right l)) (hash_block X b) = None" using assms(1) by (simp add: served_def)
  obtain nd os out where run: "handle_message X (right l) [] (Blocks [b]) = Ret (nd, os, out)"
    by (rule handle_message_release [OF assms(6,2)])
  then have "handle_Blocks X (right l) [] [b] = Ret (nd, os, out)" by simp
  from handle_Blocks_closure [OF this assms(6), of "hash_block X b" b s] assms(3) new
  have "\<exists>n. blocks (blockchain nd) (hash_block X b) = Some (b, n)" "block_state nd (hash_block X b) = Some s"
    by (simp_all add: orphans_wait_def orphans_pow_def fresh_blocks_def)
  moreover have "link_run X (a # concat (map (\<lambda>j. [j, v]) []) @ [c, v]) l =
      Ret \<lparr>left = left l, left_orphans = left_orphans l, right = nd,
        right_orphans = (right_orphans l)(v := right_orphans l v @ butlast [b], v := os),
        to_left = map message_of out, to_right = []\<rparr>"
    by (rule branch_delivered [OF assms(1)]) (use assms(4,5) run bufs in simp_all)
  ultimately show ?thesis by simp
qed

section \<open>Properties\<close>

text \<open>
  C10: a node catches up if one worker gets the blocks. In a release build, let the left
  node announce the youngest block of a branch that the right node lacks, and let the
  messages between the two be delivered one after the other while nothing else changes the
  two nodes. The blocks of the branch are sent one by one, the youngest first; worker \<open>w\<close>
  of the right node takes all but the last, and worker \<open>v\<close> takes the last. Then after
  \<open>2 k + 1\<close> deliveries for \<open>k\<close> blocks: if \<open>v\<close> is \<open>w\<close>, as it is with one worker, the
  right node has every block of the branch, with the ledger state its transactions lead to;
  if \<open>v\<close> is another worker, with nothing buffered, and the branch has more than one block,
  the right node lacks the announced block, which stays in the buffer of \<open>w\<close>. The further
  hypotheses: the announced block is acceptable, no block in the buffer of \<open>w\<close> has a known
  parent or lacks its proof of work, and the blocks of the branch and of that buffer have
  pairwise different hashes unknown to the right node.
\<close>

theorem node_catches_up:
  assumes "missing_branch X (left p) (right p) bs" and "\<not> overflow_checks X"
    and "accepts X (right p) (set bs) (hash_block X (hd bs)) (hd bs) s"
    and "to_right p = [NewBlockHashes [hash_block X (hd bs)]]" and "to_left p = []"
    and "node_safe (right p)" and "orphans_wait (right p) (right_orphans p w)" and "orphans_pow X (right_orphans p w)"
    and "fresh_blocks X (right p) (set (right_orphans p w) \<union> set bs)" and "length bs = Suc (length js)"
  shows "\<exists>q. link_run X (a # concat (map (\<lambda>j. [j, w]) js) @ [c, v]) p = Ret q \<and> left q = left p \<and>
    (v = w \<longrightarrow> (\<forall>b\<in>set bs. \<exists>n s. blocks (blockchain (right q)) (hash_block X b) = Some (b, n) \<and>
       block_state (right q) (hash_block X b) = Some s \<and> accepts X (right p) (set bs) (hash_block X b) b s)) \<and>
    (v \<noteq> w \<and> right_orphans p v = [] \<and> js \<noteq> [] \<longrightarrow>
       blocks (blockchain (right q)) (hash_block X (hd bs)) = None \<and> hd bs \<in> set (right_orphans q w))"
proof -
  let ?B = "right p" and ?bufs = "(right_orphans p)(w := right_orphans p w @ butlast bs)"
  obtain nd os out where run: "handle_message X ?B (?bufs v) (Blocks [last bs]) = Ret (nd, os, out)"
    by (rule handle_message_release [OF assms(6,2)])
  then have hb: "handle_Blocks X ?B (?bufs v) [last bs] = Ret (nd, os, out)" by simp
  note q = branch_delivered [OF assms(1,10,4,5) run, of a c]
  have ne: "bs \<noteq> []" using assms(10) by auto
  have fresh: "fresh_blocks X ?B (set bs)" using assms(9) by (auto simp: fresh_blocks_def inj_on_def)
  have lacks: "blocks (blockchain ?B) (hash_block X (hd bs)) = None"
    using assms(1) missing_branch_hd by (cases bs) (auto simp: served_def)
  show ?thesis
  proof (cases "v = w")
    case True
    have parents: "blocks (blockchain ?B) (parent (head b)) = None \<and> hash_block X b \<le> difficulty (head b)"
      if "b \<in> set (butlast bs)" for b
      using assms(1) that
      by (induction X "left p" "right p" bs rule: missing_branch.induct)
        (auto simp: served_def dest: missing_branch_hd split: if_splits)
    have "set bs = insert (last bs) (set (butlast bs))"
      using append_butlast_last_id [OF ne] by (metis Un_insert_right list.simps(15) set_append sup_bot.right_neutral list.set(1))
    then have union: "set [last bs] \<union> set (?bufs v) = set (right_orphans p w) \<union> set bs" using True by auto
    have "orphans_wait ?B (?bufs v)" "orphans_pow X (?bufs v)"
      using assms(7,8) parents True by (auto simp: orphans_wait_def orphans_pow_def)
    note closure = handle_Blocks_closure [OF hb assms(6) this, unfolded union, OF assms(9)]
    have "\<forall>b\<in>set bs. \<exists>s. accepts X ?B (set bs) (hash_block X b) b s"
      by (rule branch_accepted [OF assms(1) fresh _ assms(3)]) simp
    then have "\<forall>b\<in>set bs. \<exists>n s. blocks (blockchain nd) (hash_block X b) = Some (b, n) \<and>
        block_state nd (hash_block X b) = Some s \<and> accepts X ?B (set bs) (hash_block X b) b s"
      using closure accepts_mono [of X ?B "set bs" _ _ _ "set (right_orphans p w) \<union> set bs"] by (meson Un_upper2)
    with q True show ?thesis by simp
  next
    case False
    have "blocks (blockchain nd) (hash_block X (hd bs)) = None \<and> hd bs \<in> set (?bufs w)"
      if idle: "right_orphans p v = []" "js \<noteq> []"
    proof -
      obtain b b' bs' where bs: "bs = b # b' # bs'" using assms(10) idle(2) by (cases bs; cases "tl bs"; cases js) auto
      have bufs: "?bufs v = []" using False idle(1) by simp
      have one: "fresh_blocks X ?B {last bs}" using fresh ne by (auto simp: fresh_blocks_def)
      have "hash_block X (hd bs) \<noteq> hash_block X (last bs)"
      proof
        assume "hash_block X (hd bs) = hash_block X (last bs)"
        then have "hd bs = last bs" using fresh ne by (auto simp: fresh_blocks_def dest: inj_onD)
        then have "blocks (blockchain ?B) (parent (head b)) \<noteq> None" using missing_branch_oldest [OF assms(1)] bs by simp
        with assms(1) missing_branch_hd [of X "left p" ?B b' bs'] show False by (simp add: bs served_def)
      qed
      then have "\<not> accepts X ?B {last bs} (hash_block X (hd bs)) b1 s1" for b1 s1
        using accepts_new [OF _ lacks] by fastforce
      moreover have "map_option fst (blocks (blockchain nd) (hash_block X (hd bs))) = Some b1 \<longleftrightarrow>
          (\<exists>s. accepts X ?B {last bs} (hash_block X (hd bs)) b1 s)" for b1
        using handle_Blocks_tree [OF hb [unfolded bufs] assms(6), of "hash_block X (hd bs)" b1] one
        by (simp add: orphans_wait_def orphans_pow_def)
      ultimately have "blocks (blockchain nd) (hash_block X (hd bs)) = None"
        by (cases "blocks (blockchain nd) (hash_block X (hd bs))") auto
      then show ?thesis by (simp add: bs)
    qed
    with q False show ?thesis by simp
  qed
qed

definition demo_link :: Link where
  "demo_link =
     (let A = init_node (demo_crates False)
      in \<lparr>left = A\<lparr>blockchain := (blockchain A)\<lparr>blocks := (blocks (blockchain A))
                  (pad32 [0, 2, 1] \<mapsto> (demo_b1, 1), pad32 [0, 3, 2] \<mapsto> (demo_b2, 2))\<rparr>\<rparr>,
          left_orphans = (\<lambda>_. []), right = A, right_orphans = (\<lambda>_. []), to_left = [], to_right = [NewBlockHashes [pad32 [0, 3, 2]]]\<rparr>)"

text \<open>The example: with one worker both blocks arrive, with two the announced one does not.\<close>

theorem node_catches_up_witness:
  "(\<exists>q n. link_run (demo_crates False) [0, 0, 0, 0, 0] demo_link = Ret q \<and>
      blocks (blockchain (right q)) (pad32 [0, 3, 2]) = Some (demo_b2, n)) \<and>
   (\<exists>q. link_run (demo_crates False) [0, 0, 0, 0, 1] demo_link = Ret q \<and>
      blocks (blockchain (right q)) (pad32 [0, 3, 2]) = None \<and> demo_b2 \<in> set (right_orphans q 0))"
proof -
  let ?X = "demo_crates False" and ?p = demo_link
  have "pad32 [0, 3, 2] \<noteq> pad32 [0, 2, 1]" "pad32 [0, 3, 2] \<noteq> pad32 [0, 1, 0]"
    "pad32 [0, 2, 1] \<noteq> pad32 [0, 1, 0]" by simp_all
  then have br: "missing_branch ?X (left ?p) (right ?p) [demo_b2, demo_b1]"
    by (simp add: demo_link_def served_def Blockchain_new_def Let_def demo_pow)
  have acc: "accepts ?X (right ?p) (set [demo_b2, demo_b1]) (hash_block ?X (hd [demo_b2, demo_b1])) (hd [demo_b2, demo_b1])
      (State_new ?X (all_public_keys ! 0))" using demo_accepts [of False] by (simp add: demo_link_def Let_def)
  have fr: "fresh_blocks ?X (right ?p) (set (right_orphans ?p 0) \<union> set [demo_b2, demo_b1])"
    using demo_fresh [of False] by (simp add: demo_link_def Let_def)
  have run: "\<exists>q. link_run ?X (0 # concat (map (\<lambda>j. [j, 0]) [0]) @ [0, v]) ?p = Ret q \<and> left q = left ?p \<and>
    (v = 0 \<longrightarrow> (\<forall>b\<in>set [demo_b2, demo_b1]. \<exists>n s. blocks (blockchain (right q)) (hash_block ?X b) = Some (b, n) \<and>
       block_state (right q) (hash_block ?X b) = Some s \<and>
       accepts ?X (right ?p) (set [demo_b2, demo_b1]) (hash_block ?X b) b s)) \<and>
    (v \<noteq> 0 \<and> right_orphans ?p v = [] \<and> [0 :: nat] \<noteq> [] \<longrightarrow>
       blocks (blockchain (right q)) (hash_block ?X (hd [demo_b2, demo_b1])) = None \<and>
       hd [demo_b2, demo_b1] \<in> set (right_orphans q 0))" for v
    by (rule node_catches_up [OF br _ acc _ _ _ _ _ fr])
      (simp_all add: demo_link_def Let_def orphans_wait_def orphans_pow_def)
  have "right_orphans ?p 1 = []" by (simp add: demo_link_def Let_def)
  with run [of 1] have "\<exists>q. link_run ?X [0, 0, 0, 0, 1] ?p = Ret q \<and>
      blocks (blockchain (right q)) (pad32 [0, 3, 2]) = None \<and> demo_b2 \<in> set (right_orphans q 0)"
    by (auto simp del: link_run.simps)
  moreover from run [of 0] have "\<exists>q n. link_run ?X [0, 0, 0, 0, 0] ?p = Ret q \<and>
      blocks (blockchain (right q)) (pad32 [0, 3, 2]) = Some (demo_b2, n)"
    by (auto simp del: link_run.simps)
  ultimately show ?thesis by blast
qed

definition stripped :: "Block \<Rightarrow> Block" where
  "stripped b = b\<lparr>cont := \<lparr>st = []\<rparr>\<rparr>"

text \<open>
  C20: the header does not commit to the transactions. The Merkle root is never compared
  with the content, and the hash covers the header only: whoever sends a worker an
  acceptable block stripped of its transactions first makes the node store it under the
  genuine hash, with the ledger state of its parent; the genuine block is then ignored.
\<close>

theorem content_not_committed:
  assumes "node_safe nd" and "orphans_wait nd os" and "orphans_pow X os" and "\<not> overflow_checks X"
    and "blocks (blockchain nd) (parent (head b)) = Some (pb, pn)"
    and "block_state nd (parent (head b)) = Some s" and "difficulty (head b) = difficulty (head pb)"
    and "hash_block X b \<le> difficulty (head b)" and "fresh_blocks X nd (insert (stripped b) (set os))"
  shows "\<exists>nd' os' out n. handle_message X nd os (Blocks [stripped b]) = Ret (nd', os', out) \<and>
    blocks (blockchain nd') (hash_block X b) = Some (stripped b, n) \<and>
    block_state nd' (hash_block X b) = Some s \<and>
    handle_message X nd' os' (Blocks [b]) = Ret (nd', os', [])"
proof -
  have same: "hash_block X (stripped b) = hash_block X b" "head (stripped b) = head b"
    "st (cont (stripped b)) = []"
    by (simp_all add: stripped_def hash_block_def)
  obtain nd' os' out where run: "handle_message X nd os (Blocks [stripped b]) = Ret (nd', os', out)"
    by (rule handle_message_release [OF assms(1,4)])
  let ?B = "set [stripped b] \<union> set os"
  have "accepts X nd ?B (parent (head b)) pb s" using assms(5,6) by (rule accepts_known)
  then have "accepts X nd ?B (hash_block X (stripped b)) (stripped b) s"
    using assms(7,8) same by (intro accepts_next [where pb = pb and sp = s]) simp_all
  moreover have "handle_Blocks X nd os [stripped b] = Ret (nd', os', out)" using run by simp
  ultimately obtain n where n: "blocks (blockchain nd') (hash_block X b) = Some (stripped b, n)"
    "block_state nd' (hash_block X b) = Some s"
    using handle_Blocks_closure [of X nd os "[stripped b]" nd' os' out "hash_block X b" "stripped b" s]
      assms(1-3,9) same by auto
  then have "handle_message X nd' os' (Blocks [b]) = Ret (nd', os', [])"
    by (simp add: handle_Blocks_def process_block_def Let_def)
  with run n show ?thesis by blast
qed

theorem content_not_committed_witness:
  "\<exists>nd' os' out n. handle_message (demo_crates False) (init_node (demo_crates False)) []
       (Blocks [demo_block 1 (pad32 [0, 1, 0]) []]) = Ret (nd', os', out) \<and>
     blocks (blockchain nd') (pad32 [0, 2, 1]) = Some (demo_block 1 (pad32 [0, 1, 0]) [], n) \<and>
     handle_message (demo_crates False) nd' os'
       (Blocks [demo_block 1 (pad32 [0, 1, 0]) [demo_tx [demo_ico_input] []]]) = Ret (nd', os', [])"
proof -
  let ?X = "demo_crates False" and ?nd = "init_node (demo_crates False)"
  let ?b = "demo_block 1 (pad32 [0, 1, 0]) [demo_tx [demo_ico_input] []]"
  have s: "stripped ?b = demo_block 1 (pad32 [0, 1, 0]) []" by (simp add: stripped_def demo_block_def)
  have h: "hash_block ?X ?b = pad32 [0, 2, 1]" by simp
  have f: "fresh_blocks ?X ?nd {demo_b1}" by (simp add: fresh_blocks_def Blockchain_new_def Let_def)
  have "\<exists>nd' os' out n. handle_message ?X ?nd [] (Blocks [stripped ?b]) = Ret (nd', os', out) \<and>
      blocks (blockchain nd') (hash_block ?X ?b) = Some (stripped ?b, n) \<and>
      block_state nd' (hash_block ?X ?b) = Some (State_new ?X (all_public_keys ! 0)) \<and>
      handle_message ?X nd' os' (Blocks [?b]) = Ret (nd', os', [])"
    using f
    by (intro content_not_committed [where pb = genesis and pn = 0])
      (simp_all add: orphans_wait_def orphans_pow_def s demo_pow,
        simp_all add: Blockchain_new_def Let_def, simp add: genesis_def)
  then show ?thesis unfolding s h by blast
qed

end
