(* ===== verification/Stranded.thy ===== *)
theory Stranded
  imports Relay
begin

text \<open>
  Every network worker has an orphan buffer of its own (\<open>worker_loop\<close> of
  \<open>src/src/network/worker.rs\<close>), and a block leaves it only when the same worker accepts
  its parent. Here is what becomes of an orphan whose parent another thread inserts.
\<close>

definition stranded :: "Crates \<Rightarrow> Block \<Rightarrow> Node \<times> Block list \<times> H256 list \<Rightarrow> bool" where
  "stranded X b u \<longleftrightarrow>
     (let (nd, os, nb) = u
      in b \<in> set os \<and> parent (head b) \<notin> set nb \<and>
         blocks (blockchain nd) (parent (head b)) \<noteq> None \<and> blocks (blockchain nd) (hash_block X b) = None \<and>
         (\<forall>b'\<in>set os. hash_block X b' \<noteq> parent (head b) \<and> (hash_block X b' = hash_block X b \<longrightarrow> b' = b)))"

lemma stranded_remove:
  assumes "stranded X b (nd, os, nb)" and "i < length os" and "parent (head (os ! i)) \<in> set nb"
  shows "stranded X b (nd, remove_at i os, nb)" and "hash_block X (os ! i) \<noteq> hash_block X b"
    and "hash_block X (os ! i) \<noteq> parent (head b)"
proof -
  have ne: "os ! i \<noteq> b" using assms(1,3) by (auto simp: stranded_def)
  then show "hash_block X (os ! i) \<noteq> hash_block X b" "hash_block X (os ! i) \<noteq> parent (head b)"
    using assms(1,2) nth_mem [of i os] by (auto simp: stranded_def)
  from assms(1) have "b \<in> set os" by (simp add: stranded_def)
  from in_remove_at [OF assms(2) this] ne have "b \<in> set (remove_at i os)" by auto
  with assms(1) set_remove_at [of i os] show "stranded X b (nd, remove_at i os, nb)"
    by (auto simp: stranded_def)
qed

lemma stranded_accept:
  assumes "stranded X b (nd, os, nb)" and "accept_block X nd b' (hash_block X b') = Ret (ok, nd')"
    and "hash_block X b' \<noteq> hash_block X b" and "hash_block X b' \<noteq> parent (head b)"
  shows "stranded X b (nd', os, if ok then nb @ [hash_block X b'] else nb)"
  using assms(1,3,4) accept_block_Ret(2) [OF assms(2), of "parent (head b)"]
    accept_block_Ret(2) [OF assms(2), of "hash_block X b"]
  by (auto simp: stranded_def simp del: not_None_eq)

lemma unorphan_loop_stranded:
  assumes "unorphan_loop X n i nd os nb = Ret r" and "n < length nb" and "stranded X b (nd, os, nb)"
  shows "stranded X b r"
  using assms
proof (induction rule: unorphan_induct)
  case (drop i nd os nb r e)
  then have "parent (head (os ! i)) \<in> set nb" by simp
  from stranded_remove(1) [OF drop.prems(2) drop.hyps(1) this] drop.IH drop.prems(1) show ?case by blast
next
  case (accept i nd os nb r e ok nd1)
  then have "parent (head (os ! i)) \<in> set nb" by simp
  note s = stranded_remove [OF accept.prems(2) accept.hyps(1) this]
  from stranded_accept [OF s(1) accept.hyps(5) s(2,3)] accept.IH accept.prems(1) show ?case by simp
qed simp_all

lemma new_blocks_loop_stranded:
  "new_blocks_loop X n nd os nb = Ret r \<Longrightarrow> stranded X b (nd, os, nb) \<Longrightarrow> stranded X b (snd r)"
proof (induction X n nd os nb rule: new_blocks_loop.induct)
  case (1 X n nd os nb)
  show ?case
  proof (cases "length nb \<le> n")
    case True
    with "1.prems" show ?thesis by (auto simp: new_blocks_loop.simps)
  next
    case False
    with "1.prems"(1) obtain r1 where
      u: "unorphan_loop X n 0 nd os nb = Ret r1" and
      l: "new_blocks_loop X (n + 1) (fst r1) (fst (snd r1)) (snd (snd r1)) = Ret r"
      by (auto simp: new_blocks_loop.simps [of X n nd] res_simps)
    from unorphan_loop_stranded [OF u _ "1.prems"(2)] False have "stranded X b r1" by simp
    with "1.IH" [OF False u l] show ?thesis by simp
  qed
qed

lemma process_block_stranded:
  assumes "process_block X b' s = Ret s'" and "stranded X b (loop_state s)"
    and "hash_block X b' \<noteq> hash_block X b"
  shows "stranded X b (loop_state s')"
  using assms(1)
proof (cases rule: process_block_cases)
  case ignored
  with assms(2) show ?thesis by simp
next
  case orphaned
  with assms(2,3) show ?thesis by (auto simp: stranded_def)
next
  case (wrong_difficulty pb pn n' nd' os' nb')
  from new_blocks_loop_stranded [OF wrong_difficulty(3)] assms(2) wrong_difficulty(4) show ?thesis by simp
next
  case (checked pb pn ok nd1 n' nd' os' nb')
  have "hash_block X b' \<noteq> parent (head b)" using checked(2) assms(2) by (auto simp: stranded_def)
  from new_blocks_loop_stranded [OF checked(6) stranded_accept [OF assms(2) checked(5) assms(3) this]]
  show ?thesis by (simp add: checked(7))
qed

lemma process_blocks_stranded:
  "process_blocks X bs s = Ret s' \<Longrightarrow> stranded X b (loop_state s) \<Longrightarrow>
     hash_block X b \<notin> hash_block X ` set bs \<Longrightarrow> stranded X b (loop_state s')"
proof (induction bs arbitrary: s)
  case (Cons b' bs)
  from Cons.prems(1) obtain s1 where
    s1: "process_block X b' s = Ret s1" "process_blocks X bs s1 = Ret s'" by (auto simp: res_simps)
  have "hash_block X b' \<noteq> hash_block X b" using Cons.prems(3) by force
  from Cons.IH [OF s1(2) process_block_stranded [OF s1(1) Cons.prems(2) this]] Cons.prems(3)
  show ?case by simp
qed simp

section \<open>Properties\<close>

text \<open>
  C25: an orphan can be stranded. Once the parent of a buffered block is in the tree
  (inserted by another worker or by the miner), no \<open>Blocks\<close> message without that block,
  not even one with the parent, makes the worker release it, and the same holds after the
  message: the block stays out of the tree until some peer sends it again.
\<close>

theorem orphan_stranded:
  assumes "handle_message X nd os (Blocks bs) = Ret (nd', os', out)" and "b \<in> set os"
    and "blocks (blockchain nd) (parent (head b)) \<noteq> None"
    and "blocks (blockchain nd) (hash_block X b) = None" and "hash_block X b \<notin> hash_block X ` set bs"
    and "\<forall>b'\<in>set os. hash_block X b' \<noteq> parent (head b) \<and> (hash_block X b' = hash_block X b \<longrightarrow> b' = b)"
  shows "b \<in> set os' \<and> blocks (blockchain nd') (parent (head b)) \<noteq> None \<and>
    blocks (blockchain nd') (hash_block X b) = None \<and>
    (\<forall>b'\<in>set os'. hash_block X b' \<noteq> parent (head b) \<and> (hash_block X b' = hash_block X b \<longrightarrow> b' = b))"
proof -
  from assms(1) obtain s where s: "process_blocks X bs
      \<lparr>bl_node = nd, bl_orphans = os, bl_new = [], bl_n = 0, bl_out = []\<rparr> = Ret s"
    "nd' = bl_node s" "os' = bl_orphans s"
    by (auto simp: handle_Blocks_def res_simps)
  from process_blocks_stranded [OF s(1), of b] assms(2-6) s(2,3) show ?thesis
    by (simp add: stranded_def)
qed

theorem orphan_stranded_witness:
  "\<exists>nd r0 nd' os' out. handle_message (demo_crates False) (init_node (demo_crates False)) []
       (Blocks [demo_b1]) = Ret (nd, r0) \<and>
     handle_message (demo_crates False) nd [demo_b2] (Blocks [demo_b1]) = Ret (nd', os', out) \<and>
     demo_b2 \<in> set os' \<and> blocks (blockchain nd') (pad32 [0, 3, 2]) = None"
proof -
  let ?X = "demo_crates False" and ?nd = "init_node (demo_crates False)"
  obtain nd os0 out0 n where r0: "handle_message ?X ?nd [] (Blocks [demo_b1]) = Ret (nd, os0, out0)"
    "blocks (blockchain nd) (pad32 [0, 2, 1]) = Some (demo_b1, n)" by (rule demo_b1_received)
  have safe: "node_safe nd" using handle_message_safe [OF r0(1)] by simp
  have "fresh_blocks ?X ?nd {demo_b1}" by (simp add: fresh_blocks_def Blockchain_new_def Let_def)
  moreover have False if "accepts ?X ?nd {demo_b1} (pad32 [0, 3, 2]) b s" for b s
    using that by cases (simp_all add: Blockchain_new_def Let_def)
  ultimately have un: "blocks (blockchain nd) (pad32 [0, 3, 2]) = None"
    using handle_Blocks_tree [of ?X ?nd "[]" "[demo_b1]" nd os0 out0 "pad32 [0, 3, 2]"] r0(1)
    by (cases "blocks (blockchain nd) (pad32 [0, 3, 2])")
      (fastforce simp: orphans_wait_def orphans_pow_def)+
  obtain nd' os' out where run: "handle_message ?X nd [demo_b2] (Blocks [demo_b1]) = Ret (nd', os', out)"
    using handle_message_release [OF safe, of ?X "[demo_b2]" "Blocks [demo_b1]"] by (auto simp del: handle_message.simps)
  have "demo_b2 \<in> set os' \<and> blocks (blockchain nd') (parent (head demo_b2)) \<noteq> None \<and>
    blocks (blockchain nd') (hash_block ?X demo_b2) = None \<and>
    (\<forall>b'\<in>set os'. hash_block ?X b' \<noteq> parent (head demo_b2) \<and> (hash_block ?X b' = hash_block ?X demo_b2 \<longrightarrow> b' = demo_b2))"
    by (rule orphan_stranded [OF run]) (use r0(2) un in auto)
  with r0(1) run show ?thesis by auto
qed

end
