(* ===== verification/Startup.thy ===== *)
theory Startup
  imports System Api
begin

text \<open>
  \<open>src/src/main.rs\<close>: the command line, the choice of the key by the last character of
  the P2P address, the order in which the parts are created, the pool of network workers
  (\<open>Worker::start\<close> of \<open>src/src/network/worker.rs\<close>) and the thread that connects to the
  known peers. Parsing and binding of socket addresses are parameters.
\<close>

section \<open>The program\<close>

text \<open>The arguments after \<open>clap\<close> has put in the defaults.\<close>

record Args =
  arg_peer_addr :: string
  arg_api_addr :: string
  arg_p2p_workers :: string

definition public_key_index :: "string \<Rightarrow> nat res" where
  "public_key_index peer_addr =
     bind_res (unwrap (if peer_addr = [] then None else Some (last peer_addr))) (\<lambda>c.
       unwrap (digit_of c))"

text \<open>
  What \<open>main\<close> ends in: a started node with its key index and number of workers, or
  \<open>process::exit(1)\<close>. The surroundings say whether the two servers can be bound.
\<close>

datatype Started = Running Sys nat | ExitFailure

definition main_start ::
  "Crates \<Rightarrow> (string \<Rightarrow> 'a option) \<Rightarrow> ('a \<Rightarrow> bool) \<Rightarrow> ('a \<Rightarrow> bool) \<Rightarrow> Args \<Rightarrow> Started res" where
  "main_start X parse_addr p2p_bind http_bind args =
     bind_res (public_key_index (arg_peer_addr args)) (\<lambda>ix.
     bind_res (slice_index all_public_keys ix) (\<lambda>public_key.
       case parse_addr (arg_peer_addr args) of
         None \<Rightarrow> Ret ExitFailure
       | Some p2p_addr \<Rightarrow>
           (case parse_addr (arg_api_addr args) of
              None \<Rightarrow> Ret ExitFailure
            | Some api_addr \<Rightarrow>
                if \<not> p2p_bind p2p_addr then Panic UnwrapErr
                else bind_res (sys_start X ix) (\<lambda>s.
                  case parse_uint (2 ^ 64) (arg_p2p_workers args) of
                    Inl e \<Rightarrow> Ret ExitFailure
                  | Inr p2p_workers \<Rightarrow>
                      if http_bind api_addr then Ret (Running s p2p_workers) else Panic UnwrapErr))))"

text \<open>
  The loop for one known peer: an address that does not parse is skipped, a connection
  that fails is tried again after a second, for ever. \<open>connect t a\<close> tells whether the
  attempt number \<open>t\<close> succeeds; the result is \<open>None\<close> when the loop does not end.
\<close>

partial_function (option) connect_peer ::
  "(string \<Rightarrow> 'a option) \<Rightarrow> (nat \<Rightarrow> 'a \<Rightarrow> bool) \<Rightarrow> string \<Rightarrow> nat \<Rightarrow> ('a option \<times> nat) option" where
  "connect_peer parse_addr connect peer t =
     (case parse_addr peer of
        None \<Rightarrow> Some (None, t)
      | Some sock \<Rightarrow>
          (if connect t sock then Some (Some sock, t + 1)
           else connect_peer parse_addr connect peer (t + 1)))"

fun connect_known ::
  "(string \<Rightarrow> 'a option) \<Rightarrow> (nat \<Rightarrow> 'a \<Rightarrow> bool) \<Rightarrow> string list \<Rightarrow> nat \<Rightarrow> 'a list option" where
  "connect_known parse_addr connect [] t = Some []"
| "connect_known parse_addr connect (peer # known_peers) t =
     (case connect_peer parse_addr connect peer t of
        None \<Rightarrow> None
      | Some (r, t') \<Rightarrow>
          map_option (\<lambda>as. (case r of None \<Rightarrow> as | Some a \<Rightarrow> a # as))
            (connect_known parse_addr connect known_peers t'))"

text \<open>
  The pool of worker threads: they share the node and the channel of received messages;
  each has its own orphan buffer. A thread whose message cannot be decoded panics, without
  holding a lock.
\<close>

record WorkerPool =
  wp_node :: Node
  wp_orphans :: "nat \<Rightarrow> Block list"
  wp_alive :: "nat set"
  msg_chan :: "u8 list list"

definition Worker_start :: "nat \<Rightarrow> Node \<Rightarrow> u8 list list \<Rightarrow> WorkerPool" where
  "Worker_start num_worker nd msgs =
     \<lparr>wp_node = nd, wp_orphans = (\<lambda>_. []), wp_alive = {0..<num_worker}, msg_chan = msgs\<rparr>"

inductive pool_step :: "Crates \<Rightarrow> WorkerPool \<Rightarrow> WorkerPool \<Rightarrow> bool" for X where
  pool_serve: "k \<in> wp_alive w \<Longrightarrow> msg_chan w = raw # raws \<Longrightarrow>
     worker_step X (wp_node w) (wp_orphans w k) raw = Ret (nd', os', out) \<Longrightarrow>
     pool_step X w (w\<lparr>wp_node := nd', wp_orphans := (wp_orphans w)(k := os'), msg_chan := raws\<rparr>)"
| pool_crash: "k \<in> wp_alive w \<Longrightarrow> msg_chan w = raw # raws \<Longrightarrow> deserialize_msg X raw = None \<Longrightarrow>
     pool_step X w (w\<lparr>wp_alive := wp_alive w - {k}, msg_chan := raws\<rparr>)"

section \<open>The command line\<close>

lemma public_key_index_eq:
  "public_key_index (s @ [c]) = (case digit_of c of None \<Rightarrow> Panic UnwrapNone | Some d \<Rightarrow> Ret d)"
  by (simp add: public_key_index_def split: option.split)

lemma sys_start_total: "i < 3 \<Longrightarrow> \<exists>s. sys_start X i = Ret s \<and> node s = init_node X"
  by (simp add: sys_start_def TxGenerator_new_eq generator_start_def Let_def Blockchain_tip_def)
    (simp add: Blockchain_new_def Let_def)

section \<open>Known peers\<close>

lemma connect_peer_reaches:
  assumes "parse_addr peer = Some a" and "connect t' a" and "t \<le> t'"
  shows "\<exists>t2. connect_peer parse_addr connect peer t = Some (Some a, t2)"
  using assms(3)
proof (induction "t' - t" arbitrary: t)
  case 0
  with assms show ?case by (simp add: connect_peer.simps [of parse_addr])
next
  case (Suc n)
  then have "n = t' - (t + 1)" "t + 1 \<le> t'" by simp_all
  with Suc.hyps(1) assms(1) show ?case
    by (cases "connect t a") (auto simp: connect_peer.simps [of parse_addr connect peer t])
qed

lemma connect_peer_Some:
  assumes "connect_peer parse_addr connect peer t = Some r"
  shows "case parse_addr peer of None \<Rightarrow> r = (None, t) | Some a \<Rightarrow> fst r = Some a \<and> (\<exists>t'. connect t' a)"
  by (rule connect_peer.raw_induct [where P = "\<lambda>parse_addr connect peer t r. case parse_addr peer of
        None \<Rightarrow> r = (None, t) | Some a \<Rightarrow> fst r = Some a \<and> (\<exists>t'. connect t' a)", OF _ assms])
    (fastforce split: option.splits if_splits)

lemma connect_peer_forever:
  assumes "parse_addr peer = Some a" and "\<forall>t. \<not> connect t a"
  shows "connect_peer parse_addr connect peer t = None"
  using connect_peer_Some [of parse_addr connect peer t] assms
  by (cases "connect_peer parse_addr connect peer t") auto

lemma connect_known_all:
  "\<forall>a. Some a \<in> parse_addr ` set peers \<longrightarrow> (\<forall>t. \<exists>t'\<ge>t. connect t' a) \<Longrightarrow>
     connect_known parse_addr connect peers t = Some (List.map_filter parse_addr peers)"
proof (induction peers arbitrary: t)
  case (Cons p peers)
  then have IH: "connect_known parse_addr connect peers t' = Some (List.map_filter parse_addr peers)" for t'
    by (simp add: image_iff)
  show ?case
  proof (cases "parse_addr p")
    case None
    with IH show ?thesis by (simp add: connect_peer.simps [of parse_addr] List.map_filter_simps)
  next
    case (Some a)
    then have "\<exists>t'\<ge>t. connect t' a" using Cons.prems by (force simp: image_iff)
    then obtain t2 where "connect_peer parse_addr connect p t = Some (Some a, t2)"
      using connect_peer_reaches [of parse_addr p a connect] Some by blast
    with IH Some show ?thesis by (simp add: List.map_filter_simps)
  qed
qed (simp add: List.map_filter_simps)

lemma connect_known_blocked:
  assumes "parse_addr p = Some a" and "\<forall>t. \<not> connect t a"
  shows "connect_known parse_addr connect (ps @ p # qs) t = None"
proof (induction ps arbitrary: t)
  case Nil
  with connect_peer_forever [of parse_addr p a connect] assms show ?case by simp
next
  case (Cons p' ps)
  then show ?case by (simp split: option.split)
qed

section \<open>The worker pool\<close>

abbreviation pool_steps :: "Crates \<Rightarrow> WorkerPool \<Rightarrow> WorkerPool \<Rightarrow> bool" where
  "pool_steps X \<equiv> (pool_step X)\<^sup>*\<^sup>*"

text \<open>Every undecodable message that is taken from the channel costs one thread.\<close>

lemma pool_steps_malformed:
  assumes "\<forall>raw\<in>set msgs. deserialize_msg X raw = None"
  shows "pool_steps X (Worker_start n nd msgs) w \<Longrightarrow>
    wp_node w = nd \<and> finite (wp_alive w) \<and> set (msg_chan w) \<subseteq> set msgs \<and>
    card (wp_alive w) + length msgs = n + length (msg_chan w)"
proof (induction rule: rtranclp_induct)
  case base
  show ?case by (simp add: Worker_start_def)
next
  case (step v w)
  from step.hyps(2) show ?case
  proof cases
    case (pool_serve k raw raws nd' os' out)
    with step.IH assms have "deserialize_msg X raw = None" by simp
    with pool_serve show ?thesis by (simp add: worker_step_def)
  next
    case (pool_crash k raw raws)
    have "card (wp_alive v - {k}) + 1 = card (wp_alive v)"
      using step.IH pool_crash(2) card_Suc_Diff1 [of "wp_alive v" k] by simp
    moreover have "wp_alive w = wp_alive v - {k}" using pool_crash(1) by simp
    ultimately have "card (wp_alive w) + 1 = card (wp_alive v)" by (simp only:)
    with step.IH pool_crash(1,3) show ?thesis by auto
  qed
qed

section \<open>Properties\<close>

text \<open>
  C34: malformed messages stop a node. Every message that cannot be decoded kills the
  worker thread that takes it. When the channel holds at least as many such messages as
  there are workers, any run ends with no worker left: the node is unchanged, and nobody
  takes a further message.
\<close>

theorem malformed_messages_stop_node:
  assumes "pool_steps X (Worker_start n nd msgs) w" and "\<forall>raw\<in>set msgs. deserialize_msg X raw = None"
    and "n \<le> length msgs" and "\<nexists>w'. pool_step X w w'"
  shows "wp_alive w = {} \<and> wp_node w = nd \<and> length (msg_chan w) = length msgs - n"
proof -
  note inv = pool_steps_malformed [OF assms(2,1)]
  have "wp_alive w = {}"
  proof (rule ccontr)
    assume "wp_alive w \<noteq> {}"
    then obtain k where k: "k \<in> wp_alive w" by blast
    then have "0 < card (wp_alive w)" using inv by (auto simp: card_gt_0_iff)
    with inv assms(3) obtain raw raws where m: "msg_chan w = raw # raws" by (cases "msg_chan w") auto
    then have "deserialize_msg X raw = None" using inv assms(2) by auto
    from pool_crash [of k w, OF k m this] assms(4) show False by blast
  qed
  with inv assms(3) show ?thesis by simp
qed

theorem malformed_messages_stop_node_witness:
  "\<exists>w. pool_steps (demo_crates True) (Worker_start 1 (init_node (demo_crates True)) [[1], [2]]) w \<and>
     wp_alive w = {} \<and> length (msg_chan w) = 1"
proof -
  let ?X = "demo_crates True"
  let ?w = "Worker_start 1 (init_node ?X) [[1], [2]]"
  let ?v = "?w\<lparr>wp_alive := wp_alive ?w - {0}, msg_chan := [[2]]\<rparr>"
  have "pool_step ?X ?w ?v"
    by (rule pool_crash [where raw = "[1]"]) (simp_all add: Worker_start_def demo_crates_def)
  then have steps: "pool_steps ?X ?w ?v" by simp
  have "\<nexists>w'. pool_step ?X ?v w'" by (auto elim!: pool_step.cases simp: Worker_start_def)
  with malformed_messages_stop_node [OF steps] have "wp_alive ?v = {} \<and> length (msg_chan ?v) = 1"
    by (simp add: demo_crates_def)
  with steps show ?thesis by blast
qed

text \<open>
  C35: the node connects to its known peers. If every address that parses is reachable again
  and again, the thread ends and has connected to each of them in the given order; strings
  that do not parse are skipped.
\<close>

theorem known_peers_connected:
  assumes "\<forall>a. Some a \<in> parse_addr ` set peers \<longrightarrow> (\<forall>t. \<exists>t'\<ge>t. connect t' a)"
  shows "connect_known parse_addr connect peers 0 = Some (List.map_filter parse_addr peers)"
  using assms by (rule connect_known_all)

theorem known_peers_connected_witness:
  "connect_known (\<lambda>s. if s = [] then None else Some (length s)) (\<lambda>t a. even t)
     [''ab'', [], ''c''] 0 = Some [2, 1]"
proof -
  have "\<exists>t'\<ge>t. even t'" for t :: nat by (rule exI [of _ "2 * t"]) simp
  then have "connect_known (\<lambda>s. if s = [] then None else Some (length s)) (\<lambda>t a. even t)
     [''ab'', [], ''c''] 0 = Some (List.map_filter (\<lambda>s. if s = [] then None else Some (length s)) [''ab'', [], ''c''])"
    by (intro known_peers_connected) blast
  then show ?thesis by (simp add: List.map_filter_simps)
qed

text \<open>
  An address that never answers keeps all later ones from being tried: the thread runs for
  ever.
\<close>

theorem unreachable_peer_blocks:
  assumes "parse_addr p = Some a" and "\<forall>t. \<not> connect t a"
  shows "connect_known parse_addr connect (peers @ p # later) 0 = None"
  using assms by (rule connect_known_blocked)

text \<open>
  The port must end in 0, 1 or 2. The last character of the P2P address chooses the key; a
  digit above 2 is an index out of bounds, anything else fails to be a digit.
\<close>

theorem main_start_key:
  assumes "arg_peer_addr args = addr_text @ [c]" and "parse_addr (arg_peer_addr args) = Some a"
    and "parse_addr (arg_api_addr args) = Some a'" and "p2p_bind a" and "http_bind a'"
    and "parse_uint (2 ^ 64) (arg_p2p_workers args) = Inr n"
  shows "(case digit_of c of
      None \<Rightarrow> main_start X parse_addr p2p_bind http_bind args = Panic UnwrapNone
    | Some d \<Rightarrow>
        if d < 3 then (\<exists>s. main_start X parse_addr p2p_bind http_bind args = Ret (Running s n) \<and>
                         node s = init_node X)
        else main_start X parse_addr p2p_bind http_bind args = Panic IndexOutOfBounds)"
proof (cases "digit_of c")
  case (Some d)
  have len: "length all_public_keys = 3" by (simp add: all_public_keys_def)
  show ?thesis
  proof (cases "d < 3")
    case True
    from sys_start_total [OF this] obtain s where "sys_start X d = Ret s" "node s = init_node X" by blast
    with Some True assms len show ?thesis by (simp add: main_start_def public_key_index_eq)
  next
    case False
    with Some assms len show ?thesis by (simp add: main_start_def public_key_index_eq)
  qed
qed (use assms in \<open>simp add: main_start_def public_key_index_eq\<close>)

end
