(* ===== verification/Spending.thy ===== *)
theory Spending
  imports Interleaving
begin

text \<open>
  No output is spent twice along a chain: what the validation of \<open>Ledger\<close> guarantees about a
  sequence of blocks, and so about the longest chain of a node.
\<close>

section \<open>Spent outputs\<close>

abbreviation spends :: "SignedTransaction \<Rightarrow> outpoint set" where
  "spends stx \<equiv> outpoint_of ` set (input (transaction stx))"

text \<open>
  What is asked of the transactions: no two of them have the same hash, none has the hash
  of an output of the state, and each spends something.
\<close>

definition chain_txs_sound :: "Crates \<Rightarrow> State \<Rightarrow> SignedTransaction list \<Rightarrow> bool" where
  "chain_txs_sound X s txs \<longleftrightarrow> inj_on (hash_stx X) (set txs) \<and>
     (\<forall>stx\<in>set txs. input (transaction stx) \<noteq> [] \<and> (\<forall>k. states s (hash_stx X stx, k) = None))"

lemma gone_stays_gone:
  "check_txs X s txs = Ret (Some s') \<Longrightarrow> states s k = None \<Longrightarrow> \<forall>stx\<in>set txs. hash_stx X stx \<noteq> fst k \<Longrightarrow>
     states s' k = None \<and> (\<forall>stx\<in>set txs. k \<notin> spends stx)"
proof (induction txs arbitrary: s)
  case (Cons stx txs)
  from Cons.prems(1) obtain s1 where
    s1: "check_tx X s stx = Ret (Some s1)" "check_txs X s1 txs = Ret (Some s')"
    by (auto simp: res_simps split: option.splits)
  note acc = check_tx_accepted [OF s1(1)]
  have "k \<notin> spends stx" using acc(2) Cons.prems(2) by (auto simp: owns_def)
  moreover have "states s1 k = None"
    using Cons.prems(2,3) calculation acc(3) by (simp add: State_update_keeps)
  ultimately show ?case using Cons.IH [OF s1(2)] Cons.prems(3) by simp
qed simp

definition fresh_hashes :: "Crates \<Rightarrow> State \<Rightarrow> SignedTransaction list \<Rightarrow> bool" where
  "fresh_hashes X s txs \<longleftrightarrow> distinct (map (hash_stx X) txs) \<and>
     (\<forall>stx\<in>set txs. \<forall>k. states s (hash_stx X stx, k) = None)"

lemma spent_once:
  "check_txs X s txs = Ret (Some s') \<Longrightarrow> fresh_hashes X s txs \<Longrightarrow>
     sorted_wrt (\<lambda>t u. spends t \<inter> spends u = {}) txs \<and> (\<forall>t\<in>set txs. \<forall>k\<in>spends t. states s' k = None)"
proof (induction txs arbitrary: s)
  case (Cons stx txs)
  from Cons.prems(1) obtain s1 where
    s1: "check_tx X s stx = Ret (Some s1)" "check_txs X s1 txs = Ret (Some s')"
    by (auto simp: res_simps split: option.splits)
  note acc = check_tx_accepted [OF s1(1)]
  have fresh: "fresh_hashes X s1 txs"
    using Cons.prems(2) by (auto simp: acc(3) fresh_hashes_def State_update_eq create_other spend_def image_iff)
  have "states s' k = None \<and> (\<forall>u\<in>set txs. k \<notin> spends u)" if k: "k \<in> spends stx" for k
  proof (rule gone_stays_gone [OF s1(2)])
    obtain v where v: "states s k = Some v" using acc(2) k by (auto simp: owns_def)
    have other: "hash_stx X u \<noteq> fst k" if "u \<in> set (stx # txs)" for u
      using Cons.prems(2) that v unfolding fresh_hashes_def by (metis option.distinct(1) prod.collapse)
    then show "\<forall>u\<in>set txs. hash_stx X u \<noteq> fst k" by simp
    show "states s1 k = None" using k other [of stx] by (simp add: acc(3) State_update_eq create_other spend_def)
  qed
  with Cons.IH [OF s1(2) fresh] show ?case by auto
qed simp

lemma check_txs_prefix:
  "check_txs X s (txs @ us) = Ret (Some s') \<Longrightarrow> \<exists>s1. check_txs X s txs = Ret (Some s1)"
proof (induction txs arbitrary: s)
  case (Cons stx txs)
  from Cons.prems obtain s1 where
    s1: "check_tx X s stx = Ret (Some s1)" "check_txs X s1 (txs @ us) = Ret (Some s')"
    by (auto simp: res_simps split: option.splits)
  with Cons.IH [OF s1(2)] show ?case by simp
qed simp

lemma sound_fresh:
  "check_txs X s txs = Ret (Some s') \<Longrightarrow> chain_txs_sound X s txs \<Longrightarrow> fresh_hashes X s txs"
proof (induction txs arbitrary: s' rule: rev_induct)
  case (snoc u txs)
  from snoc.prems(1) obtain s1 where s1: "check_txs X s txs = Ret (Some s1)"
    using check_txs_prefix by blast
  then have u: "check_tx X s1 u = Ret (Some s')" using snoc.prems(1) by (simp add: check_txs_snoc)
  have "chain_txs_sound X s txs" using snoc.prems(2) by (auto simp: chain_txs_sound_def)
  from snoc.IH [OF s1 this] have fresh: "fresh_hashes X s txs" .
  have "u \<notin> set txs"
  proof
    assume m: "u \<in> set txs"
    obtain i where i: "i \<in> set (input (transaction u))"
      using snoc.prems(2) by (fastforce simp: chain_txs_sound_def neq_Nil_conv)
    then have "states s1 (outpoint_of i) = None" using spent_once [OF s1 fresh] m by blast
    with check_tx_accepted(2) [OF u] i show False by (auto simp: owns_def)
  qed
  with fresh snoc.prems(2) show ?case
    by (auto simp: fresh_hashes_def chain_txs_sound_def inj_on_def)
qed (simp add: fresh_hashes_def)

section \<open>Properties\<close>

text \<open>
  C5: No double spending. In every interleaving of a node's threads the ledger recorded for
  the tip results from validating the transactions of a list of blocks one after the other,
  whose hashes are those of the longest chain after the genesis block; when no two blocks
  that occur share a header, they are the blocks of the chain. If no two different ones of
  these transactions have the same hash, none has the zero hash, and each has an input, then
  no transaction occurs twice among them, no two of them spend the same output, and nothing
  that was spent is in the ledger. The blocks that occur have fewer than \<open>2 ^ 32\<close> headers,
  with different hashes other than zero.
\<close>

theorem no_double_spend:
  assumes "lock_reach X U c" and "hashes_sound X U" and "nd = sh_node (shared c)"
    and "all_blocks_in_longest_chain (blockchain nd) = Ret hs"
  shows "\<exists>bs txs s. block_state nd (tip (blockchain nd)) = Some s \<and> set bs \<subseteq> U \<and>
    map (hash_block X) bs = tl hs \<and> txs = blocks_txs bs \<and>
    check_txs X (State_new X (all_public_keys ! 0)) txs = Ret (Some s) \<and>
    (one_content U \<longrightarrow> txs = path_txs (blockchain nd) hs) \<and>
    (inj_on (hash_stx X) (set txs) \<and> (\<forall>stx\<in>set txs. input (transaction stx) \<noteq> [] \<and> hash_stx X stx \<noteq> h256_fill 0) \<longrightarrow>
       distinct txs \<and> (\<forall>i j. i < j \<and> j < length txs \<longrightarrow> spends (txs ! i) \<inter> spends (txs ! j) = {}) \<and>
       (\<forall>stx\<in>set txs. \<forall>k\<in>spends stx. states s k = None))"
proof -
  let ?s0 = "State_new X (all_public_keys ! 0)"
  have "chain_to X (blockchain nd) hs (tip (blockchain nd))"
    using assms(3,4) all_blocks_chain lock_reach_safe(1) [OF assms(2,1)] by blast
  then obtain bs s where s: "block_state nd (tip (blockchain nd)) = Some s" "set bs \<subseteq> U"
    "map (hash_block X) bs = tl hs" "check_txs X ?s0 (blocks_txs bs) = Ret (Some s)"
    "one_content U \<longrightarrow> blocks_txs bs = path_txs (blockchain nd) hs"
    by (rule chain_replay [OF assms(2,1,3)])
  let ?txs = "blocks_txs bs"
  have once: "distinct ?txs \<and> (\<forall>i j. i < j \<and> j < length ?txs \<longrightarrow> spends (?txs ! i) \<inter> spends (?txs ! j) = {}) \<and>
      (\<forall>stx\<in>set ?txs. \<forall>k\<in>spends stx. states s k = None)"
    if c: "inj_on (hash_stx X) (set ?txs) \<and> (\<forall>stx\<in>set ?txs. input (transaction stx) \<noteq> [] \<and> hash_stx X stx \<noteq> h256_fill 0)"
  proof -
    have "chain_txs_sound X ?s0 ?txs" using c by (simp add: chain_txs_sound_def State_new_def)
    from sound_fresh [OF s(4) this] have fresh: "fresh_hashes X ?s0 ?txs" .
    then have "distinct ?txs" by (simp add: fresh_hashes_def distinct_map)
    with spent_once [OF s(4) fresh] show ?thesis by (auto simp: sorted_wrt_iff_nth_less)
  qed
  show ?thesis by (rule exI [of _ bs], rule exI [of _ ?txs], rule exI [of _ s]) (use s once in blast)
qed

text \<open>
  C7: The money supply is bounded. In every interleaving the ledger recorded for the tip
  results from validating the transactions of blocks with the hashes of the longest chain,
  as above. If no two different ones of these transactions have the same hash, none has the
  zero hash, each has an input, none names an input twice or has more than 256 outputs, and
  the build checks overflows or no sum of outputs reaches \<open>2 ^ 32\<close>, then the unspent outputs
  in the ledger of the tip are worth at most the 100 units of the initial state. (Block hashes
  as above.)
\<close>

theorem supply_bounded:
  assumes "lock_reach X U c" and "hashes_sound X U" and "nd = sh_node (shared c)"
    and "all_blocks_in_longest_chain (blockchain nd) = Ret hs"
  shows "\<exists>bs txs s. block_state nd (tip (blockchain nd)) = Some s \<and> set bs \<subseteq> U \<and>
    map (hash_block X) bs = tl hs \<and> txs = blocks_txs bs \<and>
    (one_content U \<longrightarrow> txs = path_txs (blockchain nd) hs) \<and>
    (inj_on (hash_stx X) (set txs) \<and>
     (\<forall>stx\<in>set txs. input (transaction stx) \<noteq> [] \<and> hash_stx X stx \<noteq> h256_fill 0 \<and>
        distinct (map outpoint_of (input (transaction stx))) \<and> length (output (transaction stx)) \<le> 256) \<and>
     (overflow_checks X \<or> (\<forall>stx\<in>set txs. outputs_value (output (transaction stx)) < 2 ^ 32)) \<longrightarrow>
       utxo_total s \<le> 100)"
proof -
  let ?s0 = "State_new X (all_public_keys ! 0)"
  have "chain_to X (blockchain nd) hs (tip (blockchain nd))"
    using assms(3,4) all_blocks_chain lock_reach_safe(1) [OF assms(2,1)] by blast
  then obtain bs s where s: "block_state nd (tip (blockchain nd)) = Some s" "set bs \<subseteq> U"
    "map (hash_block X) bs = tl hs" "check_txs X ?s0 (blocks_txs bs) = Ret (Some s)"
    "one_content U \<longrightarrow> blocks_txs bs = path_txs (blockchain nd) hs"
    by (rule chain_replay [OF assms(2,1,3)])
  let ?txs = "blocks_txs bs"
  have bounded: "utxo_total s \<le> 100"
    if c: "inj_on (hash_stx X) (set ?txs)"
      "\<forall>stx\<in>set ?txs. input (transaction stx) \<noteq> [] \<and> hash_stx X stx \<noteq> h256_fill 0 \<and>
        distinct (map outpoint_of (input (transaction stx))) \<and> length (output (transaction stx)) \<le> 256"
      "overflow_checks X \<or> (\<forall>stx\<in>set ?txs. outputs_value (output (transaction stx)) < 2 ^ 32)"
  proof -
    have "chain_txs_sound X ?s0 ?txs" using c(1,2) by (simp add: chain_txs_sound_def State_new_def)
    from sound_fresh [OF s(4) this] c(2) have "proper_block X ?s0 ?txs"
      by (simp add: fresh_hashes_def proper_block_def)
    moreover have "utxo_total ?s0 = 100" by (simp add: State_new_def utxo_total_def map_sum_def ico_amount_def Let_def)
    ultimately show ?thesis using check_txs_conserves [OF _ s(4)] c(3) by (simp add: State_new_def Let_def)
  qed
  show ?thesis by (rule exI [of _ bs], rule exI [of _ ?txs], rule exI [of _ s]) (use s bounded in blast)
qed

text \<open>The first key pays the initial output to an address.\<close>

definition demo_payment :: SignedTransaction where
  "demo_payment =
     (let t = \<lparr>input = [demo_ico_input], output = [\<lparr>recipient_addr = demo_addr, amount = 7\<rparr>]\<rparr>
      in \<lparr>transaction = t, signature_vector = sign (demo_crates False) t (all_public_keys ! 0),
          public_key_vector = public_key (all_public_keys ! 0)\<rparr>)"

lemma demo_payment_valid:
  "\<exists>s. check_txs (demo_crates False) (State_new (demo_crates False) (all_public_keys ! 0)) [demo_payment] = Ret (Some s)"
  by (simp add: check_tx_cases demo_payment_def signature_ok_def verify_tx_def sign_def demo_verify_def demo_sign_def
      State_new_def ico_amount_def demo_ico_input_def add_checked_def Let_def)

lemma demo_paid_chain:
  obtains c hs where "lock_reach (demo_crates False) {genesis, demo_block 1 (pad32 [0, 1, 0]) [demo_payment]} c"
    "all_blocks_in_longest_chain (blockchain (sh_node (shared c))) = Ret hs"
    "path_txs (blockchain (sh_node (shared c))) hs = [demo_payment]"
proof -
  let ?X = "demo_crates False" and ?b = "demo_block 1 (pad32 [0, 1, 0]) [demo_payment]"
  obtain s0 where s0: "check_txs ?X (State_new ?X (all_public_keys ! 0)) [demo_payment] = Ret (Some s0)"
    using demo_payment_valid by blast
  obtain c n where c: "lock_reach ?X {genesis, ?b} c"
    "blocks (blockchain (sh_node (shared c))) (pad32 [0, 2, 1]) = Some (?b, n)" by (rule demo_lock_received [OF s0])
  let ?c = "blockchain (sh_node (shared c))"
  have ok: "node_ok ?X {genesis, ?b} (State_new ?X (all_public_keys ! 0)) (sh_node (shared c))"
    by (rule lock_reach_node [OF demo_universe c(1)])
  then have inv: "chain_inv ?X ?c" and bin: "blocks_in {genesis, ?b} ?c" by (simp_all add: node_ok_def)
  then have tree: "tree_inv ?X (blocks ?c)" by (simp add: chain_inv_def)
  obtain tb tn where t: "blocks ?c (tip ?c) = Some (tb, tn)" "n \<le> tn"
    using inv c(2) unfolding chain_inv_def tip_inv_def by blast
  have "n \<noteq> 0" using tree_inv_root [OF tree] c(2) by fastforce
  then have "tn \<noteq> 0" using t(2) by auto
  then have "tip ?c \<noteq> genesis_hash ?X" using tree_inv_genesis [OF tree] t(1) by auto
  then have tip: "tip ?c = pad32 [0, 2, 1]"
  proof -
    have "tb = genesis \<or> tb = ?b" using bin t(1) unfolding blocks_in_def by blast
    then show ?thesis using \<open>tip ?c \<noteq> genesis_hash ?X\<close> tree_inv_hash [OF tree t(1)] by auto
  qed
  obtain hs where hs: "all_blocks_in_longest_chain ?c = Ret hs" "chain_to ?X ?c hs (tip ?c)"
    by (rule longest_chain_tip [OF inv])
  have "chain_to ?X ?c [genesis_hash ?X, pad32 [0, 2, 1]] (pad32 [0, 2, 1])"
    using chain_step [of ?X ?c "[genesis_hash ?X]" ?b "pad32 [0, 2, 1]" n] chain_root [of ?X ?c] c(2) by simp
  with hs(2) tip have "hs = [genesis_hash ?X, pad32 [0, 2, 1]]" using chain_to_unique by metis
  then have txs: "path_txs ?c hs = [demo_payment]" using c(2) by (simp add: path_txs_def)
  with c(1) hs(1) show thesis by (rule that)
qed

lemma demo_payment_facts:
  "hash_stx (demo_crates False) demo_payment \<noteq> h256_fill 0" "spends demo_payment = {(h256_fill 0, 0)}"
  "input (transaction demo_payment) = [demo_ico_input]"
  "output (transaction demo_payment) = [\<lparr>recipient_addr = demo_addr, amount = 7\<rparr>]"
proof -
  have "h256_bytes (hash_stx (demo_crates False) demo_payment) ! 0 = 7"
    unfolding hash_stx_def demo_crates_simps demo_ser_stx_def pad32_nth0 by simp
  then show "hash_stx (demo_crates False) demo_payment \<noteq> h256_fill 0"
    by (auto dest!: arg_cong [where f = "\<lambda>h. h256_bytes h ! 0"])
qed (simp_all add: demo_payment_def demo_ico_input_def outpoint_of_def Let_def)

lemma demo_paid_sound:
  "hashes_sound (demo_crates False) {genesis, demo_block 1 (pad32 [0, 1, 0]) [demo_payment]}"
  "one_content {genesis, demo_block 1 (pad32 [0, 1, 0]) [demo_payment]}"
  using demo_universe [of False "[demo_payment]"] by (simp_all add: universe_sound_def)

theorem no_double_spend_witness:
  "\<exists>c hs s. lock_reach (demo_crates False) {genesis, demo_block 1 (pad32 [0, 1, 0]) [demo_payment]} c \<and>
     path_txs (blockchain (sh_node (shared c))) hs = [demo_payment] \<and>
     block_state (sh_node (shared c)) (tip (blockchain (sh_node (shared c)))) = Some s \<and>
     states s (h256_fill 0, 0) = None"
proof -
  obtain c hs where c: "lock_reach (demo_crates False) {genesis, demo_block 1 (pad32 [0, 1, 0]) [demo_payment]} c"
    "all_blocks_in_longest_chain (blockchain (sh_node (shared c))) = Ret hs"
    "path_txs (blockchain (sh_node (shared c))) hs = [demo_payment]" by (rule demo_paid_chain)
  from no_double_spend [OF c(1) demo_paid_sound(1) refl c(2)] c demo_payment_facts demo_paid_sound(2) show ?thesis
    by auto
qed

theorem supply_bounded_witness:
  "\<exists>c s. lock_reach (demo_crates False) {genesis, demo_block 1 (pad32 [0, 1, 0]) [demo_payment]} c \<and>
     block_state (sh_node (shared c)) (tip (blockchain (sh_node (shared c)))) = Some s \<and> utxo_total s \<le> 100"
proof -
  obtain c hs where c: "lock_reach (demo_crates False) {genesis, demo_block 1 (pad32 [0, 1, 0]) [demo_payment]} c"
    "all_blocks_in_longest_chain (blockchain (sh_node (shared c))) = Ret hs"
    "path_txs (blockchain (sh_node (shared c))) hs = [demo_payment]" by (rule demo_paid_chain)
  from supply_bounded [OF c(1) demo_paid_sound(1) refl c(2)] c demo_payment_facts demo_paid_sound(2) show ?thesis
    by (auto simp: outputs_value_def)
qed

end
