(* ===== verification/Variants.thy ===== *)
theory Variants
  imports Spending
begin

text \<open>
  Two blocks of one header. The hash of a block covers its header only, and the header does
  not commit to the content, so that two blocks can have the same hash. A thread records
  the ledger state of a block in one lock section and inserts the block in another
  (\<open>check_tx_state\<close> and \<open>insert\<close> in \<open>src/src/network/worker.rs\<close>), and both are kept by hash.
  Here two workers cross.
\<close>

section \<open>A worker up to the record of the state\<close>

definition acceptable :: "Crates \<Rightarrow> Node \<Rightarrow> Block \<Rightarrow> State \<Rightarrow> bool" where
  "acceptable X nd b s \<longleftrightarrow> hash_block X b \<le> difficulty (head b) \<and> blocks (blockchain nd) (hash_block X b) = None \<and>
     (\<exists>pb n sp. blocks (blockchain nd) (parent (head b)) = Some (pb, n) \<and> difficulty (head b) = difficulty (head pb) \<and>
        block_state nd (parent (head b)) = Some sp \<and> check_txs X sp (st (cont b)) = Ret (Some s))"

lemma block_checked:
  assumes "sh_poisoned sh = {}" and "acceptable X (sh_node sh) b s"
  shows "((\<lambda>(sh, t). lock_step X sh t) ^^ 5) (sh, deliver_blocks [b] l) =
    (sh, WriteState Received b s, l\<lparr>todo := [], new_blocks := [], pos_n := 0, out_msgs := []\<rparr>)"
  using assms
  by (cases sh) (auto simp: eval_nat_numeral acceptable_def deliver_blocks_def lock_step_def lock_of_def stopped_def)

lemma state_written:
  "sh_poisoned sh = {} \<Longrightarrow> lock_step X sh (WriteState origin b s, l) =
     (sh\<lparr>sh_node := (sh_node sh)\<lparr>block_state := (block_state (sh_node sh))(hash_block X b \<mapsto> s)\<rparr>\<rparr>, InsertBlock origin b, l)"
  by (cases sh) (simp add: lock_step_def lock_of_def stopped_def)

lemma block_inserted:
  "sh_poisoned sh = {} \<Longrightarrow> Blockchain_insert X (blockchain (sh_node sh)) b = Ret c \<Longrightarrow>
     fst (lock_step X sh (InsertBlock origin b, l)) = sh\<lparr>sh_node := (sh_node sh)\<lparr>blockchain := c\<rparr>\<rparr>"
  by (cases sh) (simp add: lock_step_def lock_of_def stopped_def after_check_def split: Origin.split)

text \<open>The same in the interleaved system.\<close>

lemma worker_section:
  assumes "lock_reach X U c" and "threads c k = Worker p l" and "lock_step X (shared c) (p, l) = (sh', p', l')"
  obtains c' where "lock_reach X U c'" "shared c' = sh'" "threads c' = (threads c)(k := Worker p' l')"
  using lock_reach_run [of 1 X c p l sh' p' l' U k] assms by auto

lemma worker_checks:
  assumes "lock_reach X U c" and "threads c k = Worker Idle l" and "b \<in> U" and "sh_poisoned (shared c) = {}"
    and "acceptable X (sh_node (shared c)) b s"
  obtains c' l' where "lock_reach X U c'" "shared c' = shared c"
    "threads c' = (threads c)(k := Worker (WriteState Received b s) l')"
proof -
  obtain p l1 where d: "deliver_blocks [b] l = (p, l1)" by (cases "deliver_blocks [b] l")
  let ?c = "c\<lparr>threads := (threads c)(k := Worker p l1)\<rparr>"
  have "lock_sys_step X U c ?c" by (rule message_arrives [OF assms(2) _ d]) (use assms(3) in simp)
  with assms(1) have r: "lock_reach X U ?c" by (rule lock_next)
  note run = block_checked [OF assms(4,5), of l, unfolded d]
  obtain c' where "lock_reach X U c'" "shared c' = shared c"
    "threads c' = (threads ?c)(k := Worker (WriteState Received b s) (l\<lparr>todo := [], new_blocks := [], pos_n := 0, out_msgs := []\<rparr>))"
    using lock_reach_run [OF _ r, of 5 p l1 _ _ _ k] run by auto
  then show thesis by (intro that) simp_all
qed

lemma worker_inserts:
  assumes "lock_reach X U c" and "threads c k = Worker (InsertBlock origin b) l" and "sh_poisoned (shared c) = {}"
    and "Blockchain_insert X (blockchain (sh_node (shared c))) b = Ret d"
  obtains c' th where "lock_reach X U c'" "shared c' = (shared c)\<lparr>sh_node := (sh_node (shared c))\<lparr>blockchain := d\<rparr>\<rparr>"
    "threads c' = (threads c)(k := th)"
proof -
  obtain sh p l' where s: "lock_step X (shared c) (InsertBlock origin b, l) = (sh, p, l')" by (metis surj_pair)
  obtain c' where "lock_reach X U c'" "shared c' = sh" "threads c' = (threads c)(k := Worker p l')"
    by (rule worker_section [OF assms(1,2) s])
  with block_inserted [OF assms(3,4), of origin l] s show thesis by (intro that) simp_all
qed

lemma insert_release:
  assumes "\<not> overflow_checks X" and "blocks c (parent (head b)) \<noteq> None" and "blocks c (tip c) \<noteq> None"
  obtains c' n where "Blockchain_insert X c b = Ret c'" "blocks c' = (blocks c)(hash_block X b \<mapsto> (b, n))"
    "blocks c' (tip c') \<noteq> None"
proof -
  obtain e t where e: "blocks c (parent (head b)) = Some e" "blocks c (tip c) = Some t" using assms(2,3) by auto
  show thesis
  proof (cases "Blockchain_insert X c b")
    case (Ret c')
    with e obtain n where "c' = (if snd t < n then c\<lparr>blocks := (blocks c)(hash_block X b \<mapsto> (b, n)), tip := hash_block X b\<rparr>
        else c\<lparr>blocks := (blocks c)(hash_block X b \<mapsto> (b, n))\<rparr>)"
      by (auto simp: Blockchain_insert_def Let_def res_simps)
    with e Ret show thesis by (intro that [of c' n]) auto
  qed (use e assms(1) in \<open>auto simp: Blockchain_insert_def Let_def add_checked_no_overflow\<close>)
qed

section \<open>Properties\<close>

text \<open>
  C24: the state recorded for a block need not be its own. In a release build, let a worker
  take a block, and let another worker take another block with the same header, each of them
  acceptable, while neither is in the tree and no lock is poisoned. Then there is a way to
  schedule their lock sections after which the first block is the one in the tree, and the
  ledger state recorded under its hash is the one the transactions of the other lead to.
  This is the state that every block built on the first one is validated against.
\<close>

theorem variants_cross:
  assumes "lock_reach X U c" and "sh_poisoned (shared c) = {}" and "\<not> overflow_checks X"
    and "threads c i = Worker Idle li" and "threads c j = Worker Idle lj" and "i \<noteq> j"
    and "{b, b'} \<subseteq> U" and "head b' = head b"
    and "acceptable X (sh_node (shared c)) b s" and "acceptable X (sh_node (shared c)) b' s'"
    and "blocks (blockchain (sh_node (shared c))) (tip (blockchain (sh_node (shared c)))) \<noteq> None"
  shows "\<exists>c' n. lock_reach X U c' \<and>
    blocks (blockchain (sh_node (shared c'))) (hash_block X b) = Some (b, n) \<and>
    block_state (sh_node (shared c')) (hash_block X b) = Some s'"
proof -
  let ?nd = "sh_node (shared c)" and ?h = "hash_block X b"
  have same: "hash_block X b' = ?h" using assms(8) by (simp add: hash_block_def)
  obtain c1 l1 where 1: "lock_reach X U c1" "shared c1 = shared c"
    "threads c1 = (threads c)(i := Worker (WriteState Received b s) l1)"
    by (rule worker_checks [OF assms(1,4) _ assms(2,9)]) (use assms(7) in simp)
  obtain c2 l2 where 2: "lock_reach X U c2" "shared c2 = shared c"
    "threads c2 = (threads c1)(j := Worker (WriteState Received b' s') l2)"
    by (rule worker_checks [of X U c1 j lj b' s', OF 1(1)]) (use assms 1 in auto)
  have p: "sh_poisoned (shared c2) = {}" using assms(2) 2(2) by simp
  obtain c3 where 3: "lock_reach X U c3" "sh_poisoned (shared c3) = {}" "blockchain (sh_node (shared c3)) = blockchain ?nd"
    "threads c3 = (threads c2)(i := Worker (InsertBlock Received b) l1)"
    by (rule worker_section [OF 2(1) _ state_written [OF p], of i Received b s l1]) (use 1 2 p assms(6) in auto)
  obtain c4 where 4: "lock_reach X U c4" "sh_poisoned (shared c4) = {}" "blockchain (sh_node (shared c4)) = blockchain ?nd"
    "block_state (sh_node (shared c4)) ?h = Some s'" "threads c4 = (threads c3)(j := Worker (InsertBlock Received b') l2)"
    by (rule worker_section [OF 3(1) _ state_written [OF 3(2)], of j Received b' s' l2]) (use 2 3 same assms(6) in auto)
  have known: "blocks (blockchain ?nd) (parent (head b)) \<noteq> None" using assms(9) by (auto simp: acceptable_def)
  obtain d' n' where d': "Blockchain_insert X (blockchain ?nd) b' = Ret d'"
    "blocks d' = (blocks (blockchain ?nd))(?h \<mapsto> (b', n'))" "blocks d' (tip d') \<noteq> None"
    by (rule insert_release [OF assms(3), of "blockchain ?nd" b']) (use known assms(8,11) same in simp_all)
  have t4: "threads c4 j = Worker (InsertBlock Received b') l2" "threads c4 i = Worker (InsertBlock Received b) l1"
    using 3(4) 4(5) assms(6) by simp_all
  obtain c5 th where c5: "lock_reach X U c5"
    "shared c5 = (shared c4)\<lparr>sh_node := (sh_node (shared c4))\<lparr>blockchain := d'\<rparr>\<rparr>" "threads c5 = (threads c4)(j := th)"
    by (rule worker_inserts [OF 4(1) t4(1) 4(2), unfolded 4(3), OF d'(1)])
  have 5: "sh_poisoned (shared c5) = {}" "blockchain (sh_node (shared c5)) = d'"
    "block_state (sh_node (shared c5)) ?h = Some s'" "threads c5 i = Worker (InsertBlock Received b) l1"
    using c5(2,3) t4(2) 4(2,4) assms(6) by simp_all
  obtain d n where d: "Blockchain_insert X d' b = Ret d" "blocks d = (blocks d')(?h \<mapsto> (b, n))"
    by (rule insert_release [OF assms(3) _ d'(3), of b]) (use known d'(2) in simp_all)
  obtain c6 th' where c6: "lock_reach X U c6"
    "shared c6 = (shared c5)\<lparr>sh_node := (sh_node (shared c5))\<lparr>blockchain := d\<rparr>\<rparr>"
    by (rule worker_inserts [OF c5(1) 5(4,1), unfolded 5(2), OF d(1)])
  with d(2) 5(3) show ?thesis by (intro exI [of _ c6] exI [of _ n]) simp
qed

text \<open>
  The example: the first payment is in the tree, and its input is still unspent in the
  recorded state, which is that of an empty block.
\<close>

theorem variants_cross_witness:
  "\<exists>U c n s. lock_reach (demo_crates False) U c \<and>
     blocks (blockchain (sh_node (shared c))) (pad32 [0, 2, 1]) = Some (demo_block 1 (pad32 [0, 1, 0]) [demo_payment], n) \<and>
     block_state (sh_node (shared c)) (pad32 [0, 2, 1]) = Some s \<and> states s (outpoint_of demo_ico_input) \<noteq> None"
proof -
  let ?X = "demo_crates False" and ?b = "demo_block 1 (pad32 [0, 1, 0]) [demo_payment]" and ?b' = "demo_b1"
  let ?s0 = "State_new ?X (all_public_keys ! 0)"
  let ?c = "\<lparr>shared = \<lparr>sh_node = init_node ?X, sh_poisoned = {}\<rparr>, threads = (\<lambda>_. Worker Idle fresh_local),
     attempted = None, queue = []\<rparr>"
  obtain s where s: "check_txs ?X ?s0 (st (cont ?b)) = Ret (Some s)" using demo_payment_valid by auto
  have r: "lock_reach ?X {genesis, ?b, ?b'} ?c" by (rule lock_init) (simp add: starts_def)
  have d: "difficulty (head genesis) = genesis_difficulty" by (simp add: genesis_def)
  have acc: "acceptable ?X (sh_node (shared ?c)) ?b s" "acceptable ?X (sh_node (shared ?c)) ?b' ?s0"
    using s d by (simp_all add: acceptable_def demo_pow Blockchain_new_def Let_def)
  have "\<exists>c' n. lock_reach ?X {genesis, ?b, ?b'} c' \<and>
      blocks (blockchain (sh_node (shared c'))) (hash_block ?X ?b) = Some (?b, n) \<and>
      block_state (sh_node (shared c')) (hash_block ?X ?b) = Some ?s0"
    by (rule variants_cross [OF r _ _ _ _ _ _ _ acc, of 0 fresh_local 1 fresh_local])
      (simp_all add: demo_block_def Blockchain_new_def Let_def)
  moreover have "states ?s0 (outpoint_of demo_ico_input) \<noteq> None"
    by (simp add: State_new_def outpoint_of_def demo_ico_input_def Let_def)
  moreover have "hash_block ?X ?b = pad32 [0, 2, 1]" by simp
  ultimately show ?thesis by metis
qed

end
