(* ===== verification/Payments.thy ===== *)
theory Payments
  imports System Relay
begin

text \<open>
  A payment from its generation to its confirmation: the turns of the generator
  (\<open>generator/tx_generator.rs\<close>), the miner (\<open>miner/mod.rs\<close>), its worker
  (\<open>miner/worker.rs\<close>) and the network worker of a peer (\<open>network/worker.rs\<close>) composed.
\<close>

section \<open>What the threads keep\<close>

text \<open>The generator's address belongs to its key, and the miner remembers the hashes of what it picked.\<close>

definition threads_ok :: "Crates \<Rightarrow> Sys \<Rightarrow> bool" where
  "threads_ok X s \<longleftrightarrow> generator_inv X (generator s) \<and> miner_inv X (miner s)"

lemma sys_start_threads: "sys_start X i = Ret s \<Longrightarrow> threads_ok X s"
  by (auto simp: sys_start_def generator_start_def TxGenerator_new_eq threads_ok_def miner_inv_new
      generator_inv_def GeneLoop.defs Generator.defs node_addr_def res_simps Let_def split: if_splits)

lemma sys_step_threads:
  assumes "sys_step X U s out s'" and "threads_ok X s" and "mempool_ok X (mempool (node s))"
  shows "threads_ok X s'"
  using assms(1)
proof cases
  case (mine inp nd' m' sent)
  with miner_turn_inv [OF mine(3) _ mine(4) mempool_ok_keyed [OF assms(3)]] assms(2) show ?thesis
    by (simp add: threads_ok_def)
next
  case (generate ginp nd' g')
  with generator_turn_frame [OF generate(2)] assms(2) show ?thesis
    by (simp add: threads_ok_def generator_inv_def)
qed (use assms(2) in \<open>simp_all add: threads_ok_def\<close>)

lemma sys_reach_threads:
  assumes "universe_sound X U" and "\<forall>k\<in>set all_public_keys. signs X k"
  shows "sys_reach X U i s \<Longrightarrow> threads_ok X s"
proof (induction rule: sys_reach.induct)
  case (sys_turn s out s')
  from sys_reach_ok [OF assms sys_turn.hyps(1)] sys_step_threads [OF sys_turn.hyps(2) sys_turn.IH]
  show ?case by simp
qed (rule sys_start_threads)

section \<open>One payment\<close>

lemma enumerates_single: "enumerates xs [h \<mapsto> v] \<Longrightarrow> xs = [(h, v)]"
proof -
  assume e: "enumerates xs [h \<mapsto> v]"
  then have "set xs = {(h, v)}" by (auto simp: enumerates_def split: if_splits)
  moreover have "distinct xs" using e by (simp add: enumerates_def distinct_map)
  ultimately have "length xs = 1" using distinct_card [of xs] by simp
  with \<open>set xs = {(h, v)}\<close> show ?thesis by (cases xs) auto
qed

text \<open>With an empty mempool the miner selects exactly the payment of the generator.\<close>

lemma payment_selected:
  assumes "generator_turn X nd g ginp = Ret (nd1, g2, out)" and "out \<noteq> []"
    and "refresh nd g = Ret g1" and "signs X (own_key g)" and "generator_inv X g"
    and "enumerates (entries ginp) (states (local_state g1))"
    and "trans (mempool nd) = Map.empty"
    and "miner_inv X m" and "to_remove m = []"
    and "miner_turn X nd1 m minp = Some (Ret (nd2, m2, Some b))"
    and "enumerates (order minp) (trans (mempool nd1))"
  obtains stx where "check_tx X (local_state g1) stx = Ret (Some (local_state g2))"
    "out = [Broadcast (NewTransactionHashes [hash_stx X stx])]" "length (output (transaction stx)) \<le> 3"
    "st (cont b) = [stx]" "parent (head b) = tip (blockchain nd)"
    "difficulty (head b) = genesis_difficulty" "hash_block X b \<le> genesis_difficulty"
    "nd2 = nd\<lparr>mempool := mempool nd2\<rparr>" "trans (mempool nd2) = Map.empty"
  using assms(1,3-6)
proof (cases rule: generator_turn_cases)
  case idle
  with assms(2) show thesis by simp
next
  case (paid stx)
  let ?mp = "(mempool nd)\<lparr>trans := (trans (mempool nd))(hash_stx X stx \<mapsto> stx)\<rparr>"
  have nd1: "nd1 = nd\<lparr>mempool := ?mp\<rparr>" using paid(4) assms(7) by simp
  then have "order minp = [(hash_stx X stx, stx)]" using assms(7,11) enumerates_single by simp
  moreover have "picked m = []" using assms(8,9) by (simp add: miner_inv_def)
  ultimately have sel: "selection m minp = ([hash_stx X stx], [stx])"
    using assms(9) by (simp add: selection_def block_size_def)
  from assms(10) show thesis
  proof (cases rule: miner_turn_sent)
    case (1 millis)
    then have "trans (mempool nd2) = Map.empty" by (auto simp: sel nd1 assms(7) trans_remove_mined)
    with 1 paid(1,2,7) show thesis by (intro that [of stx]) (simp_all add: attempt_def sel nd1)
  qed
qed

text \<open>The payment is confirmed on the node.\<close>

lemma payment_inserted:
  assumes ok: "node_ok X U s0 nd" and sound: "universe_sound X U" and b: "b \<in> U"
    and new: "blocks (blockchain nd) (hash_block X b) = None"
    and par: "parent (head b) = tip (blockchain nd)" and pow: "difficulty (head b) = genesis_difficulty"
      "hash_block X b \<le> genesis_difficulty"
    and s: "block_state nd (tip (blockchain nd)) = Some s" "check_txs X s (st (cont b)) = Ret (Some s')"
    and nd2: "nd2 = nd\<lparr>mempool := mp\<rparr>"
  obtains nd3 n where "miner_worker_step X nd2 b = Ret (nd3, [Broadcast (NewBlockHashes [hash_block X b])])"
    "tip (blockchain nd3) = hash_block X b" "mempool nd3 = mp" "block_state nd3 (hash_block X b) = Some s'"
    "node_ok X U s0 nd3" "blocks (blockchain nd3) (hash_block X b) = Some (b, n)"
proof -
  have ok2: "node_ok X U s0 nd2" using ok nd2 by simp
  then have inv: "chain_inv X (blockchain nd2)" and bin: "blocks_in U (blockchain nd2)" by (simp_all add: node_ok_def)
  note hs = universe_headers [OF sound] and hin = blocks_in_headers [OF bin]
  obtain tb tn where t: "blocks (blockchain nd2) (tip (blockchain nd2)) = Some (tb, tn)"
    using inv by (auto simp: chain_inv_def tip_inv_def)
  obtain hs where path: "all_blocks_in_longest_chain (blockchain nd2) = Ret hs" by (rule longest_chain_tip [OF inv])
  obtain nd3 where nd3: "miner_worker_step X nd2 b = Ret (nd3, [Broadcast (NewBlockHashes [hash_block X b])])"
    "tip (blockchain nd3) = hash_block X b" "mempool nd3 = mp" "block_state nd3 (hash_block X b) = Some s'"
    using mined_block_extends_chain [OF inv tree_inv_room [OF inv hs hin] path t tree_inv_heights_fit [OF inv hs hin t],
      of b s s'] par new s nd2 by auto
  have "mined_ok X U (blockchain nd2) b" using b par pow t nd2 by (simp add: mined_ok_def)
  from miner_worker_step_ok [OF nd3(1) sound ok2 this] have ok3: "node_ok X U s0 nd3" ..
  then have inv3: "chain_inv X (blockchain nd3)" by (simp add: node_ok_def)
  then obtain b' n where e: "blocks (blockchain nd3) (hash_block X b) = Some (b', n)"
    using nd3(2) by (auto simp: chain_inv_def tip_inv_def)
  have "hash_block X b' = hash_block X b" using inv3 e tree_inv_hash by (auto simp: chain_inv_def)
  moreover have "b' \<in> U" using ok3 e by (auto simp: node_ok_def blocks_in_def)
  ultimately have "b' = b" using b sound by (auto simp: universe_sound_iff dest: inj_onD)
  with nd3 ok3 e show thesis by (intro that) simp_all
qed

text \<open>Another node that knows the tip gets the block, and its ledger, by three deliveries.\<close>

lemma block_relayed:
  assumes ok: "node_ok X U s0 A" "node_ok X U s0 nd" "node_ok X U s0 B" and sound: "universe_sound X U"
    and b: "blocks (blockchain A) (hash_block X b) = Some (b, n)" "difficulty (head b) = genesis_difficulty"
      "hash_block X b \<le> genesis_difficulty"
    and p: "blocks (blockchain nd) (parent (head b)) \<noteq> None" "blocks (blockchain B) (parent (head b)) \<noteq> None"
    and new: "blocks (blockchain B) (hash_block X b) = None"
    and s: "block_state nd (parent (head b)) = Some s" "check_txs X s (st (cont b)) = Ret (Some s')"
    and "\<not> overflow_checks X" and "bufs lw = []"
  obtains l k where "link_run X [aw, cw, lw] \<lparr>left = A, left_orphans = os, right = B, right_orphans = bufs, to_left = [],
      to_right = [NewBlockHashes [hash_block X b]]\<rparr> = Ret l"
    "blocks (blockchain (right l)) (hash_block X b) = Some (b, k)" "block_state (right l) (hash_block X b) = Some s'"
proof -
  let ?l = "\<lparr>left = A, left_orphans = os, right = B, right_orphans = bufs, to_left = [],
      to_right = [NewBlockHashes [hash_block X b]]\<rparr>"
  obtain b0 n0 pb pn where e: "blocks (blockchain nd) (parent (head b)) = Some (b0, n0)"
    "blocks (blockchain B) (parent (head b)) = Some (pb, pn)" using p by auto
  from same_ledger [OF sound ok(2,3) e] s(1) have sB: "block_state B (parent (head b)) = Some s" by simp
  have "difficulty (head b) = difficulty (head pb)"
    using ok(3) b(2) e(2) unfolding node_ok_def pow_inv_def by metis
  then have "accepts X B {b} (hash_block X b) b s'"
    using b s(2) accepts_known [OF e(2) sB] by (intro accepts_next) auto
  moreover have "missing_branch X A B [b]" using b new p(2) by (simp add: served_def)
  ultimately have "\<exists>l k. link_run X [aw, cw, lw] ?l = Ret l \<and> left l = left ?l \<and>
      blocks (blockchain (right l)) (hash_block X b) = Some (b, k) \<and> block_state (right l) (hash_block X b) = Some s'"
    using node_ok_safe [OF ok(3)] assms(13,14) by (intro block_fetched) simp_all
  then show thesis by (auto intro: that)
qed

section \<open>Properties\<close>

text \<open>
  C11: A payment is confirmed. Take two running nodes with the same tip in their trees, the
  first with an empty mempool and a generator that has not paid since that tip. If the
  generator then pays, and the miner finds a block, then that block consists of the
  payment alone; the miner's worker inserts it, which makes it the tip, with the ledger
  state that the generator expects, in which the outputs of the payment can be spent, and
  the mempool is empty again; and the announcement of the block makes the second node
  record the same block with the same ledger state after three deliveries, whichever workers
  take them, if the last of these has nothing buffered. This is for a release build, every key
  of the key file signs, the blocks of the system have pairwise different headers with
  pairwise different hashes, other than zero, and the new block is one that neither node has.
\<close>

theorem payment_confirmed:
  assumes "sys_reach X U i s" and "sys_reach X U j r" and "universe_sound X U"
    and "\<forall>k\<in>set all_public_keys. signs X k" and "\<not> overflow_checks X"
    and "refresh (node s) (generator s) = Ret g1"
    and "block_state (node s) (tip (blockchain (node s))) = Some (local_state g1)"
    and "enumerates (entries ginp) (states (local_state g1))"
    and "generator_turn X (node s) (generator s) ginp = Ret (nd1, g2, out)" and "out \<noteq> []"
    and "trans (mempool (node s)) = Map.empty" and "to_remove (miner s) = []"
    and "miner_turn X nd1 (miner s) minp = Some (Ret (nd2, m2, Some b))"
    and "enumerates (order minp) (trans (mempool nd1))" and "b \<in> U"
    and "blocks (blockchain (node s)) (hash_block X b) = None"
    and "blocks (blockchain (node r)) (hash_block X b) = None"
    and "blocks (blockchain (node r)) (tip (blockchain (node s))) \<noteq> None" and "bufs lw = []"
  shows "\<exists>stx nd3 l n. out = [Broadcast (NewTransactionHashes [hash_stx X stx])] \<and> st (cont b) = [stx] \<and>
    miner_worker_step X nd2 b = Ret (nd3, [Broadcast (NewBlockHashes [hash_block X b])]) \<and>
    tip (blockchain nd3) = hash_block X b \<and> block_state nd3 (hash_block X b) = Some (local_state g2) \<and>
    (\<forall>k<length (output (transaction stx)).
       states (local_state g2) (hash_stx X stx, word_of_nat k) = Some (entry_of (output (transaction stx) ! k))) \<and>
    trans (mempool nd3) = Map.empty \<and>
    link_run X [aw, cw, lw] \<lparr>left = nd3, left_orphans = os, right = node r, right_orphans = bufs, to_left = [],
      to_right = [NewBlockHashes [hash_block X b]]\<rparr> = Ret l \<and>
    blocks (blockchain (right l)) (hash_block X b) = Some (b, n) \<and>
    block_state (right l) (hash_block X b) = Some (local_state g2)"
proof -
  let ?s0 = "State_new X (all_public_keys ! 0)"
  note okS = sys_reach_ok [OF assms(3,4,1)]
  have ok: "node_ok X U ?s0 (node s)" "node_ok X U ?s0 (node r)"
    using okS sys_reach_ok [OF assms(3,4,2)] by (simp_all add: sys_ok_def)
  have th: "generator_inv X (generator s)" "miner_inv X (miner s)"
    using sys_reach_threads [OF assms(3,4,1)] by (simp_all add: threads_ok_def)
  have key: "signs X (own_key (generator s))" using okS assms(4) by blast
  obtain stx where stx: "check_tx X (local_state g1) stx = Ret (Some (local_state g2))"
    "out = [Broadcast (NewTransactionHashes [hash_stx X stx])]" "length (output (transaction stx)) \<le> 3"
    "st (cont b) = [stx]" and b: "parent (head b) = tip (blockchain (node s))"
    "difficulty (head b) = genesis_difficulty" "hash_block X b \<le> genesis_difficulty"
    and nd2: "nd2 = (node s)\<lparr>mempool := mempool nd2\<rparr>" "trans (mempool nd2) = Map.empty"
    by (rule payment_selected [OF assms(9,10,6) key th(1) assms(8,11) th(2) assms(12-14)])
  have txs: "check_txs X (local_state g1) (st (cont b)) = Ret (Some (local_state g2))" using stx(1,4) by simp
  obtain nd3 n where nd3: "miner_worker_step X nd2 b = Ret (nd3, [Broadcast (NewBlockHashes [hash_block X b])])"
    "tip (blockchain nd3) = hash_block X b" "mempool nd3 = mempool nd2"
    "block_state nd3 (hash_block X b) = Some (local_state g2)" "node_ok X U ?s0 nd3"
    "blocks (blockchain nd3) (hash_block X b) = Some (b, n)"
    by (rule payment_inserted [OF ok(1) assms(3,15,16) b assms(7) txs nd2(1)])
  have p: "blocks (blockchain (node s)) (parent (head b)) \<noteq> None"
    "blocks (blockchain (node r)) (parent (head b)) \<noteq> None"
    "block_state (node s) (parent (head b)) = Some (local_state g1)"
    using ok(1) assms(7,18) b(1) by (auto simp: node_ok_def chain_inv_def tip_inv_def)
  obtain l k where l: "link_run X [aw, cw, lw] \<lparr>left = nd3, left_orphans = os, right = node r, right_orphans = bufs, to_left = [],
      to_right = [NewBlockHashes [hash_block X b]]\<rparr> = Ret l"
    "blocks (blockchain (right l)) (hash_block X b) = Some (b, k)"
    "block_state (right l) (hash_block X b) = Some (local_state g2)"
    by (rule block_relayed [where bufs = bufs and lw = lw, OF nd3(5) ok assms(3) nd3(6) b(2,3) p(1,2) assms(17) p(3) txs assms(5,19)])
  have "states (local_state g2) (hash_stx X stx, word_of_nat k) = Some (entry_of (output (transaction stx) ! k))"
    if "k < length (output (transaction stx))" for k
    using State_update_outputs [of stx k X "local_state g1"] check_tx_accepted(3) [OF stx(1)] stx(3) that by simp
  with stx nd2(2) nd3 l show ?thesis by auto
qed

text \<open>The first node with its generator and its miner started.\<close>

definition demo_running :: Sys where
  "demo_running =
     (let X = demo_crates False
      in \<lparr>node = init_node X, orphan_bufs = (\<lambda>_. []), finished = [], miner = demo_miner 0,
          generator = \<lparr>operating_state = Run 0, own_key = all_public_keys ! 0, addr = node_addr X 0,
            peer_addrs = (node_addr X 1, node_addr X 2), prev_tip = pad32 [0, 1, 0],
            local_state = State_new X (all_public_keys ! 0)\<rparr>\<rparr>)"

lemma demo_running_reach: "sys_reach (demo_crates False) U 0 demo_running"
proof -
  let ?X = "demo_crates False"
  let ?g = "generator demo_running" and ?nd = "init_node ?X"
  let ?s0 = "\<lparr>node = ?nd, orphan_bufs = (\<lambda>_. []), finished = [], miner = Miner_new,
      generator = ?g\<lparr>operating_state := Paused\<rparr>\<rparr>"
  have "sys_start ?X 0 = Ret ?s0"
    by (simp add: sys_start_def generator_start_def TxGenerator_new_eq GeneLoop.defs Generator.defs Let_def
        demo_running_def Blockchain_tip_def) (simp add: Blockchain_new_def Let_def)
  then have r0: "sys_reach ?X U 0 ?s0" by (rule sys_init)
  have "generator_turn ?X (node ?s0) (generator ?s0) \<lparr>gen_signal = Received (Start 0), entries = []\<rparr> =
      Ret (?nd, ?g, [])"
    by (simp add: generator_turn_def generator_react_def demo_running_def Let_def)
  from sys_turn [OF r0 generate [OF this]] have r1: "sys_reach ?X U 0 (?s0\<lparr>generator := ?g\<rparr>)" by simp
  have "miner_turn ?X (node (?s0\<lparr>generator := ?g\<rparr>)) (miner (?s0\<lparr>generator := ?g\<rparr>))
      (demo_miner_input (Received (Miner.Start 0))) = Some (Ret (?nd, demo_miner 0, None))"
    by (simp add: miner_turn_def Miner_new_def demo_miner_input_def miner_react_def demo_miner_def)
  from sys_turn [OF r1 mine [OF this]] show ?thesis
    by (simp add: demo_running_def demo_miner_input_def enumerates_def Mempool_new_def Let_def)
qed

text \<open>The started generator pays, and the started miner finds a block with the payment.\<close>

lemma demo_payment_mined:
  obtains ginp nd1 g2 out minp nd2 m2 b where
    "refresh (node demo_running) (generator demo_running) = Ret (generator demo_running)"
    "enumerates (entries ginp) (states (local_state (generator demo_running)))"
    "generator_turn (demo_crates False) (node demo_running) (generator demo_running) ginp = Ret (nd1, g2, out)"
    "out \<noteq> []" "enumerates (order minp) (trans (mempool nd1))"
    "miner_turn (demo_crates False) nd1 (miner demo_running) minp = Some (Ret (nd2, m2, Some b))"
    "hash_block (demo_crates False) b = pad32 [0, 2, 1]"
proof -
  let ?X = "demo_crates False" and ?nd = "node demo_running" and ?g = "generator demo_running"
  define ginp where "ginp = \<lparr>gen_signal = Nothing, entries = [((h256_fill 0, 0), (ico_amount, node_addr ?X 0))]\<rparr>"
  have r: "refresh ?nd ?g = Ret ?g"
    by (simp add: refresh_def demo_running_def Blockchain_tip_def Blockchain_new_def Let_def)
  have en: "enumerates (entries ginp) (states (local_state ?g))"
    by (auto simp: enumerates_def ginp_def demo_running_def State_new_def node_addr_def Let_def)
  have turn: "generator_turn ?X ?nd ?g ginp = generate_once ?X ?nd ?g ginp"
    by (simp add: generator_turn_def demo_running_def ginp_def Let_def)
  obtain g2 stx where pay: "generator_turn ?X ?nd ?g ginp = Ret (?nd\<lparr>mempool := \<lparr>trans = [hash_stx ?X stx \<mapsto> stx]\<rparr>\<rparr>, g2,
      [Broadcast (NewTransactionHashes [hash_stx ?X stx])])"
    using r
  proof (cases rule: generate_once_cases [where X = ?X and inp = ginp])
    case (poor p)
    then show thesis by (auto simp: ginp_def demo_running_def ico_amount_def Let_def)
  next
    case (pays h k v t)
    with turn show thesis by (intro that) (simp add: demo_running_def Mempool_new_def Let_def)
  qed
  let ?nd1 = "?nd\<lparr>mempool := \<lparr>trans = [hash_stx ?X stx \<mapsto> stx]\<rparr>\<rparr>" and ?m = "demo_miner 0"
  let ?minp = "(demo_miner_input Nothing)\<lparr>order := [(hash_stx ?X stx, stx)]\<rparr>"
  let ?b = "attempt ?X ?nd1 ?m ?minp 0"
  have hash: "hash_block ?X ?b = pad32 [0, 2, 1]"
    unfolding demo_hash_block
    by (simp add: attempt_def demo_running_def Blockchain_new_def Let_def demo_miner_input_def)
  have "miner_turn ?X ?nd1 ?m ?minp = mine_once ?X ?nd1 ?m ?minp"
    by (simp add: miner_turn_def demo_miner_def demo_miner_input_def)
  moreover have "clock ?minp = Some 0" "receiver_alive ?minp" "count ?m = 0"
    by (simp_all add: demo_miner_input_def demo_miner_def)
  ultimately obtain nd2 m2 where mined: "miner_turn ?X ?nd1 ?m ?minp = Some (Ret (nd2, m2, Some ?b))"
    by (auto simp: mine_once_eq Let_def hash demo_pow inc_i32_def)
  have "miner demo_running = ?m" by (simp add: demo_running_def Let_def)
  with mined hash show thesis
    by (intro that [OF r en pay]) (auto simp: enumerates_def)
qed

theorem payment_confirmed_witness:
  "\<exists>ginp nd1 g2 out nd2 b nd3 r l. generator_turn (demo_crates False) (node demo_running) (generator demo_running)
       ginp = Ret (nd1, g2, out) \<and> out \<noteq> [] \<and>
     miner_worker_step (demo_crates False) nd2 b = Ret (nd3, [Broadcast (NewBlockHashes [pad32 [0, 2, 1]])]) \<and>
     sys_reach (demo_crates False) {genesis, b} 1 r \<and>
     link_run (demo_crates False) [0, 1, 2] \<lparr>left = nd3, left_orphans = (\<lambda>_. []), right = node r, right_orphans = (\<lambda>_. []), to_left = [],
       to_right = [NewBlockHashes [pad32 [0, 2, 1]]]\<rparr> = Ret l \<and>
     block_state (right l) (pad32 [0, 2, 1]) = Some (local_state g2)"
proof -
  let ?X = "demo_crates False"
  obtain ginp nd1 g2 out minp nd2 m2 b where
    g: "refresh (node demo_running) (generator demo_running) = Ret (generator demo_running)"
    "enumerates (entries ginp) (states (local_state (generator demo_running)))"
    "generator_turn ?X (node demo_running) (generator demo_running) ginp = Ret (nd1, g2, out)" "out \<noteq> []"
    and m: "enumerates (order minp) (trans (mempool nd1))"
    "miner_turn ?X nd1 (miner demo_running) minp = Some (Ret (nd2, m2, Some b))"
    "hash_block ?X b = pad32 [0, 2, 1]" by (rule demo_payment_mined)
  obtain r where r: "sys_start ?X 1 = Ret r" "node r = init_node ?X" using demo_start [of 1] by auto
  have nd: "node demo_running = init_node ?X" by (simp add: demo_running_def Let_def)
  have st: "block_state (node demo_running) (tip (blockchain (node demo_running))) = Some (local_state (generator demo_running))"
    by (simp add: demo_running_def Blockchain_new_def Let_def)
  have u: "universe_sound ?X {genesis, b}" by (rule demo_pair_universe [OF m(3)])
  have new: "blocks (blockchain (node demo_running)) (hash_block ?X b) = None"
    "blocks (blockchain (node r)) (hash_block ?X b) = None"
    "blocks (blockchain (node r)) (tip (blockchain (node demo_running))) \<noteq> None"
    by (simp_all add: m(3) nd r(2) Blockchain_new_def Let_def)
  have pool: "trans (mempool (node demo_running)) = Map.empty" "to_remove (miner demo_running) = []"
    by (simp_all add: demo_running_def demo_miner_def Mempool_new_def Let_def)
  have "\<not> overflow_checks ?X" by simp
  note confirmed = payment_confirmed [where bufs = "\<lambda>_. []" and os = "\<lambda>_. []" and aw = 0 and cw = 1 and lw = 2,
      OF demo_running_reach sys_init [OF r(1)] u demo_signs this g(1) st g(2-4) pool
      m(2,1) _ new refl, unfolded m(3)]
  then obtain nd3 l where
    "miner_worker_step ?X nd2 b = Ret (nd3, [Broadcast (NewBlockHashes [pad32 [0, 2, 1]])])"
    "link_run ?X [0, 1, 2] \<lparr>left = nd3, left_orphans = (\<lambda>_. []), right = node r, right_orphans = (\<lambda>_. []), to_left = [],
       to_right = [NewBlockHashes [pad32 [0, 2, 1]]]\<rparr> = Ret l"
    "block_state (right l) (pad32 [0, 2, 1]) = Some (local_state g2)" by blast
  moreover have "sys_reach ?X {genesis, b} 1 r" using r(1) by (rule sys_init)
  ultimately show ?thesis using g(3,4) by metis
qed

end
