(* ===== verification/Wire.thy ===== *)
theory Wire
  imports Relay Server
begin

text \<open>
  Two nodes on one connection, in bytes: the reader tasks of \<open>network/server.rs\<close> cut the
  stream into frames, the workers of \<open>network/worker.rs\<close> decode and handle them, and the
  writer tasks put the encoded answers into frames. It implements the connection of
  \<open>Relay\<close>, which carries messages.
\<close>

section \<open>A connection in bytes\<close>

record WireLink =
  w_left :: Node
  w_left_orphans :: "nat \<Rightarrow> Block list"
  w_right :: Node
  w_right_orphans :: "nat \<Rightarrow> Block list"
  bytes_left :: "u8 list"
  bytes_right :: "u8 list"

text \<open>What the writer task of a peer sends for the answers of a worker.\<close>

definition written :: "Crates \<Rightarrow> action list \<Rightarrow> u8 list" where
  "written X out = fst (writer_loop (length out) (map (\<lambda>a. serialize_msg X (message_of a)) out))"

text \<open>One frame is read and handled by worker \<open>k\<close>: on the right, or when nothing has come there, on the left.\<close>

definition wire_turn :: "Crates \<Rightarrow> nat \<Rightarrow> WireLink \<Rightarrow> WireLink res" where
  "wire_turn X k w =
     (case read_frame (bytes_right w) of
        Some (raw, rest) \<Rightarrow>
          bind_res (worker_step X (w_right w) (w_right_orphans w k) raw) (\<lambda>(nd, os, out).
            Ret (w\<lparr>w_right := nd, w_right_orphans := (w_right_orphans w)(k := os), bytes_right := rest,
                   bytes_left := bytes_left w @ written X out\<rparr>))
      | None \<Rightarrow>
         (case read_frame (bytes_left w) of
            Some (raw, rest) \<Rightarrow>
              bind_res (worker_step X (w_left w) (w_left_orphans w k) raw) (\<lambda>(nd, os, out).
                Ret (w\<lparr>w_left := nd, w_left_orphans := (w_left_orphans w)(k := os), bytes_left := rest,
                       bytes_right := bytes_right w @ written X out\<rparr>))
          | None \<Rightarrow> Ret w))"

primrec wire_run :: "Crates \<Rightarrow> nat list \<Rightarrow> WireLink \<Rightarrow> WireLink res" where
  "wire_run X [] w = Ret w"
| "wire_run X (k # ks) w = bind_res (wire_turn X k w) (wire_run X ks)"

section \<open>Refinement\<close>

definition frames_of :: "Crates \<Rightarrow> Message list \<Rightarrow> u8 list" where
  "frames_of X ms = concat (map (\<lambda>m. write_frame (serialize_msg X m)) ms)"

definition wire_of :: "Crates \<Rightarrow> Link \<Rightarrow> WireLink" where
  "wire_of X l = \<lparr>w_left = left l, w_left_orphans = left_orphans l, w_right = right l,
     w_right_orphans = right_orphans l, bytes_left = frames_of X (to_left l), bytes_right = frames_of X (to_right l)\<rparr>"

text \<open>The encoder is right about the messages under way: it can be inverted, and they fit a frame.\<close>

definition carries :: "Crates \<Rightarrow> Message list \<Rightarrow> bool" where
  "carries X ms \<longleftrightarrow> (\<forall>m\<in>set ms. deserialize_msg X (serialize_msg X m) = Some m \<and> length (serialize_msg X m) < 2 ^ 32)"

lemma frames_of_Nil [simp]: "frames_of X [] = []"
  by (simp add: frames_of_def)

lemma frames_of_append [simp]: "frames_of X (ms @ ms') = frames_of X ms @ frames_of X ms'"
  by (simp add: frames_of_def)

lemma written_frames: "written X out = frames_of X (map message_of out)"
  by (simp add: written_def frames_of_def writer_loop_eq comp_def)

lemma read_frame_Nil: "read_frame [] = None"
  by (simp add: read_frame_def read_exact_def)

lemma read_frames_Cons:
  "carries X (m # ms) \<Longrightarrow> read_frame (frames_of X (m # ms)) = Some (serialize_msg X m, frames_of X ms)"
  using fr.get_put [of "serialize_msg X m" "frames_of X ms"] by (simp add: frames_of_def carries_def frame_fits_def)

lemma worker_step_carried:
  "carries X (m # ms) \<Longrightarrow> worker_step X nd os (serialize_msg X m) = handle_message X nd os m"
  by (simp add: worker_step_def carries_def)

lemma wire_turn_link:
  assumes "carries X (to_left l)" and "carries X (to_right l)"
  shows "wire_turn X k (wire_of X l) = bind_res (link_turn X k l) (\<lambda>l'. Ret (wire_of X l'))"
proof (cases "to_right l")
  case (Cons m ms)
  then show ?thesis using assms(2)
    by (cases "handle_message X (right l) (right_orphans l k) m")
      (auto simp: wire_turn_def link_turn_def wire_of_def read_frames_Cons worker_step_carried written_frames
        simp del: handle_message.simps)
next
  case Nil
  show ?thesis
  proof (cases "to_left l")
    case Nil
    with \<open>to_right l = []\<close> show ?thesis
      by (simp add: wire_turn_def link_turn_def wire_of_def read_frame_Nil)
  next
    case (Cons m ms)
    with Nil assms(1) show ?thesis
      by (cases "handle_message X (left l) (left_orphans l k) m")
        (auto simp: wire_turn_def link_turn_def wire_of_def read_frame_Nil read_frames_Cons worker_step_carried written_frames
          simp del: handle_message.simps)
  qed
qed

lemma wire_run_link:
  "(\<And>n l'. n < length ks \<Longrightarrow> link_run X (take n ks) l = Ret l' \<Longrightarrow> carries X (to_left l' @ to_right l')) \<Longrightarrow>
     wire_run X ks (wire_of X l) = bind_res (link_run X ks l) (\<lambda>l'. Ret (wire_of X l'))"
proof (induction ks arbitrary: l)
  case (Cons k ks)
  have "carries X (to_left l @ to_right l)" using Cons.prems [of 0 l] by simp
  then have t: "wire_turn X k (wire_of X l) = bind_res (link_turn X k l) (\<lambda>l'. Ret (wire_of X l'))"
    by (intro wire_turn_link) (simp_all add: carries_def)
  show ?case
  proof (cases "link_turn X k l")
    case (Ret l1)
    have "wire_run X ks (wire_of X l1) = bind_res (link_run X ks l1) (\<lambda>l'. Ret (wire_of X l'))"
      using Cons.prems [of "Suc _"] Ret by (intro Cons.IH) simp
    with t Ret show ?thesis by simp
  qed (use t in simp)
qed simp

section \<open>Properties\<close>

text \<open>
  C30: The connection in bytes implements the connection in messages. If, before each of the
  deliveries, each taken by some worker, every message under way is decoded to itself and fits a frame, then
  after the deliveries in bytes the nodes and the orphan buffers of their workers are those after
  the deliveries of messages, the bytes under way are the frames of the messages under way, and
  a panic occurs in the one when it occurs in the other.
\<close>

theorem wire_refines_link:
  assumes "\<forall>n l'. n < length ks \<longrightarrow> link_run X (take n ks) l = Ret l' \<longrightarrow> carries X (to_left l' @ to_right l')"
  shows "wire_run X ks (wire_of X l) = bind_res (link_run X ks l) (\<lambda>l'. Ret (wire_of X l'))"
  using assms by (intro wire_run_link) blast

text \<open>An encoder for the three messages by which a block is fetched.\<close>

definition demo_codec :: Crates where
  "demo_codec = (demo_crates False)\<lparr>
     serialize_msg := \<lambda>m. case m of NewBlockHashes _ \<Rightarrow> [1] | GetBlocks _ \<Rightarrow> [2, 2] | _ \<Rightarrow> [3],
     deserialize_msg := \<lambda>bs. if bs = [1] then Some (NewBlockHashes [pad32 [0, 2, 1]])
       else if bs = [2, 2] then Some (GetBlocks [pad32 [0, 2, 1]]) else Some (Blocks [demo_b1])\<rparr>"

definition demo_announced :: Link where
  "demo_announced =
     (let A = init_node demo_codec
      in \<lparr>left = A\<lparr>blockchain := (blockchain A)\<lparr>blocks := (blocks (blockchain A))(pad32 [0, 2, 1] \<mapsto> (demo_b1, 1))\<rparr>\<rparr>,
          left_orphans = (\<lambda>_. []), right = A, right_orphans = (\<lambda>_. []),
          to_left = [], to_right = [NewBlockHashes [pad32 [0, 2, 1]]]\<rparr>)"

lemma demo_fetch:
  "link_turn demo_codec k demo_announced =
     Ret (demo_announced\<lparr>to_right := [], to_left := [GetBlocks [pad32 [0, 2, 1]]]\<rparr>)"
  "link_turn demo_codec k (demo_announced\<lparr>to_right := [], to_left := [GetBlocks [pad32 [0, 2, 1]]]\<rparr>) =
     Ret (demo_announced\<lparr>to_right := [Blocks [demo_b1]]\<rparr>)"
proof -
  have h: "hash_block demo_codec genesis = pad32 [0, 1, 0]"
    by (simp add: demo_codec_def hash_block_def hash_header_def genesis_def demo_ser_header_def)
  show "link_turn demo_codec k demo_announced =
      Ret (demo_announced\<lparr>to_right := [], to_left := [GetBlocks [pad32 [0, 2, 1]]]\<rparr>)"
    by (simp add: demo_announced_def link_turn_def handle_NewBlockHashes_def Blockchain_new_def h Let_def fun_eq_iff)
  show "link_turn demo_codec k (demo_announced\<lparr>to_right := [], to_left := [GetBlocks [pad32 [0, 2, 1]]]\<rparr>) =
      Ret (demo_announced\<lparr>to_right := [Blocks [demo_b1]]\<rparr>)"
    by (simp add: demo_announced_def link_turn_def handle_GetBlocks_def Let_def fun_eq_iff)
qed

theorem wire_refines_link_witness:
  "\<exists>w. wire_run demo_codec [0, 1] (wire_of demo_codec demo_announced) = Ret w \<and>
     bytes_right w = [0, 0, 0, 1, 3] \<and> bytes_left w = []"
proof -
  let ?l1 = "demo_announced\<lparr>to_right := [], to_left := [GetBlocks [pad32 [0, 2, 1]]]\<rparr>"
  have "carries demo_codec (to_left l' @ to_right l')" if "n < length [0, 1 :: nat]" "link_run demo_codec (take n [0, 1]) demo_announced = Ret l'" for n l'
  proof -
    from that(1) have "n = 0 \<or> n = 1" by auto
    with that(2) have "l' = demo_announced \<or> l' = ?l1" by (auto simp: demo_fetch)
    then show ?thesis by (auto simp: carries_def demo_announced_def demo_codec_def Let_def)
  qed
  then have "wire_run demo_codec [0, 1] (wire_of demo_codec demo_announced) =
      bind_res (link_run demo_codec [0, 1] demo_announced) (\<lambda>l'. Ret (wire_of demo_codec l'))"
    by (intro wire_refines_link) blast
  also have "\<dots> = Ret (wire_of demo_codec (demo_announced\<lparr>to_right := [Blocks [demo_b1]]\<rparr>))"
    by (simp add: numeral_2_eq_2 demo_fetch)
  finally show ?thesis
    by (simp add: wire_of_def frames_of_def demo_announced_def demo_codec_def write_frame_def to_be_bytes_def Let_def)
qed

end
