(* ===== verification/UnitTests.thy ===== *)
theory UnitTests
  imports Miner
begin

text \<open>
  The unit tests of the repository, as the functions they are: what a test asserts is a
  boolean, a panic of the tested code is a panic. The random blocks and numbers a test draws
  are arguments. So it can be said for which draws a test passes.
\<close>

section \<open>The tests\<close>

text \<open>\<open>generate_random_block\<close> of \<open>src/src/types/block.rs\<close>, the copy for tests.\<close>

definition generate_random_block :: "Crates \<Rightarrow> u32 \<Rightarrow> u128 \<Rightarrow> H256 \<Rightarrow> Block res option" where
  "generate_random_block X rand_nonce millis par =
     map_option (\<lambda>t. bind_res t (\<lambda>tree. bind_res (mt_root tree) (\<lambda>root.
       Ret \<lparr>head = \<lparr>parent = par, nonce = rand_nonce, difficulty = random_block_difficulty,
                     timestamp = millis, merkle_root = root\<rparr>,
            cont = \<lparr>st = []\<rparr>\<rparr>)))
     (mt_new (sha256 X) (H256_hash (sha256 X)) [])"

text \<open>\<open>generate_random_hash\<close> of \<open>src/src/types/hash.rs\<close>: 32 random bytes.\<close>

definition generate_random_hash :: "u8 list \<Rightarrow> H256 res" where
  "generate_random_hash random_bytes =
     bind_res (copy_from_slice (replicate 32 0) random_bytes) H256_from_ref"

text \<open>
  \<open>random\<close> of \<open>src/src/types/key_pair.rs\<close>: the two functions of \<open>ring\<close> are arguments, each
  of which may return an error (\<open>None\<close>), and \<open>rng\<close> is the system's source of randomness.
\<close>

definition key_pair_random ::
  "('r \<Rightarrow> u8 list option) \<Rightarrow> (u8 list \<Rightarrow> KeyPair option) \<Rightarrow> 'r \<Rightarrow> KeyPair res" where
  "key_pair_random generate_pkcs8 from_pkcs8 rng =
     (case generate_pkcs8 rng of
        None \<Rightarrow> Panic UnwrapErr
      | Some pkcs8_bytes \<Rightarrow>
          (case from_pkcs8 pkcs8_bytes of None \<Rightarrow> Panic UnwrapErr | Some k \<Rightarrow> Ret k))"

text \<open>The tests of \<open>src/src/blockchain/mod.rs\<close>.\<close>

definition insert_one :: "Crates \<Rightarrow> u32 \<Rightarrow> u128 \<Rightarrow> bool res option" where
  "insert_one X rand_nonce millis =
     (let blockchain = Blockchain_new X;
          genesis_hash = Blockchain_tip blockchain
      in map_option (\<lambda>r. bind_res r (\<lambda>block.
           bind_res (Blockchain_insert X blockchain block) (\<lambda>blockchain.
             Ret (Blockchain_tip blockchain = hash_block X block))))
         (generate_random_block X rand_nonce millis genesis_hash))"

record InsertTest =
  chain :: Blockchain
  block_map :: "H256 \<rightharpoonup> u32"
  tip_h :: u32
  test_tip :: H256

definition insert1000_body :: "Crates \<Rightarrow> Block \<Rightarrow> InsertTest \<Rightarrow> InsertTest res" where
  "insert1000_body X block s =
     (let parent_hash = parent (head block)
      in bind_res (Blockchain_insert X (chain s) block) (\<lambda>c.
         bind_res (unwrap (block_map s parent_hash)) (\<lambda>p.
         bind_res (add_u32 X p 1) (\<lambda>h.
           let s = s\<lparr>chain := c, block_map := (block_map s)(hash_block X block \<mapsto> h)\<rparr>
           in Ret (if tip_h s < h then s\<lparr>tip_h := h, test_tip := hash_block X block\<rparr> else s)))))"

fun insert1000_loop :: "Crates \<Rightarrow> Block list \<Rightarrow> InsertTest \<Rightarrow> InsertTest res" where
  "insert1000_loop X [] s = Ret s"
| "insert1000_loop X (block # bs) s = bind_res (insert1000_body X block s) (insert1000_loop X bs)"

definition insert1000 :: "Crates \<Rightarrow> Block \<Rightarrow> Block list \<Rightarrow> bool res" where
  "insert1000 X block bs =
     (let blockchain = Blockchain_new X;
          genesis_hash = Blockchain_tip blockchain
      in bind_res (Blockchain_insert X blockchain block) (\<lambda>c.
         bind_res (insert1000_loop X bs
             \<lparr>chain = c, block_map = [genesis_hash \<mapsto> 0, hash_block X block \<mapsto> 1], tip_h = 0,
              test_tip = genesis_hash\<rparr>) (\<lambda>s.
           Ret (Blockchain_tip (chain s) = test_tip s))))"

text \<open>The test of \<open>src/src/miner/mod.rs\<close>: \<open>test_new\<close>, and the loop over the received blocks.\<close>

definition test_new :: "Crates \<Rightarrow> Node \<times> Miner" where
  "test_new X = (\<lparr>blockchain = Blockchain_new X, mempool = Mempool_new, block_state = Map.empty\<rparr>, Miner_new)"

fun miner_three_block :: "Crates \<Rightarrow> Block \<Rightarrow> Block list \<Rightarrow> bool" where
  "miner_three_block X block_prev [] = True"
| "miner_three_block X block_prev (block_next # bs) =
     (if hash_block X block_prev = get_parent block_next then miner_three_block X block_next bs else False)"

text \<open>The tests of \<open>src/src/types/merkle.rs\<close> and \<open>src/src/types/address.rs\<close>.\<close>

definition test_key :: H256 where
  "test_key = H256 [0x0a, 0x0b, 0x0c, 0x0d, 0x0e, 0x0f, 0x0e, 0x0d, 0x0a, 0x0b, 0x0c, 0x0d, 0x0e, 0x0f, 0x0e, 0x0d,
     0x0a, 0x0b, 0x0c, 0x0d, 0x0e, 0x0f, 0x0e, 0x0d, 0x0a, 0x0b, 0x0c, 0x0d, 0x0e, 0x0f, 0x0e, 0x0d]"

definition test_datum :: H256 where
  "test_datum = H256 [0x01, 0x01, 0x01, 0x01, 0x01, 0x01, 0x01, 0x01, 0x01, 0x01, 0x01, 0x01, 0x01, 0x01, 0x01, 0x01,
     0x01, 0x01, 0x01, 0x01, 0x01, 0x01, 0x01, 0x01, 0x01, 0x01, 0x01, 0x01, 0x01, 0x01, 0x02, 0x02]"

definition gen_merkle_tree_data :: "H256 list" where
  "gen_merkle_tree_data = [test_key, test_datum]"

definition test_root :: H256 where
  "test_root = H256 [0x6b, 0x78, 0x77, 0x18, 0x21, 0x0e, 0x0b, 0x3b, 0x60, 0x88, 0x14, 0xe0, 0x4e, 0x61, 0xfd, 0xe0,
     0x6d, 0x0d, 0xf7, 0x94, 0x31, 0x9a, 0x12, 0x16, 0x2f, 0x28, 0x74, 0x12, 0xdf, 0x3e, 0xc9, 0x20]"

definition merkle_root_test :: "Crates \<Rightarrow> bool res option" where
  "merkle_root_test X =
     map_option (\<lambda>t. bind_res t (\<lambda>tree. bind_res (mt_root tree) (\<lambda>root. Ret (root = test_root))))
       (mt_new (sha256 X) (H256_hash (sha256 X)) gen_merkle_tree_data)"

definition merkle_proof_test :: "Crates \<Rightarrow> bool res option" where
  "merkle_proof_test X =
     map_option (\<lambda>t. bind_res t (\<lambda>tree. bind_res (mt_proof tree 0) (\<lambda>prf. Ret (prf = [random_block_difficulty]))))
       (mt_new (sha256 X) (H256_hash (sha256 X)) gen_merkle_tree_data)"

definition merkle_verifying_test :: "Crates \<Rightarrow> bool res option" where
  "merkle_verifying_test X =
     map_option (\<lambda>t. bind_res t (\<lambda>tree. bind_res (mt_proof tree 0) (\<lambda>prf. bind_res (mt_root tree) (\<lambda>root.
       bind_res (slice_index gen_merkle_tree_data 0) (\<lambda>d.
         Ret (mt_verify (sha256 X) root (H256_hash (sha256 X) d) prf 0 (length gen_merkle_tree_data)))))))
       (mt_new (sha256 X) (H256_hash (sha256 X)) gen_merkle_tree_data)"

definition from_a_test_key :: "Crates \<Rightarrow> bool" where
  "from_a_test_key X \<longleftrightarrow>
     from_public_key_bytes (sha256 X) (h256_bytes test_key) =
       Address [0x18, 0x51, 0xa0, 0xea, 0xe0, 0x06, 0x0a, 0x13, 0x2c, 0xf0, 0xf6, 0x4a, 0x0f, 0xfa, 0xea, 0x24,
         0x8d, 0xe6, 0xcb, 0xa0]"

text \<open>The digests that the comments of the tests state.\<close>

definition test_key_hash :: H256 where
  "test_key_hash = H256 [0xb6, 0x95, 0x66, 0xbe, 0x6e, 0x17, 0x20, 0x87, 0x2f, 0x73, 0x65, 0x1d, 0x18, 0x51, 0xa0, 0xea,
     0xe0, 0x06, 0x0a, 0x13, 0x2c, 0xf0, 0xf6, 0x4a, 0x0f, 0xfa, 0xea, 0x24, 0x8d, 0xe6, 0xcb, 0xa0]"

definition documented_digests :: "Crates \<Rightarrow> bool" where
  "documented_digests X \<longleftrightarrow> sha256 X (h256_bytes test_key) = test_key_hash \<and>
     sha256 X (h256_bytes test_datum) = random_block_difficulty \<and>
     sha256 X (h256_bytes test_key_hash @ h256_bytes random_block_difficulty) = test_root"

section \<open>Random values\<close>

text \<open>
  When \<open>from_pkcs8\<close> accepts what \<open>generate_pkcs8\<close> returns and gives pairs that sign, as
  \<open>ring\<close> documents, a generated pair signs transactions that \<open>verify\<close> accepts.
\<close>

lemma random_key_signs:
  assumes "generate_pkcs8 rng = Some bytes" and "from_pkcs8 bytes = Some k"
    and "\<And>msg. ed25519_verify X (public_key k) msg (ed25519_sign X k msg)"
  shows "key_pair_random generate_pkcs8 from_pkcs8 rng = Ret k \<and> verify_tx X t (public_key k) (sign X t k)"
  using assms by (simp add: key_pair_random_def verify_tx_def sign_def Let_def)

lemma generate_random_hash_eq: "length bs = 32 \<Longrightarrow> generate_random_hash bs = Ret (H256 bs)"
  by (simp add: generate_random_hash_def H256_from_ref_def copy_from_slice_def)

section \<open>The block tree\<close>

lemma generate_random_block_eq:
  "generate_random_block X n ms par =
     Some (Ret \<lparr>head = \<lparr>parent = par, nonce = n, difficulty = random_block_difficulty, timestamp = ms,
                        merkle_root = h256_fill 0\<rparr>,
                cont = \<lparr>st = []\<rparr>\<rparr>)"
  by (simp add: generate_random_block_def mt_new_def mt_root_def)

lemma insert1000_step:
  assumes "blocks (chain s) (parent (head b)) = Some (pb, pn)" and "blocks (chain s) (tip (chain s)) = Some (tb, tn)"
    and "block_map s (parent (head b)) = Some pn" and "unat pn + 1 < 2 ^ 32"
  obtains s' where "insert1000_body X b s = Ret s'" "Blockchain_insert X (chain s) b = Ret (chain s')"
    "blocks (chain s') = (blocks (chain s))(hash_block X b \<mapsto> (b, pn + 1))"
    "block_map s' = (block_map s)(hash_block X b \<mapsto> pn + 1)"
    "tip (chain s') = (if tn < pn + 1 then hash_block X b else tip (chain s))"
    "tip_h s' = (if tip_h s < pn + 1 then pn + 1 else tip_h s)"
    "test_tip s' = (if tip_h s < pn + 1 then hash_block X b else test_tip s)"
proof -
  have "\<exists>c. Blockchain_insert X (chain s) b = Ret c \<and> blocks c = (blocks (chain s))(hash_block X b \<mapsto> (b, pn + 1)) \<and>
      tip c = (if tn < pn + 1 then hash_block X b else tip (chain s))"
    using assms by (simp add: Blockchain_insert_def add_checked_no_overflow Let_def)
  then obtain c where c: "Blockchain_insert X (chain s) b = Ret c"
    "blocks c = (blocks (chain s))(hash_block X b \<mapsto> (b, pn + 1))"
    "tip c = (if tn < pn + 1 then hash_block X b else tip (chain s))" by blast
  let ?s = "s\<lparr>chain := c, block_map := (block_map s)(hash_block X b \<mapsto> pn + 1)\<rparr>"
  let ?s' = "if tip_h s < pn + 1 then ?s\<lparr>tip_h := pn + 1, test_tip := hash_block X b\<rparr> else ?s"
  have "insert1000_body X b s = Ret ?s'"
    using assms c by (simp add: insert1000_body_def add_checked_no_overflow Let_def)
  from this show thesis by (rule that [of ?s']) (simp_all add: c)
qed

text \<open>The draws: each block goes below a block of the tree, and its hash is new.\<close>

fun picks_ok :: "Crates \<Rightarrow> Blockchain \<Rightarrow> Block list \<Rightarrow> bool" where
  "picks_ok X c [] \<longleftrightarrow> True"
| "picks_ok X c (b # bs) \<longleftrightarrow> blocks c (parent (head b)) \<noteq> None \<and> blocks c (hash_block X b) = None \<and>
     (case Blockchain_insert X c b of Ret c' \<Rightarrow> picks_ok X c' bs | Panic _ \<Rightarrow> True)"

definition test_inv :: "Crates \<Rightarrow> nat \<Rightarrow> InsertTest \<Rightarrow> bool" where
  "test_inv X k s \<longleftrightarrow> chain_inv X (chain s) \<and> (\<forall>h. block_map s h = map_option snd (blocks (chain s) h)) \<and>
     (\<forall>h b n. blocks (chain s) h = Some (b, n) \<longrightarrow> unat n \<le> k)"

lemma test_inv_step:
  assumes inv: "test_inv X k s" and picks: "picks_ok X (chain s) (b # bs)" and k: "k + 1 < 2 ^ 32"
  obtains s' pb pn tb tn where "insert1000_body X b s = Ret s'" "test_inv X (k + 1) s'" "picks_ok X (chain s') bs"
    "blocks (chain s) (parent (head b)) = Some (pb, pn)" "blocks (chain s) (tip (chain s)) = Some (tb, tn)"
    "pn \<le> tn" "unat pn \<le> k" "blocks (chain s') = (blocks (chain s))(hash_block X b \<mapsto> (b, pn + 1))"
    "tip (chain s') = (if tn < pn + 1 then hash_block X b else tip (chain s))"
    "tip_h s' = (if tip_h s < pn + 1 then pn + 1 else tip_h s)"
    "test_tip s' = (if tip_h s < pn + 1 then hash_block X b else test_tip s)"
proof -
  have ci: "chain_inv X (chain s)" and bm: "\<And>h. block_map s h = map_option snd (blocks (chain s) h)"
    and le: "\<And>h b n. blocks (chain s) h = Some (b, n) \<Longrightarrow> unat n \<le> k"
    using inv unfolding test_inv_def by blast+
  obtain pb pn where p: "blocks (chain s) (parent (head b)) = Some (pb, pn)" using picks by auto
  obtain tb tn where t: "blocks (chain s) (tip (chain s)) = Some (tb, tn)"
    and top: "\<And>h b n. blocks (chain s) h = Some (b, n) \<Longrightarrow> n \<le> tn"
    using ci by (auto simp: chain_inv_def tip_inv_def)
  have pn: "unat pn \<le> k" by (rule le [OF p])
  then have fit: "unat pn + 1 < 2 ^ 32" using k by simp
  have bp: "block_map s (parent (head b)) = Some pn" by (simp add: bm p)
  obtain s' where s': "insert1000_body X b s = Ret s'"
    "Blockchain_insert X (chain s) b = Ret (chain s')"
    "blocks (chain s') = (blocks (chain s))(hash_block X b \<mapsto> (b, pn + 1))"
    "block_map s' = (block_map s)(hash_block X b \<mapsto> pn + 1)"
    "tip (chain s') = (if tn < pn + 1 then hash_block X b else tip (chain s))"
    "tip_h s' = (if tip_h s < pn + 1 then pn + 1 else tip_h s)"
    "test_tip s' = (if tip_h s < pn + 1 then hash_block X b else test_tip s)"
    by (rule insert1000_step [OF p t bp fit, of X])
  have room: "height_room X (chain s)" using le k by (fastforce simp: height_room_def)
  have "chain_inv X (chain s')"
    by (rule chain_inv_insert [OF ci s'(2) _ room]) (use picks in \<open>simp add: insertable_def\<close>)
  moreover have "unat (pn + 1) = Suc (unat pn)" using fit by (simp add: unat_word_ariths)
  ultimately have "test_inv X (k + 1) s'" using bm le pn by (auto simp: test_inv_def s' intro: le_SucI)
  moreover have "picks_ok X (chain s') bs" using picks s'(2) by simp
  ultimately show thesis using s' p t top [OF p] pn by (intro that)
qed

text \<open>Once a block has height two, the test's bookkeeping follows the tree.\<close>

lemma insert1000_synced:
  "test_inv X k s \<Longrightarrow> picks_ok X (chain s) bs \<Longrightarrow> k + length bs < 2 ^ 32 \<Longrightarrow>
     \<exists>tb. blocks (chain s) (tip (chain s)) = Some (tb, tip_h s) \<Longrightarrow> tip (chain s) = test_tip s \<Longrightarrow>
     \<exists>s'. insert1000_loop X bs s = Ret s' \<and> tip (chain s') = test_tip s'"
proof (induction bs arbitrary: k s)
  case (Cons b bs)
  have "k + 1 < 2 ^ 32" using Cons.prems(3) by simp
  from Cons.prems(1,2) this show ?case
  proof (cases rule: test_inv_step)
    case (1 s' pb pn tb tn)
    then have "tn = tip_h s" using Cons.prems(4) by auto
    with 1 Cons.prems(4,5) have "\<exists>tb. blocks (chain s') (tip (chain s')) = Some (tb, tip_h s')"
      "tip (chain s') = test_tip s'" using Cons.prems(2) by auto
    with Cons.IH [OF 1(2,3)] Cons.prems(3) 1(1) show ?thesis by simp
  qed
qed auto

text \<open>Before, the tree keeps the first block as its tip, which the test does not record.\<close>

lemma insert1000_unsynced:
  "test_inv X k s \<Longrightarrow> picks_ok X (chain s) bs \<Longrightarrow> k + length bs < 2 ^ 32 \<Longrightarrow>
     \<exists>tb. blocks (chain s) (tip (chain s)) = Some (tb, 1) \<Longrightarrow> tip_h s \<le> 1 \<Longrightarrow> test_tip s \<noteq> tip (chain s) \<Longrightarrow>
     \<exists>s'. insert1000_loop X bs s = Ret s' \<and>
       (tip (chain s') = test_tip s' \<longleftrightarrow> (\<exists>b\<in>set bs. parent (head b) \<noteq> genesis_hash X))"
proof (induction bs arbitrary: k s)
  case Nil
  then show ?case by simp
next
  case (Cons b bs)
  have k: "k + 1 < 2 ^ 32" using Cons.prems(3) by simp
  have tree: "tree_inv X (blocks (chain s))" using Cons.prems(1) by (simp add: test_inv_def chain_inv_def)
  from Cons.prems(1,2) k show ?case
  proof (cases rule: test_inv_step)
    case (1 s' pb pn tb tn)
    have tn: "tn = 1" using 1(5) Cons.prems(4) by auto
    have len: "k + 1 + length bs < 2 ^ 32" using Cons.prems(3) by simp
    have ne: "hash_block X b \<noteq> tip (chain s)" using Cons.prems(2,4) by auto
    show ?thesis
    proof (cases "parent (head b) = genesis_hash X")
      case True
      then have pn: "pn = 0" using tree_inv_genesis [OF tree] 1(4) by auto
      have t': "tip (chain s') = tip (chain s)" using 1(9) pn tn by simp
      then have "\<exists>tb. blocks (chain s') (tip (chain s')) = Some (tb, 1)" using 1(8) ne Cons.prems(4) by simp
      moreover have "tip_h s' \<le> 1" unfolding 1(10) pn using Cons.prems(5) by (cases "tip_h s < 0 + 1") simp_all
      moreover have "test_tip s' \<noteq> tip (chain s')" using 1(11) ne t' Cons.prems(6) by simp
      ultimately have "tip_h s' \<le> 1" "test_tip s' \<noteq> tip (chain s')"
        "\<exists>tb. blocks (chain s') (tip (chain s')) = Some (tb, 1)" by blast+
      from Cons.IH [OF 1(2,3) len this(3,1,2)] True 1(1) show ?thesis by simp
    next
      case False
      then have "pn \<noteq> 0" using tree_inv_root [OF tree] 1(4) by blast
      then have "unat pn \<noteq> 0" by (simp add: unat_eq_zero)
      moreover have "unat pn \<le> 1" using 1(6) tn by (simp add: word_le_nat_alt)
      ultimately have "unat pn = unat (1 :: u32)" by simp
      then have "pn = 1" by (simp only: word_unat_eq_iff)
      moreover have small: "tip_h s < 2" using Cons.prems(5) by (simp add: word_le_nat_alt word_less_nat_alt)
      ultimately have "tip (chain s') = hash_block X b" "test_tip s' = hash_block X b" "tip_h s' = 2"
        "blocks (chain s') (hash_block X b) = Some (b, 2)"
        using 1(8-11) tn small by simp_all
      then have "\<exists>s''. insert1000_loop X bs s' = Ret s'' \<and> tip (chain s'') = test_tip s''"
        by (intro insert1000_synced [OF 1(2,3) len]) simp_all
      with False 1(1) show ?thesis by auto
    qed
  qed
qed

section \<open>Properties\<close>

text \<open>
  The insertion tests. \<open>insert_one\<close> passes for every random block. \<open>insert1000\<close>
  compares the tip with a reference that follows the heights of the inserted blocks; when
  all hashes are new it passes if and only if some random pick is not the genesis block: the
  reference starts without the first block, so it misses the tip as long as no block has
  height two.
\<close>

theorem insertion_tests:
  assumes "picks_ok X (Blockchain_new X) (block # bs)" and "parent (head block) = genesis_hash X"
    and "length bs + 1 < 2 ^ 32"
  shows "insert_one X rand_nonce millis = Some (Ret True) \<and>
    insert1000 X block bs = Ret (\<exists>b\<in>set bs. parent (head b) \<noteq> genesis_hash X)"
proof -
  let ?c = "Blockchain_new X" and ?h = "hash_block X block"
  have one: "insert_one X rand_nonce millis = Some (Ret True)"
    by (simp add: insert_one_def generate_random_block_eq Blockchain_insert_def Blockchain_new_def
        Blockchain_tip_def add_checked_no_overflow Let_def)
  have ne: "?h \<noteq> genesis_hash X" using assms(1) by (auto simp: Blockchain_new_def Let_def)
  have "\<exists>c. Blockchain_insert X ?c block = Ret c \<and> blocks c = (blocks ?c)(?h \<mapsto> (block, 1)) \<and> tip c = ?h"
    using assms(2) by (simp add: Blockchain_insert_def Blockchain_new_def add_checked_no_overflow Let_def)
  then obtain c where c: "Blockchain_insert X ?c block = Ret c" "blocks c = (blocks ?c)(?h \<mapsto> (block, 1))" "tip c = ?h"
    by blast
  let ?s = "\<lparr>chain = c, block_map = [genesis_hash X \<mapsto> 0, ?h \<mapsto> 1], tip_h = 0, test_tip = genesis_hash X\<rparr>"
  have "height_room X ?c" by (simp add: height_room_def Blockchain_new_def Let_def)
  then have "chain_inv X c"
    by (intro chain_inv_insert [OF chain_inv_new c(1)]) (use assms(1) in \<open>simp add: insertable_def\<close>)
  then have "test_inv X 1 ?s"
    unfolding test_inv_def by (auto simp: c(2) Blockchain_new_def Let_def)
  moreover have "picks_ok X (chain ?s) bs" using assms(1) c(1) by simp
  ultimately have "\<exists>s'. insert1000_loop X bs ?s = Ret s' \<and>
      (tip (chain s') = test_tip s' \<longleftrightarrow> (\<exists>b\<in>set bs. parent (head b) \<noteq> genesis_hash X))"
    using assms(3) ne by (intro insert1000_unsynced [where k = 1]) (simp_all add: c)
  then obtain s' where s': "insert1000_loop X bs ?s = Ret s'"
    "(tip (chain s') = test_tip s') = (\<exists>b\<in>set bs. parent (head b) \<noteq> genesis_hash X)" by blast
  have g: "Blockchain_tip ?c = genesis_hash X" by (simp add: Blockchain_tip_def Blockchain_new_def Let_def)
  have "insert1000 X block bs = Ret (tip (chain s') = test_tip s')"
    unfolding insert1000_def Let_def g by (simp add: c(1) s'(1) Blockchain_tip_def)
  with one s'(2) show ?thesis by simp
qed

theorem insertion_tests_witness:
  "insert1000 (demo_crates True) (demo_block 1 (pad32 [0, 1, 0]) []) [demo_block 2 (pad32 [0, 1, 0]) []] = Ret False \<and>
   insert1000 (demo_crates True) (demo_block 1 (pad32 [0, 1, 0]) []) [demo_block 2 (pad32 [0, 2, 1]) []] = Ret True"
proof -
  let ?X = "demo_crates True" and ?b = "demo_block 1 (pad32 [0, 1, 0]) []"
  have "picks_ok ?X (Blockchain_new ?X) (?b # [b'])" if "b' = demo_block 2 (pad32 [0, 1, 0]) [] \<or> b' = demo_block 2 (pad32 [0, 2, 1]) []" for b'
    using that by (auto simp: Blockchain_new_def Blockchain_insert_def add_checked_no_overflow Let_def)
  from insertion_tests [OF this, of "demo_block 2 (pad32 [0, 1, 0]) []"]
    insertion_tests [OF this, of "demo_block 2 (pad32 [0, 2, 1]) []"] show ?thesis by simp
qed

lemma miner_loop_parents:
  "miner_loop X nd m inps = Some (Ret (nd', m', bs)) \<Longrightarrow> b \<in> set bs \<Longrightarrow> parent (head b) = tip (blockchain nd)"
proof (induction inps arbitrary: nd m bs)
  case (Cons inp inps)
  from Cons.prems(1) obtain nd1 m1 sent where t: "miner_turn X nd m inp = Some (Ret (nd1, m1, sent))"
    by (auto split: option.splits res.splits)
  with Cons.prems(1) obtain bs1 where l: "miner_loop X nd1 m1 inps = Some (Ret (nd', m', bs1))"
    "bs = (case sent of None \<Rightarrow> bs1 | Some b \<Rightarrow> b # bs1)" by (auto simp: res_simps)
  have "blockchain nd1 = blockchain nd" using miner_turn_frame [OF t] by (metis Node.select_convs(1) Node.surjective Node.update_convs(2))
  with Cons.IH [OF l(1)] Cons.prems(2) l(2) t show ?case
    by (auto dest: miner_turn_mined split: option.splits)
qed simp

text \<open>
  The miner's test. \<open>test_new\<close> gives the miner a block tree to which nobody adds its
  blocks, so every block it sends has the genesis block as its parent; the test, which
  asserts that each block is the parent of the next, fails at the second block, unless the
  hash of the first collides with that of the genesis block.
\<close>

theorem miner_test_fails:
  assumes "miner_loop X (fst (test_new X)) (snd (test_new X)) inps = Some (Ret (nd', m', b # b' # bs))"
    and "hash_block X b \<noteq> genesis_hash X"
  shows "parent (head b) = genesis_hash X \<and> parent (head b') = genesis_hash X \<and>
    \<not> miner_three_block X b (b' # bs)"
proof -
  have "tip (blockchain (fst (test_new X))) = genesis_hash X" by (simp add: test_new_def Blockchain_new_def Let_def)
  with miner_loop_parents [OF assms(1)] assms(2) show ?thesis by (simp add: get_parent_def)
qed

lemma demo_test_turn:
  assumes "c = 0 \<or> c = 1"
  shows "miner_turn (demo_crates True) (fst (test_new (demo_crates True))) (demo_miner c) (demo_miner_input Nothing) =
    Some (Ret (fst (test_new (demo_crates True)), demo_miner (c + 1), Some (demo_block 1 (pad32 [0, 1, 0]) [])))"
proof -
  let ?X = "demo_crates True" and ?nd = "fst (test_new (demo_crates True))"
  have "miner_turn ?X ?nd (demo_miner c) (demo_miner_input Nothing) = mine_once ?X ?nd (demo_miner c) (demo_miner_input Nothing)"
    by (simp add: miner_turn_def demo_miner_def demo_miner_input_def)
  moreover have "attempt ?X ?nd (demo_miner c) (demo_miner_input Nothing) 0 = demo_block 1 (pad32 [0, 1, 0]) []"
    by (simp add: attempt_def selection_def demo_miner_def demo_miner_input_def test_new_def Blockchain_new_def Let_def
        demo_block_def)
  moreover have "selection (demo_miner c) (demo_miner_input Nothing) = ([], [])"
    by (simp add: selection_def demo_miner_def demo_miner_input_def)
  moreover have "clock (demo_miner_input Nothing) = Some 0" "receiver_alive (demo_miner_input Nothing)"
    by (simp_all add: demo_miner_input_def)
  ultimately show ?thesis using assms
    by (auto simp: mine_once_eq demo_pow inc_i32_def Let_def remove_mined_def demo_miner_def)
qed

theorem miner_test_fails_witness:
  "\<exists>inps nd' m'. miner_loop (demo_crates True) (fst (test_new (demo_crates True))) (snd (test_new (demo_crates True))) inps =
       Some (Ret (nd', m', [demo_block 1 (pad32 [0, 1, 0]) [], demo_block 1 (pad32 [0, 1, 0]) []])) \<and>
     \<not> miner_three_block (demo_crates True) (demo_block 1 (pad32 [0, 1, 0]) []) [demo_block 1 (pad32 [0, 1, 0]) []]"
proof -
  let ?X = "demo_crates True" and ?nd = "fst (test_new (demo_crates True))" and ?i = "demo_miner_input Nothing"
  have "miner_turn ?X ?nd (snd (test_new ?X)) (demo_miner_input (Received (Start 0))) = Some (Ret (?nd, demo_miner 0, None))"
    by (simp add: miner_turn_def test_new_def Miner_new_def demo_miner_input_def miner_react_def demo_miner_def)
  then have r: "miner_loop ?X ?nd (snd (test_new ?X)) [demo_miner_input (Received (Start 0)), ?i, ?i] =
      Some (Ret (?nd, demo_miner (1 + 1), [demo_block 1 (pad32 [0, 1, 0]) [], demo_block 1 (pad32 [0, 1, 0]) []]))"
    using demo_test_turn [of 0] demo_test_turn [of 1] by simp
  have "hash_block ?X (demo_block 1 (pad32 [0, 1, 0]) []) \<noteq> genesis_hash ?X" by simp
  from miner_test_fails [OF r this] r show ?thesis by blast
qed

lemma two_leaves:
  assumes "length data = 2"
  obtains t where "mt_new sha hash data = Some (Ret t)"
    "mt_root t = Ret (combine sha (hash (data ! 0)) (hash (data ! 1)))" "mt_proof t 0 = Ret [hash (data ! 1)]"
    "mt_verify sha (combine sha (hash (data ! 0)) (hash (data ! 1))) (hash (data ! 0)) [hash (data ! 1)] 0 (length data)"
proof -
  obtain a b where d: "data = [a, b]" using assms by (auto simp: numeral_2_eq_2 length_Suc_conv)
  obtain t r p where t: "mt_new sha hash data = Some (Ret t)" "mt_root t = Ret r" "mt_proof t 0 = Ret p"
    "mt_verify sha r (hash (data ! 0)) p 0 (length data)" "p = mproof sha (pad_level (map hash data)) 0"
    "r = mroot sha (pad_level (map hash data))"
    using merkle_complete_obtain [of 0 data sha hash] assms by auto
  have "p = [hash b]" "r = combine sha (hash a) (hash b)"
    using t(5,6) by (simp_all add: d pad_level_def mproof.simps mroot.simps next_level_def numeral_eq_Suc)
  with t d show thesis by (intro that) simp_all
qed

text \<open>
  The tests of hashes. Given the three digests that their comments state, the Merkle tests
  and the address test pass; \<open>merkle_verifying\<close> passes for any digest function.
\<close>

theorem digest_tests_pass:
  assumes "documented_digests X"
  shows "merkle_root_test X = Some (Ret True) \<and> merkle_proof_test X = Some (Ret True) \<and>
    merkle_verifying_test X = Some (Ret True) \<and> from_a_test_key X"
proof -
  obtain t where t: "mt_new (sha256 X) (H256_hash (sha256 X)) gen_merkle_tree_data = Some (Ret t)"
    "mt_root t = Ret (combine (sha256 X) (H256_hash (sha256 X) test_key) (H256_hash (sha256 X) test_datum))"
    "mt_proof t 0 = Ret [H256_hash (sha256 X) test_datum]"
    "mt_verify (sha256 X) (combine (sha256 X) (H256_hash (sha256 X) test_key) (H256_hash (sha256 X) test_datum))
       (H256_hash (sha256 X) test_key) [H256_hash (sha256 X) test_datum] 0 (length gen_merkle_tree_data)"
    by (rule two_leaves [of gen_merkle_tree_data "sha256 X" "H256_hash (sha256 X)"]) (simp_all add: gen_merkle_tree_data_def)
  have h: "H256_hash (sha256 X) test_key = test_key_hash" "H256_hash (sha256 X) test_datum = random_block_difficulty"
    "combine (sha256 X) test_key_hash random_block_difficulty = test_root"
    using assms by (simp_all add: documented_digests_def H256_hash_def combine_def)
  have "from_a_test_key X"
    using assms by (simp add: from_a_test_key_def documented_digests_def from_public_key_bytes_def slice_array_def test_key_hash_def)
  then show ?thesis
    using t h by (simp add: merkle_root_test_def merkle_proof_test_def merkle_verifying_test_def gen_merkle_tree_data_def)
qed

theorem digest_tests_pass_witness:
  "\<exists>X. documented_digests X \<and> merkle_root_test X = Some (Ret True)"
proof -
  let ?X = "(demo_crates True)\<lparr>sha256 := \<lambda>bs. if bs = h256_bytes test_key then test_key_hash
    else if bs = h256_bytes test_datum then random_block_difficulty else test_root\<rparr>"
  have "h256_bytes test_datum \<noteq> h256_bytes test_key" by (simp add: test_key_def test_datum_def)
  moreover have "bs @ cs \<noteq> h256_bytes h" if "length bs = 32" "length cs = 32" for bs cs :: "u8 list" and h
    using that length_h256_bytes [of h] by (auto dest!: arg_cong [where f = length])
  ultimately have "documented_digests ?X" by (simp add: documented_digests_def)
  with digest_tests_pass [OF this] show ?thesis by blast
qed

end
