(* ===== verification/Harness.thy ===== *)
theory Harness
  imports Peers NetWorker UnitTests
begin

text \<open>
  The test support of the network: the handle without a connection and the receiver behind
  it (\<open>src/src/network/peer.rs\<close>), the server handle without a server
  (\<open>src/src/network/server.rs\<close>), the sender of messages to a worker
  (\<open>src/src/network/worker.rs\<close>), and the three exchanges for which they are made.
\<close>

section \<open>The program\<close>

text \<open>
  The handle has the local address; the receiver is the number of its queue. A receiver
  whose queue is empty waits: the outer \<open>None\<close>.
\<close>

definition test_handle :: "'a \<Rightarrow> 'a Server \<Rightarrow> ('a PeerHandle \<times> nat) \<times> 'a Server" where
  "test_handle local s =
     ((\<lparr>h_addr = local, write_queue = next_queue s\<rparr>, next_queue s), s\<lparr>next_queue := Suc (next_queue s)\<rparr>)"

definition PeerTestReceiver_recv :: "Crates \<Rightarrow> nat \<Rightarrow> 'a Server \<Rightarrow> (Message \<times> 'a Server) res option" where
  "PeerTestReceiver_recv X r s =
     (case queues s r of
        [] \<Rightarrow> None
      | bytes # rest \<Rightarrow>
          Some (bind_res (unwrap (deserialize_msg X bytes)) (\<lambda>msg.
            Ret (msg, s\<lparr>queues := (queues s)(r := rest)\<rparr>))))"

definition Server_new_for_test :: "'a ServerSignal list" where
  "Server_new_for_test = []"

definition ServerTestReceiver_recv :: "'a ServerSignal list \<Rightarrow> (Message option \<times> 'a ServerSignal list) option" where
  "ServerTestReceiver_recv chan =
     (case chan of
        [] \<Rightarrow> None
      | sig # rest \<Rightarrow> Some (case sig of BroadcastMessage msg \<Rightarrow> Some msg | _ \<Rightarrow> None, rest))"

definition TestMsgSender_new :: "(u8 list \<times> 'a PeerHandle) list" where
  "TestMsgSender_new = []"

definition TestMsgSender_send ::
  "Crates \<Rightarrow> 'a \<Rightarrow> Message \<Rightarrow> (u8 list \<times> 'a PeerHandle) list \<Rightarrow> 'a Server \<Rightarrow>
     nat \<times> (u8 list \<times> 'a PeerHandle) list \<times> 'a Server" where
  "TestMsgSender_send X local msg chan s =
     (let bytes = serialize_msg X msg;
          ((handle, r), s') = test_handle local s
      in (r, chan @ [(bytes, handle)], s'))"

text \<open>
  A turn of the worker under test: what it sends goes to the handle or to the server
  handle, whose receiver the test holds.
\<close>

fun carry_out :: "Crates \<Rightarrow> 'a PeerHandle \<Rightarrow> action list \<Rightarrow> 'a Server \<times> 'a ServerSignal list \<Rightarrow> ('a Server \<times> 'a ServerSignal list) res" where
  "carry_out X h [] (s, ctl) = Ret (s, ctl)"
| "carry_out X h (Reply m # out) (s, ctl) = carry_out X h out (Handle_write X h m s, ctl)"
| "carry_out X h (Broadcast m # out) (s, ctl) =
     bind_res (Server_Handle_broadcast True ctl m) (\<lambda>ctl'. carry_out X h out (s, ctl'))"

definition tested_turn ::
  "Crates \<Rightarrow> Node \<Rightarrow> Block list \<Rightarrow> (u8 list \<times> 'a PeerHandle) list \<Rightarrow> 'a Server \<Rightarrow> 'a ServerSignal list \<Rightarrow>
     (Node \<times> Block list \<times> 'a Server \<times> 'a ServerSignal list) res option" where
  "tested_turn X nd orphans chan s ctl =
     (case chan of
        [] \<Rightarrow> None
      | (raw, h) # rest \<Rightarrow>
          Some (bind_res (worker_step X nd orphans raw) (\<lambda>(nd', os', out).
            bind_res (carry_out X h out (s, ctl)) (\<lambda>r. Ret (nd', os', r)))))"

text \<open>
  A message through the harness: what the receiver behind the handle gets, and what the
  receiver of the server handle gets.
\<close>

definition exchange ::
  "Crates \<Rightarrow> 'a \<Rightarrow> Node \<Rightarrow> Message \<Rightarrow> (Message res option \<times> Message option option) res option" where
  "exchange X local nd msg =
     (let (r, chan, s) = TestMsgSender_send X local msg TestMsgSender_new Server_new
      in map_option (\<lambda>t. bind_res t (\<lambda>(nd', os', s', ctl).
           Ret (map_option (\<lambda>a. bind_res a (\<lambda>(m, _). Ret m)) (PeerTestReceiver_recv X r s'),
                map_option fst (ServerTestReceiver_recv ctl)))) (tested_turn X nd [] chan s Server_new_for_test))"

section \<open>The exchanges\<close>

lemma exchange_reply:
  assumes "deserialize_msg X (serialize_msg X msg) = Some msg" and "deserialize_msg X (serialize_msg X m) = Some m"
    and "handle_message X nd [] msg = Ret (nd', os', [Reply m])"
  shows "exchange X local nd msg = Some (Ret (Some (Ret m), None))"
  using assms
  by (simp add: exchange_def TestMsgSender_send_def TestMsgSender_new_def test_handle_def tested_turn_def worker_step_def
      PeerTestReceiver_recv_def ServerTestReceiver_recv_def Server_new_for_test_def Let_def queues_Handle_write)
    (simp add: Server_new_def)

lemma exchange_broadcast:
  assumes "deserialize_msg X (serialize_msg X msg) = Some msg"
    and "handle_message X nd [] msg = Ret (nd', os', [Broadcast m])"
  shows "exchange X local nd msg = Some (Ret (None, Some (Some m)))"
  using assms
  by (simp add: exchange_def TestMsgSender_send_def TestMsgSender_new_def test_handle_def tested_turn_def worker_step_def
      PeerTestReceiver_recv_def ServerTestReceiver_recv_def Server_new_for_test_def Let_def Server_Handle_broadcast_def control_send_def)
    (simp add: Server_new_def)

lemma handle_one_block:
  assumes "hash_block X b \<le> difficulty (head b)" and "blocks (blockchain nd) (hash_block X b) = None"
    and "blocks (blockchain nd) (parent (head b)) = Some (pb, n)" and "difficulty (head b) = difficulty (head pb)"
    and "accept_block X nd b (hash_block X b) = Ret (True, nd')"
  shows "handle_message X nd [] (Blocks [b]) = Ret (nd', [], [Broadcast (NewBlockHashes [hash_block X b])])"
  using assms by (simp add: handle_Blocks_def process_block_def new_blocks_loop.simps unorphan_loop.simps)

text \<open>
  The three tests of a worker pass: an unknown hash is asked for, a known block is sent,
  and a valid block on a known parent is announced.
\<close>

theorem worker_tests:
  assumes "\<forall>m. deserialize_msg X (serialize_msg X m) = Some m"
  shows "(\<forall>h. blocks (blockchain nd) h = None \<longrightarrow>
      exchange X local nd (NewBlockHashes [h]) = Some (Ret (Some (Ret (GetBlocks [h])), None))) \<and>
    (\<forall>h b n. blocks (blockchain nd) h = Some (b, n) \<longrightarrow>
      exchange X local nd (GetBlocks [h]) = Some (Ret (Some (Ret (Blocks [b])), None))) \<and>
    (\<forall>b pb n nd'. hash_block X b \<le> difficulty (head b) \<longrightarrow> blocks (blockchain nd) (hash_block X b) = None \<longrightarrow>
      blocks (blockchain nd) (parent (head b)) = Some (pb, n) \<longrightarrow> difficulty (head b) = difficulty (head pb) \<longrightarrow>
      accept_block X nd b (hash_block X b) = Ret (True, nd') \<longrightarrow>
      exchange X local nd (Blocks [b]) = Some (Ret (None, Some (Some (NewBlockHashes [hash_block X b])))))"
proof (intro conjI allI impI)
  fix h assume "blocks (blockchain nd) h = None"
  then show "exchange X local nd (NewBlockHashes [h]) = Some (Ret (Some (Ret (GetBlocks [h])), None))"
    using assms by (intro exchange_reply) (simp_all add: handle_NewBlockHashes_def)
next
  fix h b n assume "blocks (blockchain nd) h = Some (b, n)"
  then show "exchange X local nd (GetBlocks [h]) = Some (Ret (Some (Ret (Blocks [b])), None))"
    using assms by (intro exchange_reply) (simp_all add: handle_GetBlocks_def)
next
  fix b pb n nd' assume "hash_block X b \<le> difficulty (head b)" "blocks (blockchain nd) (hash_block X b) = None"
    "blocks (blockchain nd) (parent (head b)) = Some (pb, n)" "difficulty (head b) = difficulty (head pb)"
    "accept_block X nd b (hash_block X b) = Ret (True, nd')"
  from exchange_broadcast [OF _ handle_one_block [OF this], of local] assms
  show "exchange X local nd (Blocks [b]) = Some (Ret (None, Some (Some (NewBlockHashes [hash_block X b]))))" by simp
qed

end
