(* ===== verification/Spec2Isabelle.thy ===== *)
theory Spec2Isabelle
  imports Program Stranded Startup Variants Payments Wire UnitTests Harness
begin

text \<open>
  A model of the Bitcoin client under \<open>src/src\<close>, a node of a small proof-of-work network,
  and the theorems that make it correct.

  The program. \<open>main.rs\<close> creates three values shared behind mutexes (the block tree, the
  mempool, the ledger state recorded for every block) and starts threads: a P2P server
  (\<open>network/server.rs\<close>, \<open>network/peer.rs\<close>), a pool of network workers that handle the
  messages of \<open>network/message.rs\<close> (\<open>network/worker.rs\<close>), a miner (\<open>miner/mod.rs\<close>) with a
  worker that inserts what it finds (\<open>miner/worker.rs\<close>), a generator of payments
  (\<open>generator/tx_generator.rs\<close>) and an HTTP interface (\<open>api/mod.rs\<close>).

  Theories, in the order in which they build on each other.
  \<^item> \<open>Prelude\<close>: machine integers, \<open>'a res\<close> (a value or the reason of a panic), checked
    addition, indexing, and the collection \<open>res_simps\<close>.
  \<^item> \<open>Hash\<close> (\<open>types/hash.rs\<close>), \<open>Types\<close> (\<open>types/address.rs\<close>, the structs of
    \<open>types/transaction.rs\<close> and \<open>types/block.rs\<close>, \<open>network/message.rs\<close>): data, conversions,
    formatting, orders; \<open>H256\<close> is an instance of \<open>linorder\<close>.
  \<^item> \<open>Merkle\<close> (\<open>types/merkle.rs\<close>), \<open>Transactions\<close> (the functions of \<open>types/transaction.rs\<close>),
    \<open>Ledger\<close> (\<open>check_tx_state\<close> of \<open>network/worker.rs\<close>), \<open>Chain\<close> (\<open>blockchain/mod.rs\<close>).
  \<^item> \<open>Node\<close>: the shared state as a record, its start in \<open>main.rs\<close>, and the contract of
    accepting a block.
  \<^item> \<open>NetWorker\<close> (the message loop of \<open>network/worker.rs\<close>, one definition per arm and per
    loop); \<open>WorkerInv\<close> and \<open>WorkerChain\<close> (its invariants), \<open>Arrival\<close> (what a \<open>Blocks\<close>
    message adds, as a closure independent of order), \<open>Relay\<close> (two nodes on a connection,
    each with a pool of workers that have orphan buffers of their own), \<open>Stranded\<close> (orphans whose parent another thread inserts).
  \<^item> \<open>Threads\<close> (what it means that threads do not disturb each other), \<open>Races\<close> (the mempool
    lock by lock), \<open>Locks\<close> (the \<open>Blocks\<close> arm, the miner's worker and the readers of tree and
    ledger states, lock by lock), \<open>LockInv\<close> (what holds between the lock sections),
    \<open>Interleaving\<close> (any number of such threads, and their reachable states), \<open>Spending\<close> (what
    their ledger means for money: no double spending, a bounded supply), \<open>Variants\<close> (two blocks
    with the same header in two workers).
  \<^item> \<open>Control\<close>, \<open>Miner\<close> (\<open>miner/mod.rs\<close>), \<open>MinerWorker\<close> (\<open>miner/worker.rs\<close>),
    \<open>TxGenerator\<close> (\<open>generator/tx_generator.rs\<close>).
  \<^item> \<open>Server\<close> (framing), \<open>Peers\<close> (control task, peer handles), \<open>Wire\<close> (the connection of
    \<open>Relay\<close> in bytes), \<open>Api\<close> (\<open>api/mod.rs\<close>).
  \<^item> \<open>System\<close>: the threads of a node as a step relation and its reachable states; \<open>Payments\<close>: a
    payment through generator, miner, miner's worker and the network worker of a peer;
    \<open>Startup\<close>: the command line, the worker pool and the known peers (\<open>main.rs\<close>).
  \<^item> \<open>MinerLocks\<close>, \<open>GeneratorLocks\<close>: the miner and the generator, lock by lock. \<open>Process\<close>: the
    whole program, all threads, tasks and channels of \<open>main.rs\<close> over one state, and its
    projection to \<open>Interleaving\<close> and \<open>Peers\<close>; \<open>ProcessPool\<close>: its mempool and its panics;
    \<open>Program\<close>: a run of it, progress, and its properties.
  \<^item> \<open>UnitTests\<close>: the unit tests of the repository, as functions of what they draw;
    \<open>Harness\<close>: the test support of the network and the exchanges it is made for.
  \<^item> This theory: the properties of a node whose threads take turns.

  Conventions. A struct is a record, an enum a datatype, an integer a word of its width. A
  \<open>HashMap\<close> is a partial map; where the code iterates over one, the order is an argument,
  constrained by \<open>enumerates\<close>. A Rust function that can panic returns \<open>'a res\<close>; a loop
  that need not end is a \<open>partial_function\<close> into \<open>option\<close>. What a handler sends is a list
  of \<open>action\<close>s. The crates that are not in the repository (SHA-256, Ed25519, \<open>bincode\<close>,
  and whether the build checks overflows) are the fields of the record \<open>Crates\<close>, an argument
  of every definition that uses them; laws about them (no collision among the headers that
  occur, what is signed is verified, what is encoded is decoded) are hypotheses of the
  theorems, and \<open>demo_crates\<close> is the instance of the witnesses.

  Interfaces. \<open>chain_store\<close> (\<open>Chain\<close>, interpreted as \<open>bc\<close> on the block tree) is extended
  by \<open>block_acceptor\<close> (\<open>Node\<close>), interpreted as \<open>nw\<close> on the network worker's validator and
  as \<open>mw\<close> on the miner worker's; \<open>control_loop\<close> (\<open>Control\<close>) is interpreted as \<open>ml\<close> on the
  miner's signals and \<open>gl\<close> on the generator's; \<open>stream_codec\<close> (\<open>Server\<close>) as \<open>fr\<close> on frames;
  \<open>interference\<close> (\<open>Threads\<close>) as \<open>pl\<close> on the threads that use the mempool and as \<open>lk\<close> on those
  that use the tree and the ledger states.

  Hashes. The hash of a block covers its header only, and nothing checks that the header
  commits to the transactions. \<open>hashes_sound\<close> states what is expected of SHA-256: no two
  headers that occur have the same hash, none the zero hash. \<open>one_content\<close> says that no two
  blocks that occur share a header, which the code does not ensure; \<open>universe_sound\<close> is both.
  What is claimed of the whole program and of every interleaving rests on the first alone: the
  state recorded for a block is then the replay (\<open>replayed\<close>) of blocks with the hashes of its
  path, which with \<open>one_content\<close> are the blocks of the path. \<open>content_not_committed\<close> and
  \<open>variants_cross\<close> show what happens without it.

  Bounds. \<open>headers_sound\<close> keeps the number of headers below \<open>2 ^ 32\<close>, the range of the
  height. The Merkle loop, the only one of the
  model whose end is not evident, is shown to end for all data (\<open>mt_new_total\<close>). Loops over
  heights are measured by the height. There is no fuel.

  Groups of lemmas. Data: formatting and order of hashes, Merkle completeness and soundness
  up to collisions. Ledger: refinement of the declarative rule \<open>valid_block\<close>, conservation
  of value, authorisation, and where the code's arithmetic breaks them. Chain: the tree
  invariant and the longest chain. Worker: no panic, closure under arrival, order
  independence, completeness of the orphan buffer, catching up when one worker gets the blocks. Miner and generator: what
  they produce is valid and what becomes of it. Network: frames, broadcasts, malformed
  input, and a connection in bytes that implements one in messages. System: in every
  interleaving of turns the ledger is the replay of the longest chain; a payment is mined,
  recorded and relayed. Locks: run undisturbed, the threads do what the one-step handlers
  do; in every interleaving of lock sections the tree is well formed, the ledger is a
  replay along the longest chain, readers get consistent answers, no lock but that of the tree
  is poisoned, and that only by a response that fails, two nodes agree, no output is spent
  twice, and the supply is bounded.
  Program: the same for all threads and channels together; every panic has a known cause,
  the mempool is authentic, its poisoning is final and stays apart from tree and ledger, and
  any worker that is ready can take a waiting message. Unit tests: for which draws they pass.

  Granularity. In \<open>System\<close> a turn of a thread is one step. \<open>Interleaving\<close> takes the turns apart
  at every lock of the tree and of the ledger states, with a mempool that changes arbitrarily,
  \<open>Races\<close> at every lock of the mempool, \<open>MinerLocks\<close> and \<open>GeneratorLocks\<close> at every lock of the
  miner and of the generator; \<open>locks_refine_handlers\<close>, \<open>handlers_refined_by_locks\<close> and
  \<open>turns_refined_by_locks\<close> relate them to the one-step definitions. \<open>Process\<close> puts these
  sections over one state, and every step of it is a step of \<open>Interleaving\<close> or leaves the tree,
  the ledger states and the workers alone (\<open>program_refines_parts\<close>), so that what is shown
  there holds for the whole program. In \<open>Process\<close> the arms of a worker that hold the lock of the
  tree once are one step, a message is sent after the section that computes it, and a thread
  waits where a bounded channel is full; of the requests at the interface the state query is
  taken apart, the others answer in one step, and the answer may fail to be sent; for the
  longest chain this happens with the lock of the tree held, and poisons it. The control task
  may panic; whoever broadcasts after that panics too. A thread that panics is not followed further;
  what it had changed before is kept, except in \<open>System\<close>.

  Not modelled: the random numbers, clocks and iteration orders that are inputs here;
  \<open>clap\<close>, logging, sleeping, thread creation; TCP, the executor, HTTP, URL parsing and the
  text of JSON; tests that are commented out. In \<open>Process\<close> the bytes of a
  connection are arbitrary (\<open>Server\<close> and \<open>Wire\<close> say what they are between two nodes), the start
  of the generator is one step, a writer task ends only when its connection does, and what
  the panic of the control task does to the executor and its other tasks is left open: they
  may go on or not.
\<close>

section \<open>Properties of the whole node\<close>

text \<open>
  The node's ledger is the replay of its longest chain. In every state that any
  interleaving of the node's threads reaches, the longest-chain query returns a path of
  blocks from the genesis block to the tip, and the state recorded for the tip is what the
  validation of all transactions along that path computes from the initial state. The
  hypotheses: the blocks that occur have different headers with different hashes
  (\<open>universe_sound\<close>), and
  what the three keys sign is verified.
\<close>

theorem ledger_is_replay:
  assumes "sys_reach X U i s" and "universe_sound X U" and "\<forall>k\<in>set all_public_keys. signs X k"
  shows "\<exists>hs st. all_blocks_in_longest_chain (blockchain (node s)) = Ret hs \<and>
    chain_to X (blockchain (node s)) hs (tip (blockchain (node s))) \<and>
    block_state (node s) (tip (blockchain (node s))) = Some st \<and>
    check_txs X (State_new X (all_public_keys ! 0)) (path_txs (blockchain (node s)) hs) = Ret (Some st)"
proof -
  have ok: "node_ok X U (State_new X (all_public_keys ! 0)) (node s)"
    using sys_reach_ok [OF assms(2,3,1)] by (simp add: sys_ok_def)
  then have "chain_inv X (blockchain (node s))" by (simp add: node_ok_def)
  then obtain hs where "all_blocks_in_longest_chain (blockchain (node s)) = Ret hs"
    "chain_to X (blockchain (node s)) hs (tip (blockchain (node s)))" by (rule longest_chain_tip)
  with ledger_replay [OF ok] show ?thesis by blast
qed

text \<open>A run of the example: a worker receives a block that extends the genesis block.\<close>

lemma demo_run:
  obtains s n where "sys_reach (demo_crates False) {genesis, demo_b1} 0 s"
    "blocks (blockchain (node s)) (pad32 [0, 2, 1]) = Some (demo_b1, n)"
proof -
  let ?X = "demo_crates False"
  obtain s where s: "sys_start ?X 0 = Ret s" "node s = init_node ?X" using demo_start [of 0] by auto
  have bufs: "orphan_bufs s 0 = []" using s(1) by (auto simp: sys_start_def res_simps)
  obtain nd' os' out n where m: "handle_message ?X (init_node ?X) [] (Blocks [demo_b1]) = Ret (nd', os', out)"
    "blocks (blockchain nd') (pad32 [0, 2, 1]) = Some (demo_b1, n)" by (rule demo_b1_received)
  have "sys_step ?X {genesis, demo_b1} s out (s\<lparr>node := nd', orphan_bufs := (orphan_bufs s)(0 := os')\<rparr>)"
    by (rule net_worker [where msg = "Blocks [demo_b1]"]) (use m s bufs in simp_all)
  from sys_turn [OF sys_init [OF s(1)] this] show thesis
    by (rule that [where n = n]) (simp add: m(2))
qed

theorem ledger_is_replay_witness:
  "\<exists>s hs st. sys_reach (demo_crates False) {genesis, demo_b1} 0 s \<and>
    blocks (blockchain (node s)) (pad32 [0, 2, 1]) \<noteq> None \<and>
    all_blocks_in_longest_chain (blockchain (node s)) = Ret hs \<and>
    check_txs (demo_crates False) (State_new (demo_crates False) (all_public_keys ! 0))
      (path_txs (blockchain (node s)) hs) = Ret (Some st)"
proof -
  obtain s n where s: "sys_reach (demo_crates False) {genesis, demo_b1} 0 s"
    "blocks (blockchain (node s)) (pad32 [0, 2, 1]) = Some (demo_b1, n)" by (rule demo_run)
  from ledger_is_replay [OF s(1) demo_universe demo_signs] s show ?thesis by blast
qed

text \<open>
  The longest chain carries work. Every block of it, other than the genesis block, has
  the fixed difficulty and a hash that does not exceed it, and every block is stored under
  its own hash.
\<close>

theorem longest_chain_has_work:
  assumes "sys_reach X U i s" and "universe_sound X U" and "\<forall>k\<in>set all_public_keys. signs X k"
    and "all_blocks_in_longest_chain (blockchain (node s)) = Ret hs" and "h \<in> set hs"
  shows "\<exists>b n. blocks (blockchain (node s)) h = Some (b, n) \<and> hash_block X b = h \<and>
    difficulty (head b) = genesis_difficulty \<and> (b = genesis \<or> h \<le> genesis_difficulty)"
proof -
  have ok: "node_ok X U (State_new X (all_public_keys ! 0)) (node s)"
    using sys_reach_ok [OF assms(2,3,1)] by (simp add: sys_ok_def)
  then have inv: "chain_inv X (blockchain (node s))" by (simp add: node_ok_def)
  with assms(4) have "chain_to X (blockchain (node s)) hs (tip (blockchain (node s)))"
    using all_blocks_chain by blast
  from chain_to_known [OF inv this assms(5)] obtain b n where
    e: "blocks (blockchain (node s)) h = Some (b, n)" by auto
  have "hash_block X b = h" using tree_inv_hash inv e by (auto simp: chain_inv_def)
  with e ok show ?thesis by (auto simp: node_ok_def pow_inv_def)
qed

theorem longest_chain_has_work_witness:
  "\<exists>s hs b n. sys_reach (demo_crates False) {genesis, demo_b1} 0 s \<and>
    all_blocks_in_longest_chain (blockchain (node s)) = Ret hs \<and>
    blocks (blockchain (node s)) (pad32 [0, 1, 0]) = Some (b, n) \<and> difficulty (head b) = genesis_difficulty"
proof -
  let ?X = "demo_crates False"
  obtain s where s: "sys_start ?X 0 = Ret s" "node s = init_node ?X" using demo_start [of 0] by auto
  have r: "sys_reach ?X {genesis, demo_b1} 0 s" using s(1) by (rule sys_init)
  have hs: "all_blocks_in_longest_chain (blockchain (node s)) = Ret [pad32 [0, 1, 0]]"
    using all_blocks_chain [OF chain_inv_new, of ?X] chain_root [of ?X "Blockchain_new ?X"] s(2)
    by (simp add: Blockchain_new_def Let_def)
  from longest_chain_has_work [OF r demo_universe demo_signs hs, of "pad32 [0, 1, 0]"] r hs
  show ?thesis by auto
qed

text \<open>
  No message, mined block or payment crashes the node. In every reachable state a
  network worker handles any decoded message, and the miner's worker any block on its way,
  without a panic, except for an arithmetic overflow in a build with overflow checks; a turn
  of the generator whose control channel is open always returns. Nothing is assumed of
  hashes and signatures, nor of the number of blocks.
\<close>

theorem node_survives_messages:
  assumes "sys_reach X U i s" and "gen_signal inp \<noteq> Disconnected"
  shows "only_overflow (overflow_checks X) (handle_message X (node s) (orphan_bufs s k) msg) \<and>
    list_all (\<lambda>b. only_overflow (overflow_checks X) (miner_worker_step X (node s) b)) (finished s) \<and>
    (\<exists>r. generator_turn X (node s) (generator s) inp = Ret r)"
proof -
  have ok: "sys_safe s" by (rule sys_reach_safe [OF assms(1)])
  then have safe: "node_safe (node s)" by (simp add: sys_safe_def)
  have "only_overflow (overflow_checks X) (miner_worker_step X (node s) b)" if "b \<in> set (finished s)" for b
    using that ok by (intro miner_worker_step_panic safe) (simp add: sys_safe_def)
  with handle_message_panic [OF safe] generator_turn_total [OF safe assms(2)] show ?thesis
    by (simp add: list_all_iff)
qed

theorem node_survives_messages_witness:
  "\<exists>s. sys_reach (demo_crates False) {genesis, demo_b1} 0 s \<and>
    only_overflow False (handle_message (demo_crates False) (node s) (orphan_bufs s 3) (Blocks [genesis]))"
proof -
  obtain s n where s: "sys_reach (demo_crates False) {genesis, demo_b1} 0 s"
    "blocks (blockchain (node s)) (pad32 [0, 2, 1]) = Some (demo_b1, n)" by (rule demo_run)
  from node_survives_messages [OF s(1), of "\<lparr>gen_signal = Nothing, entries = []\<rparr>" 3 "Blocks [genesis]"] s(1)
  show ?thesis by auto
qed

text \<open>
  C18: an announcement reaches every peer. When the miner's worker accepts a block, what it
  hands to the server is put into the queue of each registered peer whose writer task is
  alive, behind what the queue holds, and the reader task of that peer decodes from the
  connection the earlier messages and then the announcement. The hypotheses on the
  encoder: decoding inverts encoding, and the messages fit a frame.
\<close>

theorem announcement_reaches_peers:
  assumes "miner_worker_step X nd b = Ret (nd', [Broadcast msg])"
    and "server_reach X s" and "enumerates (peer_order inp) (peers s)"
    and "peers s a = Some ph" and "write_queue ph \<notin> hung_up s"
    and "queues s (write_queue ph) = map (serialize_msg X) earlier"
    and "\<forall>m\<in>insert msg (set earlier).
      deserialize_msg X (serialize_msg X m) = Some m \<and> length (serialize_msg X m) < 2 ^ 32"
  shows "\<exists>s'. dispatch_control X s inp (BroadcastMessage msg) = Ret (s', None) \<and>
    map (deserialize_msg X) (fst (reader_loop (length earlier + 1)
      (fst (writer_loop (length earlier + 1) (queues s' (write_queue ph)))) buf)) =
      map Some earlier @ [Some (NewBlockHashes [hash_block X b])] \<and>
    blocks (blockchain nd') (hash_block X b) \<noteq> None"
proof -
  from assms(1) have acc: "accept_block X nd b (hash_block X b) = Ret (True, nd')"
    and msg: "msg = NewBlockHashes [hash_block X b]"
    by (auto simp: miner_worker_step_accept res_simps split: if_splits)
  have "write_queue ph \<in> write_queue ` ran (peers s)" using assms(4) by (auto simp: ran_def)
  with broadcast_queues [OF assms(2,3), of msg] assms(5,6) obtain s' where
    s': "dispatch_control X s inp (BroadcastMessage msg) = Ret (s', None)"
    "queues s' (write_queue ph) = map (serialize_msg X) (earlier @ [msg])" by auto
  have "map (deserialize_msg X) (fst (reader_loop (length (earlier @ [msg]))
      (fst (writer_loop (length (earlier @ [msg])) (map (serialize_msg X) (earlier @ [msg])))) buf)) =
      map Some (earlier @ [msg])"
    by (rule queue_decoded) (use assms(7) in auto)
  with s' accept_block_Ret(2) [OF acc, of "hash_block X b"] msg show ?thesis by auto
qed

definition demo_wire :: Crates where
  "demo_wire = (demo_crates True)\<lparr>serialize_msg := \<lambda>_. [7],
     deserialize_msg := \<lambda>_. Some (NewBlockHashes [pad32 [0, 2, 1]])\<rparr>"

lemma demo_wire_hash [simp]: "hash_block demo_wire b = hash_block (demo_crates True) b"
  by (simp add: demo_wire_def hash_block_def hash_header_def)

theorem announcement_reaches_peers_witness:
  "\<exists>nd' s'. miner_worker_step demo_wire (init_node demo_wire) demo_b1 =
      Ret (nd', [Broadcast (NewBlockHashes [pad32 [0, 2, 1]])]) \<and>
    dispatch_control demo_wire demo_server
      (demo_server_input\<lparr>peer_order := [(5, \<lparr>h_addr = 5, write_queue = 0\<rparr>)]\<rparr>)
      (BroadcastMessage (NewBlockHashes [pad32 [0, 2, 1]])) = Ret (s', None) \<and>
    length (fst (reader_loop 1 (fst (writer_loop 1 (queues s' 0))) [])) = 1"
proof -
  let ?X = demo_wire and ?msg = "NewBlockHashes [pad32 [0, 2, 1]]"
  let ?inp = "demo_server_input\<lparr>peer_order := [(5, \<lparr>h_addr = 5, write_queue = 0\<rparr>)]\<rparr>"
  let ?ph = "\<lparr>h_addr = 5, write_queue = 0\<rparr>"
  obtain nd' where st: "miner_worker_step ?X (init_node ?X) demo_b1 = Ret (nd', [Broadcast ?msg])"
    by (simp add: miner_worker_step_def miner_check_tx_state_eq check_tx_state_def Blockchain_insert_def
        Blockchain_new_def Let_def add_checked_no_overflow)
  have "enumerates (peer_order ?inp) (peers demo_server)"
    by (auto simp: enumerates_def demo_server_def split: if_splits)
  from announcement_reaches_peers [OF st demo_server_reach this, of 5 ?ph "[]" "[]"]
  obtain s' where "dispatch_control ?X demo_server ?inp (BroadcastMessage ?msg) = Ret (s', None)"
    "map (deserialize_msg ?X) (fst (reader_loop 1 (fst (writer_loop 1 (queues s' 0))) [])) =
       [Some (NewBlockHashes [hash_block ?X demo_b1])]"
    by (auto simp: demo_server_def demo_wire_def)
  with st show ?thesis by (metis length_map list.size(3) length_Cons One_nat_def)
qed

text \<open>
  The mempool is authentic. In every reachable state every pooled transaction is stored
  under its own hash and carries a valid signature; pooling does not check its inputs.
\<close>

theorem mempool_authentic:
  assumes "sys_reach X U i s" and "universe_sound X U" and "\<forall>k\<in>set all_public_keys. signs X k"
    and "trans (mempool (node s)) h = Some t"
  shows "hash_stx X t = h \<and> verify_tx X (transaction t) (public_key_vector t) (signature_vector t)"
  using sys_reach_ok [OF assms(2,3,1)] assms(4) by (auto simp: mempool_ok_def signature_ok_def)

theorem mempool_authentic_witness:
  "\<exists>s h t. sys_reach (demo_crates True) {genesis, demo_b1} 0 s \<and> trans (mempool (node s)) h = Some t \<and>
     hash_stx (demo_crates True) t = h"
proof -
  let ?X = "demo_crates True" and ?t = "demo_tx [] []"
  let ?nd = "(init_node ?X)\<lparr>mempool := \<lparr>trans = [hash_stx ?X ?t \<mapsto> ?t]\<rparr>\<rparr>"
  obtain s where s: "sys_start ?X 0 = Ret s" "node s = init_node ?X" using demo_start [of 0] by auto
  let ?s = "s\<lparr>node := ?nd, orphan_bufs := (orphan_bufs s)(0 := orphan_bufs s 0)\<rparr>"
  have "handle_message ?X (node s) (orphan_bufs s 0) (Transactions [?t]) =
      Ret (?nd, orphan_bufs s 0, [Broadcast (NewTransactionHashes [hash_stx ?X ?t])])"
    using demo_tx_verifies [of True "[]" "[]"]
    by (simp add: s(2) handle_Transactions_def Mempool_new_def Let_def)
  then have "sys_step ?X {genesis, demo_b1} s [Broadcast (NewTransactionHashes [hash_stx ?X ?t])] ?s"
    by (rule net_worker) simp
  with s(1) have r: "sys_reach ?X {genesis, demo_b1} 0 ?s" by (intro sys_turn [OF sys_init])
  have e: "trans (mempool (node ?s)) (hash_stx ?X ?t) = Some ?t" by simp
  from mempool_authentic [OF r demo_universe demo_signs e] r e show ?thesis by blast
qed

definition requests_transactions :: "action \<Rightarrow> bool" where
  "requests_transactions a \<longleftrightarrow>
     (case a of Reply (GetTransactions _) \<Rightarrow> True | Broadcast (GetTransactions _) \<Rightarrow> True | _ \<Rightarrow> False)"

lemma requests_transactions_simps [simp]:
  "requests_transactions (Reply m) \<longleftrightarrow> (\<exists>hs. m = GetTransactions hs)"
  "requests_transactions (Broadcast m) \<longleftrightarrow> (\<exists>hs. m = GetTransactions hs)"
  by (cases m; simp add: requests_transactions_def)+

lemma process_blocks_requests:
  "process_blocks X bs s = Ret s' \<Longrightarrow> filter requests_transactions (bl_out s) = [] \<Longrightarrow>
     filter requests_transactions (bl_out s') = []"
proof (induction bs arbitrary: s)
  case (Cons b bs)
  from Cons.prems(1) obtain s1 where
    s1: "process_block X b s = Ret s1" "process_blocks X bs s1 = Ret s'" by (auto simp: res_simps)
  have "filter requests_transactions (bl_out s1) = []"
    using s1(1) Cons.prems(2) by (cases rule: process_block_cases) auto
  with Cons.IH s1(2) show ?case by blast
qed simp

text \<open>
  C40: transactions are announced but never fetched. No thread of a node ever sends
  \<open>GetTransactions\<close>: a worker that hears \<open>NewTransactionHashes\<close> collects the hashes
  and drops them. So the transactions that another node announces never reach this one's
  mempool by the protocol.
\<close>

theorem transactions_never_requested:
  assumes "sys_step X U s out s'"
  shows "filter requests_transactions out = []"
  using assms
proof cases
  case (net_worker k msg nd' os')
  then show ?thesis
    by (cases msg)
      (auto simp: handle_Ping_def handle_NewBlockHashes_def handle_GetBlocks_def handle_Blocks_def
        handle_NewTransactionHashes_def handle_GetTransactions_def handle_Transactions_def Let_def res_simps
        split: prod.splits if_splits dest!: process_blocks_requests)
next
  case (insert_mined b bs nd')
  then show ?thesis by (auto simp: miner_worker_step_accept res_simps)
next
  case (generate ginp nd' g')
  then show ?thesis
    by (auto simp: generator_turn_def generate_once_def Let_def res_simps
        split: TxGenerator.OperatingState.splits received.splits if_splits)
qed simp

theorem transactions_never_requested_witness:
  "\<exists>s s'. sys_step (demo_crates True) {} s [] s' \<and> filter requests_transactions [] = []"
proof -
  let ?X = "demo_crates True"
  obtain s where s: "sys_start ?X 0 = Ret s" "node s = init_node ?X" using demo_start [of 0] by auto
  have "handle_message ?X (node s) (orphan_bufs s 0) (NewTransactionHashes [h256_fill 1]) =
      Ret (node s, orphan_bufs s 0, [])" by (simp add: handle_NewTransactionHashes_def)
  then have "sys_step ?X {} s [] (s\<lparr>node := node s, orphan_bufs := (orphan_bufs s)(0 := orphan_bufs s 0)\<rparr>)"
    by (rule net_worker) simp
  with transactions_never_requested [OF this] show ?thesis by blast
qed

end
